(* ===== verification/Rarpar_Prelude.thy ===== *)
theory Rarpar_Prelude
  imports Main "HOL-Library.Word"
begin

text \<open>
  Shared vocabulary of the development: machine integers and byte strings, the
  \<open>Result\<close> combinator, checked arithmetic, byte-order conversions and slices of
  the Rust standard library as the crates use them, and the list lemmas the
  component theories rest on.

  Lengths, indices and stream positions (\<open>usize\<close>, and \<open>u64\<close> where the value is a
  position in a stream that exists) are \<open>nat\<close>; every integer that is read from
  an archive keeps its width. The target is a 64-bit one, so
  \<open>usize::try_from(u64)\<close> succeeds.
\<close>

unbundle bit_operations_syntax

type_synonym u8 = "8 word"
type_synonym u16 = "16 word"
type_synonym u32 = "32 word"
type_synonym u64 = "64 word"
type_synonym bytes = "8 word list"

text \<open>A Rust \<open>String\<close> is a sequence of Unicode scalar values.\<close>

type_synonym rstring = "32 word list"

named_theorems result_simps \<open>rewriting of results: \<open>and_then\<close>, \<open>ok_or\<close>, \<open>map_ok\<close>\<close>
named_theorems bytes_simps \<open>byte-order conversions and their lengths\<close>

section \<open>Results\<close>

text \<open>\<open>Result::and_then\<close>, which is also what the \<open>?\<close> operator does: the first error
  ends the function.\<close>

definition and_then :: "'e + 'a \<Rightarrow> ('a \<Rightarrow> 'e + 'b) \<Rightarrow> 'e + 'b" where
  "and_then r f = (case r of Inl e \<Rightarrow> Inl e | Inr x \<Rightarrow> f x)"

definition ok_or :: "'a option \<Rightarrow> 'e \<Rightarrow> 'e + 'a" where
  "ok_or x e = (case x of None \<Rightarrow> Inl e | Some v \<Rightarrow> Inr v)"

definition map_err :: "('e \<Rightarrow> 'f) \<Rightarrow> 'e + 'a \<Rightarrow> 'f + 'a" where
  "map_err f r = (case r of Inl e \<Rightarrow> Inl (f e) | Inr x \<Rightarrow> Inr x)"

definition is_ok :: "'e + 'a \<Rightarrow> bool" where
  "is_ok r = (case r of Inl _ \<Rightarrow> False | Inr _ \<Rightarrow> True)"

lemma and_then_Inr [simp, result_simps]: "and_then (Inr x) f = f x"
  by (simp add: and_then_def)

lemma and_then_Inl [simp, result_simps]: "and_then (Inl e) f = Inl e"
  by (simp add: and_then_def)

lemma and_then_eq_Inr [result_simps]:
  "and_then r f = Inr y \<longleftrightarrow> (\<exists>x. r = Inr x \<and> f x = Inr y)"
  by (cases r) auto

lemma and_then_eq_Inl [result_simps]:
  "and_then r f = Inl e \<longleftrightarrow> r = Inl e \<or> (\<exists>x. r = Inr x \<and> f x = Inl e)"
  by (cases r) auto

lemma and_then_assoc: "and_then (and_then r f) g = and_then r (\<lambda>x. and_then (f x) g)"
  by (cases r) auto

lemma and_then_cong [fundef_cong]:
  "r = r' \<Longrightarrow> (\<And>x. r' = Inr x \<Longrightarrow> f x = f' x) \<Longrightarrow> and_then r f = and_then r' f'"
  by (cases r') auto

lemma and_then_split:
  "P (and_then r f) \<longleftrightarrow> (\<forall>e. r = Inl e \<longrightarrow> P (Inl e)) \<and> (\<forall>x. r = Inr x \<longrightarrow> P (f x))"
  by (cases r) auto

lemma ok_or_simps [simp, result_simps]: "ok_or None e = Inl e" "ok_or (Some v) e = Inr v"
  by (simp_all add: ok_or_def)

lemma ok_or_eq_Inr [result_simps]: "ok_or x e = Inr v \<longleftrightarrow> x = Some v"
  by (cases x) auto

lemma map_err_simps [simp, result_simps]:
  "map_err f (Inl e) = Inl (f e)" "map_err f (Inr x) = Inr x"
  by (simp_all add: map_err_def)

lemma map_err_eq_Inr [result_simps]: "map_err f r = Inr x \<longleftrightarrow> r = Inr x"
  by (cases r) auto

lemma is_ok_simps [simp, result_simps]: "is_ok (Inl e) = False" "is_ok (Inr x) = True"
  by (simp_all add: is_ok_def)

section \<open>Checked and saturating arithmetic on u64 and u32\<close>

definition checked_add :: "'a::len word \<Rightarrow> 'a word \<Rightarrow> 'a word option" where
  "checked_add a b = (if unat a + unat b < 2 ^ LENGTH('a) then Some (a + b) else None)"

definition checked_sub :: "'a::len word \<Rightarrow> 'a word \<Rightarrow> 'a word option" where
  "checked_sub a b = (if b \<le> a then Some (a - b) else None)"

definition saturating_mul :: "'a::len word \<Rightarrow> 'a word \<Rightarrow> 'a word" where
  "saturating_mul a b = (if unat a * unat b < 2 ^ LENGTH('a) then a * b else - 1)"

lemma unat_bound: "unat (w :: 'a::len word) < 2 ^ LENGTH('a)"
  by (rule unsigned_less)

lemma unat_plus_no_overflow:
  fixes a b :: "'a::len word"
  assumes "unat a + unat b < 2 ^ LENGTH('a)"
  shows "unat (a + b) = unat a + unat b"
  using assms by (simp add: unat_word_ariths)

lemma unat_mult_no_overflow:
  fixes a b :: "'a::len word"
  assumes "unat a * unat b < 2 ^ LENGTH('a)"
  shows "unat (a * b) = unat a * unat b"
  using assms by (simp add: unat_word_ariths)

lemma checked_add_SomeD:
  "checked_add a b = Some c \<Longrightarrow> unat c = unat a + unat b"
  by (auto simp: checked_add_def unat_plus_no_overflow split: if_splits)

lemma checked_sub_SomeD:
  "checked_sub a b = Some c \<Longrightarrow> unat c = unat a - unat b \<and> unat b \<le> unat a"
  by (auto simp: checked_sub_def unat_sub word_le_nat_alt split: if_splits)

section \<open>Little-endian byte order\<close>

primrec to_le_bytes :: "nat \<Rightarrow> 'a::len word \<Rightarrow> bytes" where
  "to_le_bytes 0 w = []"
| "to_le_bytes (Suc n) w = ucast w # to_le_bytes n (drop_bit 8 w)"

primrec from_le_bytes :: "bytes \<Rightarrow> 'a::len word" where
  "from_le_bytes [] = 0"
| "from_le_bytes (b # bs) = ucast b OR push_bit 8 (from_le_bytes bs)"

lemma length_to_le_bytes [simp, bytes_simps]: "length (to_le_bytes n w) = n"
  by (induction n arbitrary: w) auto

lemma from_to_le_bytes_take_bit:
  "from_le_bytes (to_le_bytes n (w :: 'a::len word)) = take_bit (8 * n) w"
proof (induction n arbitrary: w)
  case 0
  then show ?case by simp
next
  case (Suc n)
  show ?case
    by (rule bit_word_eqI) (auto simp: Suc bit_simps not_less)
qed

lemma from_to_le_bytes [simp, bytes_simps]:
  "LENGTH('a) \<le> 8 * n \<Longrightarrow> from_le_bytes (to_le_bytes n (w :: 'a::len word)) = w"
  by (simp add: from_to_le_bytes_take_bit take_bit_word_eq_self)

lemma to_le_bytes_cong:
  "(\<And>i. i < 8 * n \<Longrightarrow> bit v i = bit w i) \<Longrightarrow> to_le_bytes n v = to_le_bytes n (w :: 'a::len word)"
proof (induction n arbitrary: v w)
  case 0
  then show ?case by simp
next
  case (Suc n)
  have "ucast v = (ucast w :: u8)"
    by (rule bit_word_eqI) (simp add: bit_simps Suc.prems)
  moreover have "to_le_bytes n (drop_bit 8 v) = to_le_bytes n (drop_bit 8 w)"
    by (rule Suc.IH) (simp add: bit_simps Suc.prems)
  ultimately show ?case by simp
qed

lemma to_from_le_bytes [simp, bytes_simps]:
  assumes "8 * length bs \<le> LENGTH('a)"
  shows "to_le_bytes (length bs) (from_le_bytes bs :: 'a::len word) = bs"
  using assms
proof (induction bs)
  case Nil
  then show ?case by simp
next
  case (Cons b bs)
  have "ucast (ucast b OR push_bit 8 (from_le_bytes bs) :: 'a word) = b"
    using Cons.prems by (intro bit_word_eqI) (auto simp: bit_simps)
  moreover have "to_le_bytes (length bs) (drop_bit 8 (ucast b OR push_bit 8 (from_le_bytes bs)) :: 'a word)
      = to_le_bytes (length bs) (from_le_bytes bs :: 'a word)"
    using Cons.prems by (intro to_le_bytes_cong) (auto simp: bit_simps dest: bit_imp_le_length)
  ultimately show ?case using Cons by simp
qed

section \<open>Slices\<close>

text \<open>\<open>data.get(pos..).unwrap_or(&[])\<close> is \<open>drop\<close>: past the end it is empty. \<open>&data[a..b]\<close>
  panics unless \<open>a \<le> b \<le> len\<close>; \<open>slice\<close> keeps that panic as \<open>None\<close>.\<close>

definition slice :: "nat \<Rightarrow> nat \<Rightarrow> 'a list \<Rightarrow> 'a list option" where
  "slice a b xs = (if a \<le> b \<and> b \<le> length xs then Some (take (b - a) (drop a xs)) else None)"

definition slice_from :: "nat \<Rightarrow> 'a list \<Rightarrow> 'a list option" where
  "slice_from a xs = (if a \<le> length xs then Some (drop a xs) else None)"

lemma slice_Some: "slice a b xs = Some ys \<longleftrightarrow> a \<le> b \<and> b \<le> length xs \<and> ys = take (b - a) (drop a xs)"
  by (auto simp: slice_def)

lemma slice_from_Some: "slice_from a xs = Some ys \<longleftrightarrow> a \<le> length xs \<and> ys = drop a xs"
  by (auto simp: slice_from_def)

text \<open>A buffer of \<open>n\<close> zero bytes with as much of \<open>src\<close> copied into its front as there is and
  as fits: \<open>buf[..k].copy_from_slice(&src[..k])\<close> with \<open>k = min(src.len(), n)\<close>.\<close>

definition zero_filled :: "nat \<Rightarrow> bytes \<Rightarrow> bytes" where
  "zero_filled n src = take n src @ replicate (n - length src) 0"

lemma length_zero_filled [simp, bytes_simps]: "length (zero_filled n src) = n"
  by (simp add: zero_filled_def)

lemma zero_filled_exact [simp, bytes_simps]: "length src = n \<Longrightarrow> zero_filled n src = src"
  by (simp add: zero_filled_def)

text \<open>\<open>position\<close> of an iterator: the first index whose element satisfies the predicate.\<close>

primrec position :: "('a \<Rightarrow> bool) \<Rightarrow> 'a list \<Rightarrow> nat option" where
  "position p [] = None"
| "position p (x # xs) = (if p x then Some 0 else map_option Suc (position p xs))"

lemma position_Some:
  "position p xs = Some i \<Longrightarrow> i < length xs \<and> p (xs ! i) \<and> (\<forall>j<i. \<not> p (xs ! j))"
proof (induction xs arbitrary: i)
  case Nil
  then show ?case by simp
next
  case (Cons x xs)
  then show ?case by (auto simp: nth_Cons' split: if_splits)
qed

lemma position_None: "position p xs = None \<longleftrightarrow> (\<forall>x\<in>set xs. \<not> p x)"
  by (induction xs) auto

text \<open>\<open>bytes.iter().position(|b| b == 0).unwrap_or(len)\<close> and the prefix it bounds.\<close>

definition until_nul :: "bytes \<Rightarrow> bytes" where
  "until_nul bs = take (case position (\<lambda>b. b = 0) bs of None \<Rightarrow> length bs | Some i \<Rightarrow> i) bs"

lemma until_nul_takeWhile: "until_nul bs = takeWhile (\<lambda>b. b \<noteq> 0) bs"
proof (induction bs)
  case Nil
  then show ?case by (simp add: until_nul_def)
next
  case (Cons b bs)
  then show ?case by (auto simp: until_nul_def split: option.splits)
qed

end
