(* ===== verification/Rar_Types.thy ===== *)
theory Rar_Types
  imports Rarpar_Prelude
begin

text \<open>
  The data types the RAR crate's parsers share (\<open>unrar-rs/src/error.rs\<close>,
  \<open>types.rs\<close>, \<open>limits.rs\<close>) and the \<open>Read + Seek\<close> stream they read from.

  An error's rendered text is not modelled: where the source builds a
  \<open>detail\<close> string, the model keeps which message it is and the values it
  prints (\<open>corrupt_detail\<close>). \<open>Panicked\<close> is not a variant of the source's
  enum; it is the result of a slice expression whose bounds do not hold, which
  the source would answer by panicking.
\<close>

section \<open>Errors\<close>

datatype io_error_kind = UnexpectedEof | InvalidInput | OtherIo

datatype limit_kind =
    DataSegment | UnpackedSize | MemoryExtraction | AddressSpace | HeadersPerVolume
  | HeaderSize | VolumeNumber | Comment | LinkTarget | PpmdArena

datatype corrupt_detail =
    ZeroHeaderSize nat
  | HeaderSizeVintTooLong nat nat
  | HeaderSizeExceedsMaximum u64
  | DataAreaNotSeekable u64
  | UnknownHeaderType u64 nat
  | EncryptedBodyBeyondData nat nat
  | DictionaryCodeOverflow u8
  | QuickOpenTooShort
  | QuickOpenInvalidBodySize
  | QuickOpenBodyExceedsRemaining u64 u64
  | QuickOpenCachedTooLarge u64
  | QuickOpenCachedBeyondBody
  | QuickOpenOffsetBeyondHeader u64 nat
  | QuickOpenExceedsPayload
  | QuickOpenTruncatedPayload
  | QuickOpenTruncatedVint
  | QuickOpenCachedTooShort
  | QuickOpenCachedInvalidSize u64
  | QuickOpenCachedSizeMismatch
  | OtherDetail

datatype rar_error =
    Io io_error_kind
  | InvalidSignature
  | UnsupportedFormat u8
  | CorruptArchive corrupt_detail
  | ModificationRefused
  | BlockHeaderChecksumMismatch u8 u8
  | HeaderCrcMismatch u32 u32
  | DataCrcMismatch rstring u32 u32
  | PackedDataCrcMismatch rstring nat u32 u32
  | Blake2Mismatch rstring
  | PackedDataBlake2Mismatch rstring nat
  | MissingVolume nat rstring
  | EncryptedArchive
  | EncryptedMember rstring
  | InvalidPassword
  | WrongPassword rstring
  | UnsupportedCompression u8 u8
  | UnsupportedEncryption u64
  | UnsupportedEncryptionKdf u8 u8
  | UnsupportedFilter u8
  | DictionaryTooLarge u64 u64
  | TruncatedHeader nat
  | TruncatedData nat
  | InvalidVint nat
  | InvalidHuffmanTable
  | ResourceLimit limit_kind u64 u64 "rstring option"
  | AllocationFailed u64
  | Internal
  | Panicked

type_synonym 'a rar_result = "rar_error + 'a"

definition index_from :: "nat \<Rightarrow> 'a list \<Rightarrow> 'a list rar_result" where
  "index_from a xs = ok_or (slice_from a xs) Panicked"

lemma index_from_ok [simp, result_simps]: "a \<le> length xs \<Longrightarrow> index_from a xs = Inr (drop a xs)"
  by (simp add: index_from_def slice_from_def)

lemma index_from_eq_Inr [result_simps]:
  "index_from a xs = Inr ys \<longleftrightarrow> a \<le> length xs \<and> ys = drop a xs"
  by (auto simp: index_from_def result_simps slice_from_Some)

section \<open>Archive types\<close>

datatype archive_format = Rar14 | Rar4 | Rar5

datatype data_hash = HashRar14 u16 | HashCrc32 u32

datatype host_os = Windows | Unix | Darwin | UnknownOs u64

definition host_os_from :: "u64 \<Rightarrow> host_os" where
  "host_os_from value = (if value = 0 then Windows else if value = 1 then Unix else UnknownOs value)"

datatype compression_method = Store | Fastest | Fast | Normal | Good | Best | UnknownMethod u8

definition compression_method_from_code :: "u8 \<Rightarrow> compression_method" where
  "compression_method_from_code code =
     (if code = 0 then Store else if code = 1 then Fastest else if code = 2 then Fast
      else if code = 3 then Normal else if code = 4 then Good else if code = 5 then Best
      else UnknownMethod code)"

fun compression_method_code :: "compression_method \<Rightarrow> u8" where
  "compression_method_code Store = 0"
| "compression_method_code Fastest = 1"
| "compression_method_code Fast = 2"
| "compression_method_code Normal = 3"
| "compression_method_code Good = 4"
| "compression_method_code Best = 5"
| "compression_method_code (UnknownMethod c) = c"

lemma compression_method_code_from_code [simp]:
  "compression_method_code (compression_method_from_code c) = c"
  by (simp add: compression_method_from_code_def)

record compression_info =
  ci_format :: archive_format
  ci_version :: u8
  ci_solid :: bool
  ci_method :: compression_method
  ci_dict_size :: u64

datatype file_hash = Blake2sp bytes

record unix_owner_info =
  uo_user_name :: "rstring option"
  uo_group_name :: "rstring option"
  uo_user_name_raw :: "bytes option"
  uo_group_name_raw :: "bytes option"
  uo_uid :: "u64 option"
  uo_gid :: "u64 option"

definition unix_owner_default :: unix_owner_info where
  "unix_owner_default = \<lparr>uo_user_name = None, uo_group_name = None, uo_user_name_raw = None,
     uo_group_name_raw = None, uo_uid = None, uo_gid = None\<rparr>"

section \<open>Limits\<close>

definition RAR_UNPACK_MAX_DICT_SIZE :: u64 where
  "RAR_UNPACK_MAX_DICT_SIZE = 0x1000000000"

definition RAR5_MAX_HEADER_BODY :: u64 where
  "RAR5_MAX_HEADER_BODY = 0x200000"

definition RAR_MAX_VOLUME_NUMBER :: u64 where
  "RAR_MAX_VOLUME_NUMBER = push_bit 20 1"

definition checked_volume_number :: "u64 \<Rightarrow> nat rar_result" where
  "checked_volume_number declared =
     (if RAR_MAX_VOLUME_NUMBER < declared
      then Inl (ResourceLimit VolumeNumber declared RAR_MAX_VOLUME_NUMBER None)
      else Inr (unat declared))"

section \<open>The stream\<close>

text \<open>\<open>std::io::Cursor\<close> over the bytes of a volume: \<open>read_exact\<close> either delivers all it was
  asked for and advances, or fails with \<open>UnexpectedEof\<close> and leaves the cursor at the end.
  A seek may leave the position past the end; reads there fail.\<close>

record reader =
  r_img :: bytes
  r_pos :: nat

definition read_exact :: "nat \<Rightarrow> reader \<Rightarrow> bytes rar_result \<times> reader" where
  "read_exact n r =
     (if r_pos r + n \<le> length (r_img r)
      then (Inr (take n (drop (r_pos r) (r_img r))), r\<lparr>r_pos := r_pos r + n\<rparr>)
      else (Inl (Io UnexpectedEof), r\<lparr>r_pos := length (r_img r)\<rparr>))"

definition seek_start :: "nat \<Rightarrow> reader \<Rightarrow> reader" where
  "seek_start p r = r\<lparr>r_pos := p\<rparr>"

text \<open>\<open>SeekFrom::Current\<close> with a non-negative offset; a position above \<open>u64::MAX\<close> is an error.\<close>

definition seek_forward :: "nat \<Rightarrow> reader \<Rightarrow> unit rar_result \<times> reader" where
  "seek_forward n r =
     (if r_pos r + n < 2 ^ 64 then (Inr (), r\<lparr>r_pos := r_pos r + n\<rparr>)
      else (Inl (Io InvalidInput), r))"

text \<open>Sequencing of stream operations: a result and the stream it leaves behind.\<close>

definition io_then ::
    "('e + 'a) \<times> 's \<Rightarrow> ('a \<Rightarrow> 's \<Rightarrow> ('e + 'b) \<times> 's) \<Rightarrow> ('e + 'b) \<times> 's" where
  "io_then m f = (case m of (Inl e, s) \<Rightarrow> (Inl e, s) | (Inr x, s) \<Rightarrow> f x s)"

lemma io_then_simps [simp, result_simps]:
  "io_then (Inl e, s) f = (Inl e, s)" "io_then (Inr x, s) f = f x s"
  by (simp_all add: io_then_def)

lemma io_then_cong [fundef_cong]:
  "m = m' \<Longrightarrow> (\<And>x s. m' = (Inr x, s) \<Longrightarrow> f x s = f' x s) \<Longrightarrow> io_then m f = io_then m' f'"
  by (cases m') (auto simp: io_then_def split: sum.splits)

lemma io_then_eq_Inr [result_simps]:
  "io_then m f = (Inr y, t) \<longleftrightarrow> (\<exists>x s. m = (Inr x, s) \<and> f x s = (Inr y, t))"
  by (cases m) (auto simp: io_then_def split: sum.splits)

lemma read_exact_eq_Inr [result_simps]:
  "read_exact n r = (Inr bs, r') \<longleftrightarrow>
     r_pos r + n \<le> length (r_img r) \<and> bs = take n (drop (r_pos r) (r_img r))
     \<and> r' = r\<lparr>r_pos := r_pos r + n\<rparr>"
  by (auto simp: read_exact_def)

lemma read_exact_img [simp]: "r_img (snd (read_exact n r)) = r_img r"
  by (simp add: read_exact_def)

lemma read_exact_error: "fst (read_exact n r) = Inl e \<Longrightarrow> e = Io UnexpectedEof"
  by (auto simp: read_exact_def split: if_splits)

end
