(* ===== verification/Vint.thy ===== *)
theory Vint
  imports Rar_Types
begin

text \<open>
  The variable-length integers of RAR5 (\<open>unrar-rs/src/vint.rs\<close>): the strict reader over a
  slice and over a stream, the encoder, the header walk's re-encoder for the
  checksum (\<open>header/common.rs\<close>) and the lossy reader the header parsers use
  (\<open>header/file.rs\<close>, and word for word in \<open>main_archive.rs\<close>, \<open>extra.rs\<close> and
  \<open>end_archive.rs\<close>).
\<close>

unbundle bit_operations_syntax

section \<open>Operations\<close>

definition VINT_MAX_BYTES :: nat where
  "VINT_MAX_BYTES = 10"

text \<open>The loop of \<open>read_vint\<close>: \<open>i\<close> counts the bytes already consumed.\<close>

fun read_vint_loop :: "u64 \<Rightarrow> nat \<Rightarrow> nat \<Rightarrow> bytes \<Rightarrow> (u64 \<times> nat) rar_result" where
  "read_vint_loop result shift i [] = Inl (TruncatedHeader 0)"
| "read_vint_loop result shift i (byte # data) =
     (let value_bits = (ucast (byte AND 0x7F) :: u64);
          result' = result OR push_bit shift value_bits
      in if byte AND 0x80 = 0 then Inr (result', i + 1)
         else if i = VINT_MAX_BYTES - 1 then Inl (InvalidVint 0)
         else read_vint_loop result' (shift + 7) (i + 1) data)"

definition read_vint :: "bytes \<Rightarrow> (u64 \<times> nat) rar_result" where
  "read_vint data = read_vint_loop 0 0 0 (take VINT_MAX_BYTES data)"

text \<open>The stream reader takes one byte at a time; \<open>k\<close> is how many more the loop may take.\<close>

fun read_vint_from_loop ::
    "nat \<Rightarrow> u64 \<Rightarrow> nat \<Rightarrow> nat \<Rightarrow> reader \<Rightarrow> (u64 \<times> nat) rar_result \<times> reader" where
  "read_vint_from_loop 0 result shift i r = (Inl (TruncatedHeader 0), r)"
| "read_vint_from_loop (Suc k) result shift i r =
     (case read_exact 1 r of
        (Inl e, r') \<Rightarrow> (Inl (if e = Io UnexpectedEof then TruncatedHeader 0 else e), r')
      | (Inr buf, r') \<Rightarrow>
          (let byte = hd buf;
               value_bits = (ucast (byte AND 0x7F) :: u64);
               result' = result OR push_bit shift value_bits
           in if byte AND 0x80 = 0 then (Inr (result', i + 1), r')
              else if i = VINT_MAX_BYTES - 1 then (Inl (InvalidVint 0), r')
              else read_vint_from_loop k result' (shift + 7) (i + 1) r'))"

definition read_vint_from :: "reader \<Rightarrow> (u64 \<times> nat) rar_result \<times> reader" where
  "read_vint_from r = read_vint_from_loop VINT_MAX_BYTES 0 0 0 r"

lemma drop_bit_7_less: "drop_bit 7 (value :: u64) \<noteq> 0 \<Longrightarrow> unat (drop_bit 7 value) < unat value"
proof -
  assume "drop_bit 7 value \<noteq> 0"
  then have "value \<noteq> 0" by auto
  then have "0 < unat value" by (simp add: unat_gt_0)
  then show ?thesis by (subst unat_drop_bit_eq) (simp add: drop_bit_eq_div)
qed

function encode_vint :: "u64 \<Rightarrow> bytes" where
  "encode_vint value =
     (let byte = (ucast (value AND 0x7F) :: u8);
          value' = drop_bit 7 value
      in if value' \<noteq> 0 then (byte OR 0x80) # encode_vint value' else [byte])"
  by pat_completeness auto
termination
  by (relation "measure unat") (auto simp: drop_bit_7_less)

declare encode_vint.simps [simp del]

text \<open>\<open>vint_encode_for_crc\<close>: exactly \<open>byte_count\<close> bytes, the continuation bit on all but the
  last.\<close>

fun vint_encode_for_crc :: "u64 \<Rightarrow> nat \<Rightarrow> bytes" where
  "vint_encode_for_crc v 0 = []"
| "vint_encode_for_crc v (Suc n) =
     (let byte = (ucast (v AND 0x7F) :: u8)
      in (if 0 < n then byte OR 0x80 else byte) # vint_encode_for_crc (drop_bit 7 v) n)"

text \<open>\<open>read_raw_vint_lossy\<close>: \<open>for shift in (0..64).step_by(7)\<close> runs at most ten times; a
  malformed integer reads as zero, and the count is of the bytes it looked at.\<close>

fun read_raw_vint_lossy_loop :: "nat list \<Rightarrow> u64 \<Rightarrow> nat \<Rightarrow> bytes \<Rightarrow> u64 \<times> nat" where
  "read_raw_vint_lossy_loop [] result read data = (0, read)"
| "read_raw_vint_lossy_loop (shift # shifts) result read data =
     (case data of
        [] \<Rightarrow> (0, read)
      | byte # rest \<Rightarrow>
          (let result' = result + push_bit shift (ucast (byte AND 0x7F))
           in if byte AND 0x80 = 0 then (result', read + 1)
              else read_raw_vint_lossy_loop shifts result' (read + 1) rest))"

definition vint_shifts :: "nat list" where
  "vint_shifts = map (\<lambda>k. 7 * k) [0..<10]"

definition read_raw_vint_lossy :: "bytes \<Rightarrow> u64 \<times> nat" where
  "read_raw_vint_lossy data = read_raw_vint_lossy_loop vint_shifts 0 0 data"

section \<open>What a vint denotes\<close>

text \<open>The value bits of a run of bytes, the first at bit \<open>s\<close>; and the length of the run the
  continuation bits describe.\<close>

fun vint_bits :: "nat \<Rightarrow> bytes \<Rightarrow> u64" where
  "vint_bits s [] = 0"
| "vint_bits s (b # bs) = push_bit s (ucast (b AND 0x7F)) OR vint_bits (s + 7) bs"

definition continues :: "u8 \<Rightarrow> bool" where
  "continues b \<longleftrightarrow> b AND 0x80 \<noteq> 0"

definition vint_run :: "bytes \<Rightarrow> nat" where
  "vint_run data = length (takeWhile continues data)"

lemma continues_bit: "continues b \<longleftrightarrow> bit b 7"
  using and_exp_eq_0_iff_not_bit [of b 7] by (simp add: continues_def)

lemma and_0x7F: "(x :: 'a::len word) AND 0x7F = take_bit 7 x"
  by (simp add: take_bit_eq_mask mask_eq_exp_minus_1)

lemma bit_0x80 [simp]: "bit (0x80 :: u8) n \<longleftrightarrow> n = 7"
proof -
  have "(0x80 :: u8) = 2 ^ 7" by simp
  then show ?thesis by (simp only: bit_exp_iff) auto
qed

text \<open>The strict loop reads the run the continuation bits describe, and nothing else.\<close>

lemma read_vint_loop_ok:
  assumes "vint_run data < length data" and "i + vint_run data \<le> 9"
  shows "read_vint_loop res s i data =
    Inr (res OR vint_bits s (take (Suc (vint_run data)) data), i + Suc (vint_run data))"
  using assms
proof (induction data arbitrary: res s i)
  case Nil
  then show ?case by simp
next
  case (Cons b data)
  show ?case
  proof (cases "continues b")
    case True
    then have "vint_run data < length data" "Suc i + vint_run data \<le> 9" "i \<noteq> 9"
      using Cons.prems by (auto simp: vint_run_def)
    then show ?thesis
      using True Cons.IH [of "Suc i"]
      by (auto simp: Let_def VINT_MAX_BYTES_def continues_def vint_run_def or.assoc)
  next
    case False
    then show ?thesis by (simp add: Let_def continues_def vint_run_def)
  qed
qed

lemma read_vint_loop_error:
  assumes "vint_run data = length data" and "i + length data \<le> 10"
  shows "read_vint_loop res s i data =
    Inl (if i + length data = 10 \<and> data \<noteq> [] then InvalidVint 0 else TruncatedHeader 0)"
  using assms
proof (induction data arbitrary: res s i)
  case Nil
  then show ?case by simp
next
  case (Cons b data)
  then have c: "continues b" "vint_run data = length data"
    by (auto simp: vint_run_def split: if_splits)
  show ?case
  proof (cases "i = 9")
    case True
    then show ?thesis using c Cons.prems by (simp add: Let_def VINT_MAX_BYTES_def continues_def)
  next
    case False
    then show ?thesis
      using c Cons.prems Cons.IH [of "Suc i"]
      by (auto simp: Let_def VINT_MAX_BYTES_def continues_def)
  qed
qed

lemma vint_run_le: "vint_run data \<le> length data"
  by (simp add: vint_run_def length_takeWhile_le)

lemma vint_run_take: "vint_run (take n data) = min n (vint_run data)"
  by (induction data arbitrary: n) (auto simp: vint_run_def take_Cons' split: nat.splits)

text \<open>The whole strict reader: which bytes it accepts, what it returns, which error it gives.\<close>

lemma read_vint_eq:
  "read_vint data =
     (if vint_run data < length data \<and> vint_run data \<le> 9
      then Inr (vint_bits 0 (take (Suc (vint_run data)) data), Suc (vint_run data))
      else if 10 \<le> length data then Inl (InvalidVint 0) else Inl (TruncatedHeader 0))"
proof (cases "vint_run data < length data \<and> vint_run data \<le> 9")
  case True
  then show ?thesis
    using read_vint_loop_ok [of "take 10 data" 0 0 0]
    by (auto simp: read_vint_def VINT_MAX_BYTES_def vint_run_take min_def)
next
  case False
  then have "vint_run (take 10 data) = length (take 10 data)"
    using vint_run_le [of data] by (auto simp: vint_run_take min_def)
  then show ?thesis
    using False read_vint_loop_error [of "take 10 data" 0 0 0]
    by (auto simp: read_vint_def VINT_MAX_BYTES_def min_def)
qed

lemma read_vint_InrD:
  "read_vint data = Inr (v, n) \<Longrightarrow>
     1 \<le> n \<and> n \<le> 10 \<and> n \<le> length data \<and> n = Suc (vint_run data) \<and> v = vint_bits 0 (take n data)"
  by (auto simp: read_vint_eq split: if_splits)

lemma read_vint_InlD:
  "read_vint data = Inl e \<Longrightarrow> e = InvalidVint 0 \<or> e = TruncatedHeader 0"
  by (auto simp: read_vint_eq split: if_splits)

section \<open>The lossy reader\<close>

lemma bit_vint_bits_lower: "n < s \<Longrightarrow> \<not> bit (vint_bits s bs) n"
  by (induction bs arbitrary: s) (auto simp: bit_simps)

lemma lossy_step:
  assumes "\<And>n. s \<le> n \<Longrightarrow> \<not> bit (res :: u64) n"
  shows "res + push_bit s v = res OR push_bit s v"
  using assms by (intro disjunctive_add) (auto simp: bit_simps not_le)

lemma read_raw_vint_lossy_loop_eq:
  assumes "i + length shifts = 10" and "shifts = map (\<lambda>k. 7 * k) [i..<10]"
    and "\<And>n. 7 * i \<le> n \<Longrightarrow> \<not> bit (res :: u64) n"
  shows "read_raw_vint_lossy_loop shifts res i data =
    (case read_vint_loop res (7 * i) i (take (length shifts) data) of
       Inr r \<Rightarrow> r
     | Inl _ \<Rightarrow> (0, i + min (length shifts) (length data)))"
  using assms
proof (induction shifts arbitrary: i res data)
  case Nil
  then show ?case by simp
next
  case (Cons s shifts)
  from Cons.prems(1,2) have i: "i < 10" and s: "s = 7 * i"
    and sh: "shifts = map (\<lambda>k. 7 * k) [Suc i..<10]"
    by (auto simp: upt_eq_Cons_conv)
  show ?case
  proof (cases data)
    case Nil
    then show ?thesis by simp
  next
    case (Cons b rest)
    let ?res = "res OR push_bit s (ucast (b AND 0x7F))"
    have step: "res + push_bit s (ucast (b AND 0x7F)) = ?res"
      using Cons.prems(3) s by (intro lossy_step) auto
    have low: "\<not> bit ?res n" if "7 * Suc i \<le> n" for n
      using that Cons.prems(3) [of n] s by (auto simp: bit_simps and_0x7F)
    note IH = Cons.IH [of "Suc i" ?res rest, OF _ sh low]
    show ?thesis
    proof (cases "i = 9")
      case True
      then have "shifts = []" using Cons.prems(1) by simp
      then show ?thesis using True Cons s step by (simp add: Let_def VINT_MAX_BYTES_def)
    next
      case False
      have "read_raw_vint_lossy_loop (s # shifts) res i data =
          (if b AND 0x80 = 0 then (?res, i + 1)
           else read_raw_vint_lossy_loop shifts ?res (Suc i) rest)"
        by (simp add: Cons step Let_def)
      moreover have "read_vint_loop res (7 * i) i (take (length (s # shifts)) data) =
          (if b AND 0x80 = 0 then Inr (?res, i + 1)
           else read_vint_loop ?res (7 * Suc i) (Suc i) (take (length shifts) rest))"
        using False by (simp add: Cons s Let_def VINT_MAX_BYTES_def add.commute)
      ultimately show ?thesis using IH Cons.prems(1) Cons by (simp del: read_vint_loop.simps read_raw_vint_lossy_loop.simps split: sum.split)
    
    qed
  qed
qed

lemma read_raw_vint_lossy_eq:
  "read_raw_vint_lossy data =
     (case read_vint data of Inr r \<Rightarrow> r | Inl _ \<Rightarrow> (0, min 10 (length data)))"
proof -
  have "read_raw_vint_lossy_loop vint_shifts 0 0 data =
    (case read_vint_loop 0 (7 * 0) 0 (take (length vint_shifts) data) of
       Inr r \<Rightarrow> r
     | Inl _ \<Rightarrow> (0, 0 + min (length vint_shifts) (length data)))"
    by (rule read_raw_vint_lossy_loop_eq) (simp_all add: vint_shifts_def)
  moreover have "length vint_shifts = 10" by (simp add: vint_shifts_def)
  ultimately show ?thesis
    by (simp add: read_raw_vint_lossy_def read_vint_def VINT_MAX_BYTES_def split: sum.split)
qed

lemma read_raw_vint_lossy_le: "snd (read_raw_vint_lossy data) \<le> length data"
  using read_vint_InrD [of data]
  by (auto simp: read_raw_vint_lossy_eq split: sum.splits prod.splits)

section \<open>The encoder\<close>

lemma vint_byte_value:
  "ucast ((ucast (v AND 0x7F) OR 0x80 :: u8) AND 0x7F) = (take_bit 7 v :: u64)"
  by (rule bit_word_eqI) (auto simp: and_0x7F bit_simps)

lemma vint_last_byte_value:
  "ucast ((ucast (v AND 0x7F) :: u8) AND 0x7F) = (take_bit 7 v :: u64)"
  by (rule bit_word_eqI) (auto simp: and_0x7F bit_simps)

lemma continues_encoded:
  "continues (ucast (v AND 0x7F) OR 0x80 :: u8)" "\<not> continues (ucast (v AND 0x7F :: u64) :: u8)"
  by (simp_all add: continues_bit and_0x7F bit_simps)

lemma encode_vint_nonempty: "encode_vint v \<noteq> []"
  by (subst encode_vint.simps) (simp add: Let_def)

lemma vint_run_encode: "vint_run (encode_vint v @ rest) = length (encode_vint v) - 1"
proof (induction v rule: encode_vint.induct)
  case (1 v)
  show ?case
  proof (cases "drop_bit 7 v = 0")
    case True
    then show ?thesis
      by (subst (1 2) encode_vint.simps) (simp add: Let_def vint_run_def continues_encoded)
  next
    case False
    have "0 < length (encode_vint (drop_bit 7 v))" using encode_vint_nonempty by simp
    then show ?thesis
      using False "1.IH" [OF refl refl False]
      by (subst (1 2) encode_vint.simps) (simp add: Let_def vint_run_def continues_encoded)
  qed
qed

lemma vint_bits_encode: "vint_bits s (encode_vint v) = push_bit s v"
proof (induction v arbitrary: s rule: encode_vint.induct)
  case (1 v)
  have split: "push_bit s v = push_bit s (take_bit 7 v) OR push_bit (s + 7) (drop_bit 7 v)"
  proof (rule bit_word_eqI)
    fix n
    show "bit (push_bit s v) n =
      bit (push_bit s (take_bit 7 v) OR push_bit (s + 7) (drop_bit 7 v)) n"
      by (cases "n < s + 7") (auto simp: bit_simps)
  qed
  show ?case
  proof (cases "drop_bit 7 v = 0")
    case True
    then show ?thesis
      using split by (subst encode_vint.simps) (simp add: Let_def vint_last_byte_value)
  next
    case False
    then show ?thesis
      using split "1.IH" [OF refl refl False, of "s + 7"]
      by (subst encode_vint.simps) (simp add: Let_def vint_byte_value)
  qed
qed

lemma length_encode_vint_le: "unat v < 2 ^ (7 * n) \<Longrightarrow> 0 < n \<Longrightarrow> length (encode_vint v) \<le> n"
proof (induction v arbitrary: n rule: encode_vint.induct)
  case (1 v)
  show ?case
  proof (cases "drop_bit 7 v = 0")
    case True
    then show ?thesis using "1.prems" by (subst encode_vint.simps) (simp add: Let_def)
  next
    case False
    have "unat (drop_bit 7 v) = unat v div 128"
      by (subst unat_drop_bit_eq) (simp add: drop_bit_eq_div)
    moreover have "unat (drop_bit 7 v) \<noteq> 0"
      using False by (simp add: unat_eq_zero)
    ultimately have big: "128 \<le> unat v" by (metis div_less leI)
    with "1.prems" obtain m where m: "n = Suc m" "0 < m"
      by (cases n; cases "n = 1") auto
    then have "unat (drop_bit 7 v) < 2 ^ (7 * m)"
      using "1.prems" \<open>unat (drop_bit 7 v) = unat v div 128\<close>
      by (simp add: div_less_iff_less_mult power_add mult.commute)
    then have "length (encode_vint (drop_bit 7 v)) \<le> m"
      using "1.IH" [OF refl refl False] m by simp
    then show ?thesis
      using False m by (subst encode_vint.simps) (simp add: Let_def)
  qed
qed

lemma length_encode_vint: "1 \<le> length (encode_vint v)" "length (encode_vint v) \<le> 10"
proof -
  show "1 \<le> length (encode_vint v)" using encode_vint_nonempty by (cases "encode_vint v") auto
  have "unat v < 2 ^ 64" by (rule order_less_le_trans [OF unsigned_less]) simp
  then have "unat v < 2 ^ (7 * 10)" by simp
  then show "length (encode_vint v) \<le> 10" by (rule length_encode_vint_le) simp
qed

section \<open>The re-encoder of the header checksum\<close>

lemma vint_byte_eq: "(if c then ucast (w AND 0x7F) OR 0x80 else ucast (w AND 0x7F)) = (b :: u8)"
  if "c = continues b" "\<And>n. n < 7 \<Longrightarrow> bit (w :: u64) n = bit b n"
proof (rule bit_word_eqI)
  fix n
  assume "n < LENGTH(8)"
  then have "n < 7 \<or> n = 7" by auto
  moreover have "bit (ucast (w AND 0x7F) :: u8) n \<longleftrightarrow> n < 7 \<and> bit w n"
    using \<open>n < LENGTH(8)\<close> by (auto simp: and_0x7F bit_simps)
  ultimately show "bit (if c then ucast (w AND 0x7F) OR 0x80 else ucast (w AND 0x7F) :: u8) n = bit b n"
    using that unfolding continues_bit by (cases c) (auto simp only: bit_or_iff bit_0x80 if_True if_False)
qed

lemma vint_bits_Cons_bits:
  assumes "n < 64" "s + n < 64"
  shows "bit (vint_bits s (b # bs)) (s + n) \<longleftrightarrow>
    (if n < 7 then bit b n else bit (vint_bits (s + 7) bs) (s + n))"
  using assms bit_vint_bits_lower [of "s + n" "s + 7" bs]
  by (auto simp: bit_simps and_0x7F)

lemma vint_bits_shift: "drop_bit 7 (vint_bits (s + 7) bs) = vint_bits s bs"
  if "s + 7 * length bs \<le> 57"
  using that
proof (induction bs arbitrary: s)
  case Nil
  then show ?case by simp
next
  case (Cons b bs)
  have "drop_bit 7 (push_bit (s + 7) (ucast (b AND 0x7F)) :: u64) = push_bit s (ucast (b AND 0x7F))"
    using Cons.prems by (intro bit_word_eqI) (auto simp: bit_simps and_0x7F)
  moreover have "drop_bit 7 (vint_bits (s + 7 + 7) bs) = vint_bits (s + 7) bs"
    using Cons.prems by (intro Cons.IH) simp
  ultimately show ?case by (simp add: drop_bit_or add.assoc)
qed

lemma drop_bit_vint_bits_Cons:
  assumes "7 * length (b # bs) \<le> 63"
  shows "drop_bit 7 (vint_bits 0 (b # bs)) = vint_bits 0 bs"
proof -
  have "drop_bit 7 (ucast (b AND 0x7F) :: u64) = 0"
    by (rule bit_word_eqI) (auto simp: bit_simps and_0x7F)
  then show ?thesis using assms vint_bits_shift [of 0 bs] by (simp add: drop_bit_or)
qed

lemma vint_encode_for_crc_run:
  assumes "bs \<noteq> []" and "\<forall>b\<in>set (butlast bs). continues b" and "\<not> continues (last bs)"
    and "7 * length bs \<le> 63"
  shows "vint_encode_for_crc (vint_bits 0 bs) (length bs) = bs"
  using assms
proof (induction bs)
  case Nil
  then show ?case by simp
next
  case (Cons b bs)
  let ?w = "vint_bits 0 (b # bs)"
  have "(if 0 < length bs then ucast (?w AND 0x7F) OR 0x80 else ucast (?w AND 0x7F)) = b"
    using Cons.prems vint_bits_Cons_bits [of _ 0 b bs]
    by (intro vint_byte_eq) (auto split: if_splits)
  moreover have "vint_encode_for_crc (vint_bits 0 bs) (length bs) = bs"
    using Cons by (cases "bs = []") auto
  ultimately show ?case
    using drop_bit_vint_bits_Cons [of b bs] Cons.prems by (simp add: Let_def del: vint_bits.simps)
qed

section \<open>The stream reader\<close>

lemma read_vint_loop_count: "read_vint_loop res s i data = Inr (v, n) \<Longrightarrow> i < n"
proof (induction data arbitrary: res s i)
  case (Cons b data)
  then show ?case
    by (cases "b AND 0x80 = 0"; cases "i = VINT_MAX_BYTES - 1") (force simp: Let_def dest: Suc_lessD)+
qed simp

lemma read_vint_from_loop_eq:
  assumes "k + i = 10"
  shows "fst (read_vint_from_loop k res s i r) =
           read_vint_loop res s i (take k (drop (r_pos r) (r_img r)))
       \<and> r_img (snd (read_vint_from_loop k res s i r)) = r_img r
       \<and> (\<forall>v n. fst (read_vint_from_loop k res s i r) = Inr (v, n) \<longrightarrow>
           snd (read_vint_from_loop k res s i r) = r\<lparr>r_pos := r_pos r + (n - i)\<rparr>)"
  using assms
proof (induction k arbitrary: res s i r)
  case 0
  then show ?case by simp
next
  case (Suc k)
  show ?case
  proof (cases "r_pos r < length (r_img r)")
    case True
    let ?b = "r_img r ! r_pos r"
    have rd: "read_exact (Suc 0) r = (Inr [?b], r\<lparr>r_pos := Suc (r_pos r)\<rparr>)"
      using True by (simp add: read_exact_def take_Suc_conv_app_nth Cons_nth_drop_Suc [symmetric])
    have dr: "take (Suc k) (drop (r_pos r) (r_img r)) = ?b # take k (drop (Suc (r_pos r)) (r_img r))"
      using True by (simp add: Cons_nth_drop_Suc [symmetric])
    show ?thesis
    proof (cases "?b AND 0x80 = 0 \<or> i = 9")
      case True
      then show ?thesis by (auto simp: rd dr Let_def VINT_MAX_BYTES_def)
    next
      case False
      let ?res = "res OR push_bit s (ucast (?b AND 0x7F))"
      let ?m = "read_vint_from_loop k ?res (s + 7) (Suc i) (r\<lparr>r_pos := Suc (r_pos r)\<rparr>)"
      have eq: "read_vint_from_loop (Suc k) res s i r = ?m"
        "read_vint_loop res s i (take (Suc k) (drop (r_pos r) (r_img r))) =
           read_vint_loop ?res (s + 7) (Suc i) (take k (drop (Suc (r_pos r)) (r_img r)))"
        using False by (simp_all add: rd dr Let_def VINT_MAX_BYTES_def)
      have IH: "fst ?m = read_vint_loop ?res (s + 7) (Suc i) (take k (drop (Suc (r_pos r)) (r_img r)))"
        "r_img (snd ?m) = r_img r"
        "\<forall>v n. fst ?m = Inr (v, n) \<longrightarrow> snd ?m = r\<lparr>r_pos := Suc (r_pos r) + (n - Suc i)\<rparr>"
        using Suc.prems Suc.IH [of "Suc i" ?res "s + 7" "r\<lparr>r_pos := Suc (r_pos r)\<rparr>"] by simp_all
      have "snd ?m = r\<lparr>r_pos := r_pos r + (n - i)\<rparr>" if "fst ?m = Inr (v, n)" for v n
      proof -
        have "Suc i < n" using that IH(1) by (auto dest: read_vint_loop_count)
        then have "Suc (r_pos r) + (n - Suc i) = r_pos r + (n - i)" by simp
        then show ?thesis using that IH(3) by metis
      qed
      then show ?thesis unfolding eq using IH(1,2) by blast
    qed
  next
    case False
    then show ?thesis by (simp add: read_exact_def)
  qed
qed

lemma read_vint_from_eq:
  "fst (read_vint_from r) = read_vint (drop (r_pos r) (r_img r))"
  "r_img (snd (read_vint_from r)) = r_img r"
  "fst (read_vint_from r) = Inr (v, n) \<Longrightarrow> snd (read_vint_from r) = r\<lparr>r_pos := r_pos r + n\<rparr>"
  using read_vint_from_loop_eq [of 10 0 0 0 r]
  by (simp_all add: read_vint_from_def read_vint_def VINT_MAX_BYTES_def)

lemma read_vint_encode:
  "read_vint (encode_vint v @ rest) = Inr (v, length (encode_vint v))"
proof -
  have run: "Suc (vint_run (encode_vint v @ rest)) = length (encode_vint v)"
    using length_encode_vint(1) [of v] by (simp add: vint_run_encode)
  then have "vint_run (encode_vint v @ rest) < length (encode_vint v @ rest)"
    "vint_run (encode_vint v @ rest) \<le> 9"
    using length_encode_vint(2) [of v] by auto
  then show ?thesis
    using run length_encode_vint [of v] vint_bits_encode [of 0 v] by (simp add: read_vint_eq)
qed

section \<open>Properties\<close>

text \<open>Reading what \<open>encode_vint\<close> wrote gives the value back, whatever follows it, and
  consumes exactly the bytes written, of which there are between one and ten.\<close>

theorem read_encode_vint:
  "read_vint (encode_vint v @ rest) = Inr (v, length (encode_vint v))
   \<and> 1 \<le> length (encode_vint v) \<and> length (encode_vint v) \<le> 10"
  using length_encode_vint [of v] by (simp add: read_vint_encode)

text \<open>the header checksum is computed over the size field as it stands in the file:
  re-encoding a value read from at most nine bytes, to the number of bytes it was read from,
  gives those bytes back, padding included.\<close>

theorem vint_encode_for_crc_read:
  assumes "read_vint data = Inr (v, n)" and "n \<le> 9"
  shows "vint_encode_for_crc v n = take n data"
proof -
  let ?k = "vint_run data"
  from assms(1) have n: "n = Suc ?k" "?k < length data" and v: "v = vint_bits 0 (take n data)"
    by (auto dest!: read_vint_InrD)
  have tw: "take ?k data = takeWhile continues data"
    by (simp only: vint_run_def takeWhile_eq_take [symmetric])
  have split: "take n data = takeWhile continues data @ [data ! ?k]"
    using n tw by (simp add: take_Suc_conv_app_nth)
  have "\<not> continues (data ! ?k)"
    using n(2) unfolding vint_run_def by (rule nth_length_takeWhile)
  then have "vint_encode_for_crc (vint_bits 0 (take n data)) (length (take n data)) = take n data"
    using split assms(2) n
    by (intro vint_encode_for_crc_run) (auto simp: vint_run_def dest: set_takeWhileD)
  then show ?thesis using v n by simp
qed

theorem vint_encode_for_crc_read_witness:
  "read_vint [0x8F, 0x00, 0xFF] = Inr (15, 2) \<and> (2::nat) \<le> 9
   \<and> vint_encode_for_crc 15 2 = take 2 [0x8F, 0x00, 0xFF]"
proof -
  have h: "read_vint [0x8F, 0x00, 0xFF] = Inr (15, 2)"
    by code_simp
  show ?thesis using h vint_encode_for_crc_read [OF h] by simp
qed

text \<open>the stream reader is the slice reader on what is left of the stream, and on success
  it advances the stream by exactly the bytes of the integer.\<close>

theorem read_vint_from_refines:
  "fst (read_vint_from r) = read_vint (drop (r_pos r) (r_img r))
   \<and> (case fst (read_vint_from r) of
        Inl _ \<Rightarrow> r_img (snd (read_vint_from r)) = r_img r
      | Inr (v, n) \<Rightarrow> snd (read_vint_from r) = r\<lparr>r_pos := r_pos r + n\<rparr>)"
  using read_vint_from_eq [of r] by (auto split: sum.split prod.split)

text \<open>the lossy reader of the header parsers agrees with the strict one on every
  well-formed integer, and reads a truncated or over-long one as zero after looking at no
  more than ten bytes; its addition never carries.\<close>

theorem read_raw_vint_lossy_refines:
  "read_raw_vint_lossy data =
     (case read_vint data of Inr r \<Rightarrow> r | Inl _ \<Rightarrow> (0, min 10 (length data)))"
  by (rule read_raw_vint_lossy_eq)

end
