(* ===== verification/Gf16_Field.thy ===== *)
theory Gf16_Field
  imports Rarpar_Prelude
begin

text \<open>
  The field with \<open>2^16\<close> elements that PAR2 and RAR5 recovery data live in: words of 16 bits,
  addition is exclusive or, multiplication is the product of polynomials over two elements modulo
  \<open>x^16 + x^12 + x^3 + x + 1\<close>. This theory is the mathematical reference for the table-driven
  routines of \<open>gf.rs\<close>: the polynomial is primitive, so the powers of \<open>x\<close> run through all 65535
  nonzero words, and \<open>gf16\<close> is an instance of the class \<open>field\<close>.
\<close>

unbundle bit_operations_syntax

section \<open>Multiplication by the indeterminate\<close>

definition xtimes :: "u16 \<Rightarrow> u16" where
  "xtimes a = (if bit a 15 then push_bit 1 a XOR 0x100B else push_bit 1 a)"

lemma bit_xtimes:
  "bit (xtimes a) n \<longleftrightarrow> n < 16 \<and> ((n \<noteq> 0 \<and> bit a (n - 1)) \<noteq> (bit a 15 \<and> bit (0x100B :: u16) n))"
proof -
  have "bit (push_bit 1 a) n \<longleftrightarrow> n < 16 \<and> n \<noteq> 0 \<and> bit a (n - 1)"
    by (simp only: bit_push_bit_iff) (auto simp: Suc_le_eq)
  moreover have "bit (0x100B :: u16) n \<Longrightarrow> n < 16"
    using bit_imp_le_length [of "0x100B :: u16" n] by simp
  ultimately show ?thesis
    unfolding xtimes_def by (simp only: bit_xor_iff split: if_split) blast
qed

lemma xtimes_0 [simp]: "xtimes 0 = 0"
  by (rule bit_eqI) (simp add: bit_xtimes)

lemma xtimes_xor: "xtimes (a XOR b) = xtimes a XOR xtimes b"
  by (rule bit_eqI) (auto simp: bit_xtimes bit_xor_iff)

lemma xtimes_eq_0: "xtimes a = 0 \<longleftrightarrow> a = 0"
proof
  assume z: "xtimes a = 0"
  have n15: "\<not> bit a 15"
    using bit_xtimes [of a 0] z by simp
  show "a = 0"
  proof (rule bit_eqI)
    fix n assume "possible_bit TYPE(u16) n"
    then have "n < 16" by simp
    then show "bit a n = bit (0 :: u16) n"
      using bit_xtimes [of a "Suc n"] n15 z by (cases "n = 15") simp_all
  qed
qed simp

lemma xtimes_inj: "xtimes a = xtimes b \<longleftrightarrow> a = b"
proof
  assume "xtimes a = xtimes b"
  then have "xtimes (a XOR b) = 0" by (simp add: xtimes_xor)
  then have "a XOR b = 0" by (simp add: xtimes_eq_0)
  then have "a XOR (a XOR b) = a" by simp
  then show "a = b" by (simp add: xor.assoc [symmetric])
qed simp

lemma xtimes_code [code]: "xtimes a = (if 0x8000 \<le> a then (a + a) XOR 0x100B else a + a)"
proof -
  have "bit a 15 \<longleftrightarrow> 0x8000 \<le> a"
  proof -
    have "bit a 15 \<longleftrightarrow> odd (unat a div 2 ^ 15)"
      using bit_iff_odd [of "unat a" 15] by (simp add: bit_unsigned_iff)
    moreover have "unat a div 2 ^ 15 < 2" using unat_bound [of a] by (simp add: less_mult_imp_div_less)
    then have "odd (unat a div 2 ^ 15) \<longleftrightarrow> 1 \<le> unat a div 2 ^ 15"
      by (auto simp: less_2_cases_iff)
    ultimately show ?thesis by (simp add: word_le_nat_alt Suc_le_eq div_greater_zero_iff)
  qed
  then show ?thesis by (simp add: xtimes_def mult_2_right)
qed

section \<open>The product of polynomials\<close>

text \<open>The schoolbook product: one conditional addition for each bit of the second factor.\<close>

primrec gmul_n :: "nat \<Rightarrow> u16 \<Rightarrow> u16 \<Rightarrow> u16" where
  "gmul_n 0 a b = 0"
| "gmul_n (Suc n) a b = (if bit b 0 then a else 0) XOR gmul_n n (xtimes a) (drop_bit 1 b)"

definition gmul :: "u16 \<Rightarrow> u16 \<Rightarrow> u16" where
  "gmul a b = gmul_n 16 a b"

lemma gmul_n_0 [simp]: "gmul_n n a 0 = 0"
  by (induction n arbitrary: a) simp_all

lemma gmul_n_code [code]:
  "gmul_n n a b =
     (if b = 0 then 0
      else case n of 0 \<Rightarrow> 0
      | Suc m \<Rightarrow> if b AND 1 = 0 then gmul_n m (xtimes a) (b div 2)
               else a XOR gmul_n m (xtimes a) (b div 2))"
proof -
  have "b AND 1 = 0 \<longleftrightarrow> \<not> bit b 0"
    using and_exp_eq_0_iff_not_bit [of b 0] by simp
  moreover have "drop_bit 1 b = b div 2"
    by (simp add: drop_bit_eq_div)
  ultimately show ?thesis by (cases n) simp_all
qed

lemma gmul_n_xor_left: "gmul_n n (a XOR c) b = gmul_n n a b XOR gmul_n n c b"
  by (induction n arbitrary: a b c)
     (simp_all add: xtimes_xor xor.assoc xor.left_commute)

lemma gmul_n_xor_right: "gmul_n n a (b XOR c) = gmul_n n a b XOR gmul_n n a c"
  by (induction n arbitrary: a b c)
     (auto simp add: drop_bit_xor bit_xor_iff xor.assoc xor.left_commute)

lemma gmul_n_map:
  assumes f0: "f 0 = 0" and fx: "\<And>a b. f (a XOR b) = f a XOR f b"
    and ft: "\<And>a. f (xtimes a) = xtimes (f a)"
  shows "f (gmul_n n a b) = gmul_n n (f a) b"
  by (induction n arbitrary: a b) (simp_all add: f0 fx ft)

lemma xtimes_push_1: "Suc k < 16 \<Longrightarrow> xtimes (push_bit k 1) = push_bit (Suc k) 1"
  by (rule bit_eqI) (auto simp: bit_xtimes bit_push_bit_iff bit_1_iff simp del: push_bit_of_1 push_bit_Suc)

lemma gmul_n_1: "n + k \<le> 16 \<Longrightarrow> gmul_n n (push_bit k 1) b = push_bit k (take_bit n b)"
proof (induction n arbitrary: k b)
  case (Suc n)
  have s: "(if bit b 0 then push_bit k 1 else 0) XOR push_bit (Suc k) (take_bit n (drop_bit 1 b))
      = push_bit k (take_bit (Suc n) b)"
  proof (rule bit_eqI)
    fix m assume "possible_bit TYPE(u16) m"
    then have m: "m < 16" by simp
    consider "m < k" | "m = k" | j where "m = Suc (k + j)"
      by (meson less_imp_Suc_add linorder_neqE_nat)
    then show "bit ((if bit b 0 then push_bit k 1 else 0)
        XOR push_bit (Suc k) (take_bit n (drop_bit 1 b))) m = bit (push_bit k (take_bit (Suc n) b)) m"
      using m
      by cases (auto simp: bit_xor_iff bit_push_bit_iff bit_take_bit_iff bit_drop_bit_eq bit_1_iff
          simp del: push_bit_of_1 push_bit_Suc)
  qed
  show ?case
  proof (cases "n = 0")
    case True then show ?thesis using s by (simp del: push_bit_of_1 push_bit_Suc)
  next
    case False
    then have "xtimes (push_bit k 1) = push_bit (Suc k) 1"
      using Suc.prems by (intro xtimes_push_1) simp
    moreover have "gmul_n n (push_bit (Suc k) 1) (drop_bit 1 b)
        = push_bit (Suc k) (take_bit n (drop_bit 1 b))"
      using Suc.prems by (intro Suc.IH) simp
    ultimately show ?thesis using s by (simp only: gmul_n.simps)
  qed
qed simp

lemma gmul_1_left [simp]: "gmul 1 b = b"
  using gmul_n_1 [of 16 0 b] by (simp add: gmul_def take_bit_word_eq_self)

lemma gmul_xor_left: "gmul (a XOR c) b = gmul a b XOR gmul c b"
  by (simp add: gmul_def gmul_n_xor_left)

lemma gmul_xor_right: "gmul a (b XOR c) = gmul a b XOR gmul a c"
  by (simp add: gmul_def gmul_n_xor_right)

lemma gmul_0_left [simp]: "gmul 0 b = 0"
  using gmul_xor_left [of 0 0 b] by simp

lemma gmul_0_right [simp]: "gmul a 0 = 0"
  using gmul_xor_right [of a 0 0] by simp

text \<open>
  An additive map that commutes with multiplication by \<open>x\<close> is multiplication by its value at 1.
  Every ring law follows from this one fact.
\<close>

lemma gmul_unique:
  assumes "\<And>a b. f (a XOR b) = f a XOR f b" and "\<And>a. f (xtimes a) = xtimes (f a)"
  shows "f b = gmul (f 1) b"
proof -
  have f0: "f 0 = 0" using assms(1) [of 0 0] by simp
  have "f (gmul 1 b) = gmul (f 1) b"
    unfolding gmul_def by (rule gmul_n_map [OF f0 assms])
  then show ?thesis by simp
qed

lemma gmul_xtimes_left: "gmul (xtimes a) b = xtimes (gmul a b)"
  unfolding gmul_def by (rule gmul_n_map [symmetric]) (simp_all add: xtimes_xor)

lemma gmul_commute: "gmul a b = gmul b a"
  using gmul_unique [of "\<lambda>a. gmul a b" a] by (simp add: gmul_xor_left gmul_xtimes_left)

lemma gmul_assoc: "gmul (gmul a b) c = gmul a (gmul b c)"
  using gmul_unique [of "\<lambda>a. gmul (gmul a b) c" a]
  by (simp add: gmul_xor_left gmul_xtimes_left gmul_commute [of a])

lemma gmul_1_right [simp]: "gmul b 1 = b"
  by (simp add: gmul_commute [of b 1])

section \<open>Powers of the indeterminate\<close>

definition xp :: "nat \<Rightarrow> u16" where
  "xp n = (xtimes ^^ n) 1"

lemma xp_0 [simp]: "xp 0 = 1"
  by (simp add: xp_def)

lemma xp_Suc: "xp (Suc n) = xtimes (xp n)"
  by (simp add: xp_def)

lemma funpow_xtimes: "(xtimes ^^ n) a = gmul (xp n) a"
proof -
  have "(xtimes ^^ n) (a XOR b) = (xtimes ^^ n) a XOR (xtimes ^^ n) b" for a b
    by (induction n) (simp_all add: xtimes_xor)
  moreover have "(xtimes ^^ n) (xtimes a) = xtimes ((xtimes ^^ n) a)" for a
    by (simp add: funpow_swap1)
  ultimately show ?thesis
    unfolding xp_def by (rule gmul_unique)
qed

lemma xp_add: "xp (m + n) = gmul (xp m) (xp n)"
  by (simp only: xp_def [of "m + n"] funpow_add o_apply funpow_xtimes gmul_1_right)

lemma xp_nonzero [simp]: "xp n \<noteq> 0"
  by (induction n) (simp_all add: xp_Suc xtimes_eq_0)

lemma xp_cancel: "xp (m + n) = xp m \<Longrightarrow> xp n = 1"
proof (induction m)
  case 0 then show ?case by simp
next
  case (Suc m)
  then have "xtimes (xp (m + n)) = xtimes (xp m)" by (simp only: add_Suc xp_Suc)
  then show ?case using Suc.IH by (simp add: xtimes_inj)
qed

lemma xp_mult_1: "xp m = 1 \<Longrightarrow> xp (m * k) = 1"
  by (induction k) (simp_all add: xp_add)

text \<open>
  Powers by repeated squaring over the binary digits of the exponent, most significant first.
\<close>

primrec gpow :: "u16 \<Rightarrow> nat \<Rightarrow> u16" where
  "gpow a 0 = 1"
| "gpow a (Suc n) = gmul a (gpow a n)"

primrec gpow_bits :: "u16 \<Rightarrow> bool list \<Rightarrow> u16 \<Rightarrow> u16" where
  "gpow_bits a [] c = c"
| "gpow_bits a (b # bs) c = gpow_bits a bs (let s = gmul c c in if b then gmul a s else s)"

primrec nat_bits :: "bool list \<Rightarrow> nat \<Rightarrow> nat" where
  "nat_bits [] n = n"
| "nat_bits (b # bs) n = nat_bits bs (if b then Suc (2 * n) else 2 * n)"

lemma gpow_add: "gpow a (m + n) = gmul (gpow a m) (gpow a n)"
  by (induction m) (simp_all add: gmul_assoc)

lemma gpow_bits_eq: "gpow_bits a bs (gpow a n) = gpow a (nat_bits bs n)"
proof (induction bs arbitrary: n)
  case (Cons b bs)
  have "gmul (gpow a n) (gpow a n) = gpow a (2 * n)"
    by (simp add: mult_2 gpow_add)
  then show ?case
    using Cons [of "if b then Suc (2 * n) else 2 * n"] by (cases b) (simp_all add: Let_def)
qed simp

lemma gpow_bits_code [code]:
  "gpow_bits a [] c = c"
  "gpow_bits a (b # bs) c = gpow_bits a bs
     (if c = 1 then if b then a else 1 else let s = gmul c c in if b then gmul a s else s)"
  by (simp_all add: Let_def)

lemma gpow_bits_1: "gpow a (nat_bits bs 0) = gpow_bits a bs 1"
  using gpow_bits_eq [of a bs 0] by simp

lemma gmul_2: "gmul 2 a = xtimes a"
proof -
  have "xp 1 = 2" by (simp add: xp_def xtimes_def)
  then show ?thesis using funpow_xtimes [of 1 a] by simp
qed

lemma gpow_2: "gpow 2 n = xp n"
  by (induction n) (simp_all add: gmul_2 xp_Suc)

lemma gpow_xp: "gpow (xp m) n = xp (m * n)"
  by (induction n) (simp_all add: xp_add)

lemma xp_nat_bits: "xp (nat_bits bs 0) = gpow_bits 2 bs 1"
  by (simp add: gpow_bits_1 flip: gpow_2)

lemma xp_65535: "xp 65535 = 1"
proof -
  let ?b = "[True, True, True, True, True, True, True, True, True, True, True, True, True, True,
    True, True]"
  have "xp (nat_bits ?b 0) = 1" unfolding xp_nat_bits by code_simp
  moreover have "nat_bits ?b 0 = 65535" by simp
  ultimately show ?thesis by (simp only: not_False_eq_True)
qed

text \<open>The exponents 65535 / p for the prime factors p of 65535, none of which is an order.\<close>

lemma xp_21845: "xp 21845 \<noteq> 1"
proof -
  let ?b = "[True, False, True, False, True, False, True, False, True, False, True, False, True,
    False, True]"
  have "xp (nat_bits ?b 0) \<noteq> 1" unfolding xp_nat_bits by code_simp
  moreover have "nat_bits ?b 0 = 21845" by simp
  ultimately show ?thesis by (simp only: not_False_eq_True)
qed

lemma xp_13107: "xp 13107 \<noteq> 1"
proof -
  let ?b = "[True, True, False, False, True, True, False, False, True, True, False, False, True, True]"
  have "xp (nat_bits ?b 0) \<noteq> 1" unfolding xp_nat_bits by code_simp
  moreover have "nat_bits ?b 0 = 13107" by simp
  ultimately show ?thesis by (simp only: not_False_eq_True)
qed

lemma xp_3855: "xp 3855 \<noteq> 1"
proof -
  let ?b = "[True, True, True, True, False, False, False, False, True, True, True, True]"
  have "xp (nat_bits ?b 0) \<noteq> 1" unfolding xp_nat_bits by code_simp
  moreover have "nat_bits ?b 0 = 3855" by simp
  ultimately show ?thesis by (simp only: not_False_eq_True)
qed

lemma xp_255: "xp 255 \<noteq> 1"
proof -
  let ?b = "[True, True, True, True, True, True, True, True]"
  have "xp (nat_bits ?b 0) \<noteq> 1" unfolding xp_nat_bits by code_simp
  moreover have "nat_bits ?b 0 = 255" by simp
  ultimately show ?thesis by (simp only: not_False_eq_True)
qed

section \<open>The order of the indeterminate\<close>

lemma xp_gcd:
  assumes "xp m = 1" "xp n = 1"
  shows "xp (gcd m n) = 1"
proof (cases "m = 0")
  case True then show ?thesis using assms by simp
next
  case False
  then obtain x y where "m * x = n * y + gcd m n"
    using bezout_nat by blast
  then have "xp (n * y + gcd m n) = xp (n * y)"
    using xp_mult_1 [OF assms(1), of x] xp_mult_1 [OF assms(2), of y] by simp
  then show ?thesis by (rule xp_cancel)
qed

lemma prime_divisors:
  fixes q p :: nat
  assumes "q dvd p" "0 < p" "\<forall>k \<in> set [2 ..< p]. p mod k \<noteq> 0"
  shows "q = 1 \<or> q = p"
proof -
  have "q \<le> p" "q \<noteq> 0" using assms(1,2) by (auto dest: dvd_imp_le)
  moreover have "p mod q = 0" using assms(1) by simp
  then have "\<not> (2 \<le> q \<and> q < p)" using assms(3) by (metis atLeastLessThan_iff set_upt)
  ultimately show ?thesis by linarith
qed

lemma factor_divisors:
  fixes q :: nat
  shows "q dvd 3 \<Longrightarrow> q = 1 \<or> q = 3" "q dvd 5 \<Longrightarrow> q = 1 \<or> q = 5"
    "q dvd 17 \<Longrightarrow> q = 1 \<or> q = 17" "q dvd 257 \<Longrightarrow> q = 1 \<or> q = 257"
  by (rule prime_divisors; simp add: upt_rec_numeral)+

lemma divisor_of_65535:
  fixes q :: nat
  assumes "q dvd 65535" "q \<noteq> 1"
  shows "3 dvd q \<or> 5 dvd q \<or> 17 dvd q \<or> 257 dvd q"
proof (rule ccontr)
  have cop: "coprime q p" if "\<And>k :: nat. k dvd p \<Longrightarrow> k = 1 \<or> k = p" "\<not> p dvd q" for p :: nat
    using that(1) [of "gcd q p"] that(2) by (metis coprime_iff_gcd_eq_1 gcd_dvd1 gcd_dvd2)
  assume "\<not> ?thesis"
  then have c: "coprime q 3" "coprime q 5" "coprime q 17" "coprime q 257"
    using cop [OF factor_divisors(1)] cop [OF factor_divisors(2)] cop [OF factor_divisors(3)]
      cop [OF factor_divisors(4)] by blast+
  have "q dvd 3 * (5 * (17 * 257))" using assms(1) by simp
  then have "q dvd 257"
    using c by (simp only: coprime_dvd_mult_right_iff)
  then show False
    using c(4) assms(2) by (metis coprime_absorb_left is_unit_gcd nat_dvd_1_iff_1)
qed

lemma xp_eq_1_iff: "xp n = 1 \<longleftrightarrow> 65535 dvd n"
proof
  assume n: "xp n = 1"
  define d where "d = gcd n 65535"
  have xd: "xp d = 1" unfolding d_def using n xp_65535 by (rule xp_gcd)
  have "d dvd 65535" by (simp add: d_def)
  then obtain q where q: "65535 = d * q" ..
  have "q = 1"
  proof (rule ccontr)
    assume "q \<noteq> 1"
    then consider "3 dvd q" | "5 dvd q" | "17 dvd q" | "257 dvd q"
      using divisor_of_65535 [of q] q by (metis dvd_triv_right)
    then consider k where "21845 = d * k" | k where "13107 = d * k" | k where "3855 = d * k"
        | k where "255 = d * k"
    proof cases
      case 1 then obtain k where "q = 3 * k" .. then show ?thesis using q that(1) [of k] by simp
    next
      case 2 then obtain k where "q = 5 * k" .. then show ?thesis using q that(2) [of k] by simp
    next
      case 3 then obtain k where "q = 17 * k" .. then show ?thesis using q that(3) [of k] by simp
    next
      case 4 then obtain k where "q = 257 * k" .. then show ?thesis using q that(4) [of k] by simp
    qed
    then show False
      using xp_mult_1 [OF xd] xp_21845 xp_13107 xp_3855 xp_255 by cases metis+
  qed
  then show "65535 dvd n" using q by (metis d_def gcd_dvd1 mult.right_neutral)
next
  assume "65535 dvd n"
  then show "xp n = 1" using xp_mult_1 [OF xp_65535] by (auto elim: dvdE)
qed

lemma xp_mod: "xp (n mod 65535) = xp n"
proof -
  have "xp n = gmul (xp (65535 * (n div 65535))) (xp (n mod 65535))"
    by (simp flip: xp_add)
  then show ?thesis by (simp add: xp_mult_1 xp_65535)
qed

lemma xp_inj: "inj_on xp {..< 65535}"
proof -
  have "m = n" if "m \<le> n" "n < 65535" "xp m = xp n" for m n
  proof -
    have "xp (m + (n - m)) = xp m" using that by simp
    then have "xp (n - m) = 1" by (rule xp_cancel)
    then have "65535 dvd n - m" by (simp only: xp_eq_1_iff)
    then show ?thesis using that by (auto dest: dvd_imp_le)
  qed
  then show ?thesis
    by (intro inj_onI) (metis lessThan_iff linear)
qed

lemma xp_image: "xp ` {..< 65535} = - {0}"
proof (rule card_subset_eq)
  have "card (- {0 :: u16}) = card (UNIV :: u16 set) - 1"
    by (simp add: Compl_eq_Diff_UNIV card_Diff_singleton)
  then have "card (- {0 :: u16}) = 65535"
    by (simp add: card_word)
  then show "card (xp ` {..< 65535}) = card (- {0 :: u16})"
    by (simp add: card_image [OF xp_inj])
qed auto

lemma xp_exhaust:
  assumes "a \<noteq> 0"
  obtains n where "n < 65535" "a = xp n"
  using assms xp_image by (auto simp: set_eq_iff image_iff)

lemma xp_bij: "bij_betw xp {..< 65535} (- {0})"
  using xp_inj xp_image by (simp add: bij_betw_def)

section \<open>The field\<close>

text \<open>The inverse of a nonzero word is its power 65534.\<close>

definition ginv :: "u16 \<Rightarrow> u16" where
  "ginv a = gpow_bits a [True, True, True, True, True, True, True, True, True, True, True, True,
     True, True, True, False] 1"

lemma ginv_eq: "ginv a = gpow a 65534"
proof -
  have "nat_bits [True, True, True, True, True, True, True, True, True, True, True, True,
     True, True, True, False] 0 = 65534" by simp
  then show ?thesis unfolding ginv_def gpow_bits_1 [symmetric] by (simp only:)
qed

lemma gmul_ginv: "a \<noteq> 0 \<Longrightarrow> gmul (ginv a) a = 1"
proof -
  assume "a \<noteq> 0"
  then obtain n where n: "a = xp n" by (rule xp_exhaust)
  have "gmul (xp (n * 65534)) (xp n) = xp (65535 * n)"
    by (simp flip: xp_add)
  then show ?thesis
    unfolding n ginv_eq gpow_xp by (simp add: xp_mult_1 [OF xp_65535])
qed

lemma ginv_0 [simp]: "ginv 0 = 0"
  by (simp add: ginv_def Let_def)

typedef gf16 = "UNIV :: u16 set"
  morphisms gf_word Gf ..

setup_lifting type_definition_gf16

lemma gf_word_Gf [simp]: "gf_word (Gf a) = a"
  by (simp add: Gf_inverse)

lemma Gf_gf_word [simp]: "Gf (gf_word a) = a"
  by (rule gf_word_inverse)

lemma Gf_eq_iff [simp]: "Gf a = Gf b \<longleftrightarrow> a = b"
  by (simp add: Gf_inject)

instantiation gf16 :: field
begin

lift_definition zero_gf16 :: gf16 is 0 .

lift_definition one_gf16 :: gf16 is 1 .

lift_definition plus_gf16 :: "gf16 \<Rightarrow> gf16 \<Rightarrow> gf16" is "(XOR)" .

lift_definition minus_gf16 :: "gf16 \<Rightarrow> gf16 \<Rightarrow> gf16" is "(XOR)" .

lift_definition uminus_gf16 :: "gf16 \<Rightarrow> gf16" is "\<lambda>a. a" .

lift_definition times_gf16 :: "gf16 \<Rightarrow> gf16 \<Rightarrow> gf16" is gmul .

lift_definition inverse_gf16 :: "gf16 \<Rightarrow> gf16" is ginv .

definition divide_gf16 :: "gf16 \<Rightarrow> gf16 \<Rightarrow> gf16" where
  "divide_gf16 a b = a * inverse b"

instance
proof
  fix a b c :: gf16
  show "a + b + c = a + (b + c)" by transfer (simp add: xor.assoc)
  show "a + b = b + a" by transfer (simp add: xor.commute)
  show "0 + a = a" by transfer simp
  show "- a + a = 0" by transfer simp
  show "a - b = a + - b" by transfer simp
  show "a * b * c = a * (b * c)" by transfer (rule gmul_assoc)
  show "a * b = b * a" by transfer (rule gmul_commute)
  show "1 * a = a" by transfer simp
  show "(a + b) * c = a * c + b * c" by transfer (rule gmul_xor_left)
  show "(0 :: gf16) \<noteq> 1" by transfer simp
  show "a \<noteq> 0 \<Longrightarrow> inverse a * a = 1" by transfer (rule gmul_ginv)
  show "a div b = a * inverse b" by (rule divide_gf16_def)
  show "inverse (0 :: gf16) = 0" by transfer simp
qed

end

named_theorems gf_simps "the word operations as operations of the field"

lemma Gf_hom [gf_simps]:
  "Gf 0 = 0" "Gf 1 = 1" "Gf (a XOR b) = Gf a + Gf b" "Gf (gmul a b) = Gf a * Gf b"
  "Gf (ginv a) = inverse (Gf a)"
  by (simp_all add: zero_gf16.abs_eq one_gf16.abs_eq plus_gf16.abs_eq times_gf16.abs_eq
      inverse_gf16.abs_eq)

lemma Gf_eq_0_iff [simp]: "Gf a = 0 \<longleftrightarrow> a = 0"
  by (simp flip: Gf_hom(1))

lemma gf16_add_self [simp]: "(a :: gf16) + a = 0"
  by transfer simp

lemma gf16_uminus [simp]: "- (a :: gf16) = a"
  by transfer simp

lemma gf16_minus: "(a :: gf16) - b = a + b"
  by transfer simp

lemma Gf_gpow [gf_simps]: "Gf (gpow a n) = Gf a ^ n"
  by (induction n) (simp_all add: gf_simps)

end
