(* ===== verification/Gf_Linear.thy ===== *)
theory Gf_Linear
  imports Rarpar_Prelude
begin

text \<open>
  Linear algebra shared by the Reed-Solomon coders. Matrices are row-major vectors updated in place
  by loops over one row; \<open>rep\<close> relates such a vector to the matrix over a field it stands for. The
  locale \<open>field_words\<close> is the interface the coders use of a field implemented on machine words,
  and the row loops of the coders are verified once against it. The second half is mathematics over
  an arbitrary field of characteristic two: one step of Gauss-Jordan elimination, and the regularity
  of Cauchy matrices.
\<close>

section \<open>Row-major vectors\<close>

lemma flat_eq_iff:
  fixes n :: nat
  assumes "j < n" "j' < n"
  shows "i * n + j = i' * n + j' \<longleftrightarrow> i = i' \<and> j = j'"
proof
  assume e: "i * n + j = i' * n + j'"
  have "i = i'" using arg_cong [OF e, of "\<lambda>x. x div n"] assms by simp
  moreover have "j = j'" using arg_cong [OF e, of "\<lambda>x. x mod n"] assms by simp
  ultimately show "i = i' \<and> j = j'" ..
qed simp

lemma flat_less:
  fixes n :: nat
  assumes "i < R" "j < n"
  shows "i * n + j < R * n"
proof -
  have "i * n + j < Suc i * n" using assms(2) by simp
  also have "\<dots> \<le> R * n" using assms(1) by (intro mult_le_mono1) simp
  finally show ?thesis .
qed

definition rep :: "('w \<Rightarrow> 'f) \<Rightarrow> nat \<Rightarrow> nat \<Rightarrow> 'w list \<Rightarrow> (nat \<Rightarrow> nat \<Rightarrow> 'f) \<Rightarrow> bool" where
  "rep emb R n m f \<longleftrightarrow> length m = R * n \<and> (\<forall>i < R. \<forall>j < n. emb (m ! (i * n + j)) = f i j)"

lemma rep_length: "rep emb R n m f \<Longrightarrow> length m = R * n"
  by (simp add: rep_def)

lemma rep_nth: "rep emb R n m f \<Longrightarrow> i < R \<Longrightarrow> j < n \<Longrightarrow> emb (m ! (i * n + j)) = f i j"
  by (simp add: rep_def)

lemma rep_cong:
  assumes "rep emb R n m f" "\<And>i j. i < R \<Longrightarrow> j < n \<Longrightarrow> f i j = g i j"
  shows "rep emb R n m g"
  using assms by (simp add: rep_def)

lemma rep_update:
  assumes "rep emb R n m f" "r < R" "k < n"
  shows "rep emb R n (m[r * n + k := v]) (\<lambda>i j. if i = r \<and> j = k then emb v else f i j)"
  using assms flat_less [OF assms(2,3)]
  by (auto simp: rep_def nth_list_update flat_eq_iff)

text \<open>A loop that overwrites row \<open>r\<close> from left to right with values of the initial matrix.\<close>

lemma rep_row_loop:
  assumes "rep emb R n m f" "r < R"
    and h: "\<And>k m'. k < n \<Longrightarrow> rep emb R n m' (\<lambda>i j. if i = r \<and> j < k then v j else f i j)
      \<Longrightarrow> emb (h k m') = v k"
  shows "rep emb R n (fold (\<lambda>k m. m[r * n + k := h k m]) [0 ..< n] m)
    (\<lambda>i j. if i = r then v j else f i j)"
proof -
  have "k \<le> n \<Longrightarrow> rep emb R n (fold (\<lambda>k m. m[r * n + k := h k m]) [0 ..< k] m)
      (\<lambda>i j. if i = r \<and> j < k then v j else f i j)" for k
  proof (induction k)
    case 0 then show ?case using assms(1) by simp
  next
    case (Suc k)
    let ?m = "fold (\<lambda>k m. m[r * n + k := h k m]) [0 ..< k] m"
    have IH: "rep emb R n ?m (\<lambda>i j. if i = r \<and> j < k then v j else f i j)"
      using Suc by simp
    have "rep emb R n (?m[r * n + k := h k ?m]) (\<lambda>i j. if i = r \<and> j < Suc k then v j else f i j)"
      by (rule rep_cong [OF rep_update [OF IH assms(2)]])
         (use Suc.prems h [OF _ IH] in \<open>auto simp: less_Suc_eq\<close>)
    then show ?case by simp
  qed
  from rep_cong [OF this [OF order_refl]] show ?thesis by simp
qed

definition swap_at :: "'a list \<Rightarrow> nat \<Rightarrow> nat \<Rightarrow> 'a list" where
  "swap_at xs a b = xs[a := xs ! b, b := xs ! a]"

definition swap_index :: "nat \<Rightarrow> nat \<Rightarrow> nat \<Rightarrow> nat" where
  "swap_index p q i = (if i = p then q else if i = q then p else i)"

lemma swap_index_less: "p < R \<Longrightarrow> q < R \<Longrightarrow> swap_index p q i < R \<longleftrightarrow> i < R"
  by (auto simp: swap_index_def)

lemma rep_swap:
  assumes "rep emb R n m f" "p < R" "q < R" "k < n"
  shows "rep emb R n (swap_at m (p * n + k) (q * n + k))
    (\<lambda>i j. if j = k then f (swap_index p q i) j else f i j)"
  unfolding swap_at_def
  using rep_nth [OF assms(1,2,4)] rep_nth [OF assms(1,3,4)]
  by (intro rep_cong [OF rep_update [OF rep_update [OF assms(1,2,4)] assms(3,4)]])
     (auto simp: swap_index_def)

lemma rep_swap_loop:
  assumes "rep emb R n m f" "p < R" "q < R"
  shows "rep emb R n (fold (\<lambda>k m. swap_at m (p * n + k) (q * n + k)) [0 ..< n] m)
    (\<lambda>i. f (swap_index p q i))"
proof -
  have "k \<le> n \<Longrightarrow> rep emb R n (fold (\<lambda>k m. swap_at m (p * n + k) (q * n + k)) [0 ..< k] m)
      (\<lambda>i j. if j < k then f (swap_index p q i) j else f i j)" for k
  proof (induction k)
    case 0 then show ?case using assms(1) by simp
  next
    case (Suc k)
    let ?m = "fold (\<lambda>k m. swap_at m (p * n + k) (q * n + k)) [0 ..< k] m"
    have IH: "rep emb R n ?m (\<lambda>i j. if j < k then f (swap_index p q i) j else f i j)"
      using Suc by simp
    have "k < n" using Suc.prems by simp
    then have "rep emb R n (swap_at ?m (p * n + k) (q * n + k))
        (\<lambda>i j. if j < Suc k then f (swap_index p q i) j else f i j)"
      by (rule rep_cong [OF rep_swap [OF IH assms(2,3)]]) (auto simp: less_Suc_eq)
    then show ?case by simp
  qed
  from rep_cong [OF this [OF order_refl]] show ?thesis by simp
qed

lemma fold_pair:
  "fold (\<lambda>k (a, b). (f k a, g k b)) ks (a, b) = (fold f ks a, fold g ks b)"
  by (induction ks arbitrary: a b) simp_all

section \<open>Elimination over a field\<close>

text \<open>
  One step of Gauss-Jordan elimination with the pivot in row \<open>p\<close> and column \<open>q\<close> of \<open>A\<close>, applied to
  the rows of a matrix \<open>M\<close>, which is \<open>A\<close> itself or the matrix that accumulates the inverse. In
  characteristic two a multiple of the pivot row is subtracted by adding it.
\<close>

definition elim_step :: "nat \<Rightarrow> nat \<Rightarrow> (nat \<Rightarrow> nat \<Rightarrow> 'f::field) \<Rightarrow> (nat \<Rightarrow> nat \<Rightarrow> 'f) \<Rightarrow> nat \<Rightarrow> nat \<Rightarrow> 'f" where
  "elim_step p q A M i j =
     (if i = p then M p j * inverse (A p q) else M i j + A i q * (M p j * inverse (A p q)))"

lemma elim_step_pivot:
  assumes "\<And>x :: 'f::field. x + x = 0" "A p q \<noteq> (0 :: 'f)"
  shows "elim_step p q A A i q = (if i = p then 1 else 0)"
  using assms by (simp add: elim_step_def)

lemma elim_step_other: "A p c = 0 \<Longrightarrow> elim_step p q A A i c = A i c"
  by (simp add: elim_step_def)

lemma sum_elim_step:
  "(\<Sum>j\<in>J. elim_step p q A M i j * x j) =
     (if i = p then (\<Sum>j\<in>J. M p j * x j) * inverse (A p q)
      else (\<Sum>j\<in>J. M i j * x j) + A i q * ((\<Sum>j\<in>J. M p j * x j) * inverse (A p q)))"
  by (simp add: elim_step_def sum.distrib sum_distrib_left sum_distrib_right algebra_simps)

lemma elim_step_relation:
  assumes "\<And>i. i < R \<Longrightarrow> (\<Sum>j\<in>J. A i j * x j) = (\<Sum>j\<in>K. B i j * y j)" "p < R" "i < R"
  shows "(\<Sum>j\<in>J. elim_step p q A A i j * x j) = (\<Sum>j\<in>K. elim_step p q A B i j * y j)"
  using assms by (simp add: sum_elim_step)

lemma elim_step_kernel:
  assumes "\<And>x :: 'f::field. x + x = 0" "A p q \<noteq> (0 :: 'f)" "p < R"
    and "\<And>i. i < R \<Longrightarrow> (\<Sum>j\<in>J. elim_step p q A A i j * x j) = 0" "i < R"
  shows "(\<Sum>j\<in>J. A i j * x j) = 0"
  using assms(4) [of p] assms(4) [of i] assms(2,3,5) by (auto simp: sum_elim_step split: if_splits)

section \<open>Cauchy matrices\<close>

text \<open>
  No nontrivial combination of the rows of a square Cauchy matrix vanishes. The row of the first
  point is eliminated by hand, which leaves a smaller Cauchy system for rescaled coefficients.
\<close>

lemma cauchy_regular:
  fixes x y :: "nat \<Rightarrow> 'f::field"
  assumes "finite I" "finite J" "card I = card J" "inj_on x I" "inj_on y J"
    and "\<And>i j. i \<in> I \<Longrightarrow> j \<in> J \<Longrightarrow> x i \<noteq> y j"
    and "\<And>j. j \<in> J \<Longrightarrow> (\<Sum>i\<in>I. c i * inverse (x i - y j)) = 0"
    and "i \<in> I"
  shows "c i = 0"
  using assms
proof (induction "card I" arbitrary: I J c i)
  case 0 then show ?case by simp
next
  case (Suc n)
  obtain a I' where I: "I = insert a I'" "a \<notin> I'" "finite I'"
    using Suc.prems(8,1) by (metis finite_insert mk_disjoint_insert)
  obtain b J' where J: "J = insert b J'" "b \<notin> J'" "finite J'"
    using Suc.prems(2,3) Suc.hyps(2) by (metis card_Suc_eq finite_insert)
  have ne: "x i - y j \<noteq> 0" if "i \<in> I" "j \<in> J" for i j
    using Suc.prems(6) [OF that] by simp
  define d where "d i = c i * (x a - x i) * inverse (x i - y b)" for i
  have T: "c a + (\<Sum>i\<in>I'. c i * ((x a - y j) * inverse (x i - y j))) = 0" if j: "j \<in> J" for j
  proof -
    have "0 = (x a - y j) * (\<Sum>i\<in>I. c i * inverse (x i - y j))"
      using Suc.prems(7) [OF j] by simp
    also have "\<dots> = c a * ((x a - y j) * inverse (x a - y j))
        + (\<Sum>i\<in>I'. c i * ((x a - y j) * inverse (x i - y j)))"
      using I by (simp add: distrib_left sum_distrib_left mult.left_commute)
    finally show ?thesis using ne [of a j] I(1) j by simp
  qed
  have D: "(\<Sum>i\<in>I'. d i * inverse (x i - y j)) = 0" if j: "j \<in> J'" for j
  proof -
    have eq: "(x a - y j) * inverse (x i - y j) - (x a - y b) * inverse (x i - y b)
        = (y j - y b) * ((x a - x i) * inverse (x i - y b) * inverse (x i - y j))" if i: "i \<in> I'" for i
    proof -
      have "x i - y j \<noteq> 0" "x i - y b \<noteq> 0" using ne [of i j] ne [of i b] i j I J by simp_all
      then show ?thesis by (simp add: field_simps)
    qed
    have "(y j - y b) * (\<Sum>i\<in>I'. d i * inverse (x i - y j))
        = (\<Sum>i\<in>I'. c i * ((x a - y j) * inverse (x i - y j) - (x a - y b) * inverse (x i - y b)))"
      by (simp add: eq d_def sum_distrib_left ac_simps)
    also have "\<dots> = (\<Sum>i\<in>I'. c i * ((x a - y j) * inverse (x i - y j)))
        - (\<Sum>i\<in>I'. c i * ((x a - y b) * inverse (x i - y b)))"
      by (simp add: right_diff_distrib sum_subtractf)
    also have "\<dots> = - c a - - c a"
      using T [of j] T [of b] j J(1) by (intro arg_cong2 [of _ _ _ _ "(-)"] minus_unique [symmetric]) simp_all
    finally have "(y j - y b) * (\<Sum>i\<in>I'. d i * inverse (x i - y j)) = 0" by simp
    moreover have "y j \<noteq> y b" using Suc.prems(5) j J by (auto simp: inj_on_def)
    ultimately show ?thesis by simp
  qed
  have d0: "d i = 0" if i: "i \<in> I'" for i
  proof (rule Suc.hyps(1) [of I' J' d i])
    show "n = card I'" using Suc.hyps(2) I by simp
    show "card I' = card J'" using Suc.prems(3) I J by simp
  qed (use Suc.prems I J D i in \<open>auto intro: inj_on_subset\<close>)
  have c0: "c i = 0" if i: "i \<in> I'" for i
  proof -
    have "x a - x i \<noteq> 0" using Suc.prems(4) i I by (auto simp: inj_on_def)
    moreover have "inverse (x i - y b) \<noteq> 0" using ne [of i b] i I J by simp
    ultimately show ?thesis using d0 [OF i] by (simp add: d_def)
  qed
  moreover have "c a = 0" using T [of b] c0 J(1) by simp
  ultimately show ?case using Suc.prems(8) I(1) by auto
qed

section \<open>A field on machine words\<close>

text \<open>
  The interface of a field of characteristic two implemented on words, as the coders use it: \<open>emb\<close>
  reads a word as the field element it stands for. Inversion panics exactly on zero.
\<close>

locale field_words =
  fixes emb :: "'w \<Rightarrow> 'f::field"
    and add mul :: "'w \<Rightarrow> 'w \<Rightarrow> 'w"
    and inv_w :: "'w \<Rightarrow> 'w option"
    and zero :: 'w
  assumes char2: "(x :: 'f) + x = 0"
    and emb_eq_iff: "emb a = emb b \<longleftrightarrow> a = b"
    and emb_zero: "emb zero = 0"
    and emb_add: "emb (add a b) = emb a + emb b"
    and emb_mul: "emb (mul a b) = emb a * emb b"
    and inv_w_None: "inv_w a = None \<longleftrightarrow> a = zero"
    and emb_inv: "inv_w a = Some b \<Longrightarrow> emb b = inverse (emb a)"
begin

lemma emb_eq_0_iff: "emb a = 0 \<longleftrightarrow> a = zero"
  using emb_eq_iff [of a zero] by (simp add: emb_zero)

lemma mul_commute: "mul a b = mul b a"
  using emb_eq_iff [of "mul a b" "mul b a"] by (simp add: emb_mul mult.commute)

lemma inv_w_nonzero:
  assumes "emb a \<noteq> 0"
  obtains b where "inv_w a = Some b" "emb b = inverse (emb a)"
proof -
  have "inv_w a \<noteq> None" using assms emb_zero by (simp add: inv_w_None) blast
  then obtain b where b: "inv_w a = Some b" by blast
  show thesis by (rule that [OF b emb_inv [OF b]])
qed

lemma emb_sum_list: "emb (foldr add xs zero) = sum_list (map emb xs)"
  by (induction xs) (simp_all add: emb_add emb_zero)

lemma scale_row:
  assumes "rep emb R n m f" "r < R"
  shows "rep emb R n (fold (\<lambda>k m. m[r * n + k := mul (m ! (r * n + k)) c]) [0 ..< n] m)
    (\<lambda>i j. if i = r then f r j * emb c else f i j)"
  by (rule rep_row_loop [OF assms]) (use assms(2) in \<open>simp add: emb_mul rep_nth\<close>)

lemma add_row:
  assumes "rep emb R n m f" "r < R" "p < R" "p \<noteq> r"
  shows "rep emb R n (fold (\<lambda>k m. m[r * n + k := add (m ! (r * n + k)) (mul c (m ! (p * n + k)))]) [0 ..< n] m)
    (\<lambda>i j. if i = r then f r j + emb c * f p j else f i j)"
  by (rule rep_row_loop [OF assms(1,2)]) (use assms(2-4) in \<open>simp add: emb_mul emb_add rep_nth\<close>)

text \<open>Clearing the pivot column in all other rows, in both matrices at once.\<close>

lemma clear_rows:
  fixes n p q :: nat
  defines "clear \<equiv> \<lambda>row (a, b).
    if row = p then (a, b)
    else let f = a ! (row * n + q) in
      if f = zero then (a, b)
      else fold (\<lambda>k (a, b). (a[row * n + k := add (a ! (row * n + k)) (mul f (a ! (p * n + k)))],
                              b[row * n + k := add (b ! (row * n + k)) (mul f (b ! (p * n + k)))]))
             [0 ..< n] (a, b)"
  assumes "rep emb R n a A" "rep emb R n b B" "p < R" "q < n"
  shows "\<exists>a' b'. fold clear [0 ..< R] (a, b) = (a', b')
    \<and> rep emb R n a' (\<lambda>i j. if i = p then A p j else A i j + A i q * A p j)
    \<and> rep emb R n b' (\<lambda>i j. if i = p then B p j else B i j + A i q * B p j)"
proof -
  have "r \<le> R \<Longrightarrow> \<exists>a' b'. fold clear [0 ..< r] (a, b) = (a', b')
    \<and> rep emb R n a' (\<lambda>i j. if i = p \<or> r \<le> i then A i j else A i j + A i q * A p j)
    \<and> rep emb R n b' (\<lambda>i j. if i = p \<or> r \<le> i then B i j else B i j + A i q * B p j)" for r
  proof (induction r)
    case 0 then show ?case using assms by simp
  next
    case (Suc r)
    then obtain a' b' where IH: "fold clear [0 ..< r] (a, b) = (a', b')"
      "rep emb R n a' (\<lambda>i j. if i = p \<or> r \<le> i then A i j else A i j + A i q * A p j)"
      "rep emb R n b' (\<lambda>i j. if i = p \<or> r \<le> i then B i j else B i j + A i q * B p j)"
      by auto
    have r: "r < R" using Suc.prems by simp
    have f: "emb (a' ! (r * n + q)) = A r q"
      using rep_nth [OF IH(2) r assms(5)] by simp
    let ?c = "a' ! (r * n + q)"
    let ?upd = "\<lambda>m. fold (\<lambda>k m. m[r * n + k := add (m ! (r * n + k)) (mul ?c (m ! (p * n + k)))]) [0 ..< n] m"
    show ?case
    proof (cases "r = p \<or> A r q = 0")
      case True
      have "?c = zero" if "r \<noteq> p" using that True f emb_eq_0_iff by simp
      then have "fold clear [0 ..< Suc r] (a, b) = (a', b')"
        using True IH(1) by (auto simp: clear_def Let_def)
      moreover have "rep emb R n a' (\<lambda>i j. if i = p \<or> Suc r \<le> i then A i j else A i j + A i q * A p j)"
        by (rule rep_cong [OF IH(2)]) (use True in \<open>auto simp: not_less_eq_eq le_less_Suc_eq\<close>)
      moreover have "rep emb R n b' (\<lambda>i j. if i = p \<or> Suc r \<le> i then B i j else B i j + A i q * B p j)"
        by (rule rep_cong [OF IH(3)]) (use True in \<open>auto simp: not_less_eq_eq le_less_Suc_eq\<close>)
      ultimately show ?thesis by blast
    next
      case False
      then have "?c \<noteq> zero" using f emb_zero by auto
      then have "fold clear [0 ..< Suc r] (a, b) = (?upd a', ?upd b')"
        using False IH(1) by (simp add: clear_def Let_def fold_pair)
      moreover have "rep emb R n (?upd a') (\<lambda>i j. if i = p \<or> Suc r \<le> i then A i j else A i j + A i q * A p j)"
        by (rule rep_cong [OF add_row [OF IH(2) r assms(4)]]) (use False f in auto)
      moreover have "rep emb R n (?upd b') (\<lambda>i j. if i = p \<or> Suc r \<le> i then B i j else B i j + A i q * B p j)"
        by (rule rep_cong [OF add_row [OF IH(3) r assms(4)]]) (use False f in auto)
      ultimately show ?thesis by blast
    qed
  qed
  from this [OF order_refl] show ?thesis by (auto elim!: rep_cong)
qed

text \<open>Normalising the pivot row and clearing the pivot column is one step of elimination.\<close>

lemma eliminate:
  fixes n p q :: nat
  defines "scale \<equiv> \<lambda>c k (a, b).
    (a[p * n + k := mul (a ! (p * n + k)) c], b[p * n + k := mul (b ! (p * n + k)) c])"
  defines "clear \<equiv> \<lambda>row (a, b).
    if row = p then (a, b)
    else let f = a ! (row * n + q) in
      if f = zero then (a, b)
      else fold (\<lambda>k (a, b). (a[row * n + k := add (a ! (row * n + k)) (mul f (a ! (p * n + k)))],
                              b[row * n + k := add (b ! (row * n + k)) (mul f (b ! (p * n + k)))]))
             [0 ..< n] (a, b)"
  assumes "rep emb R n a A" "rep emb R n b B" "p < R" "q < n" "emb c = inverse (A p q)"
  shows "\<exists>a' b'. fold clear [0 ..< R] (fold (scale c) [0 ..< n] (a, b)) = (a', b')
    \<and> rep emb R n a' (elim_step p q A A) \<and> rep emb R n b' (elim_step p q A B)"
proof -
  let ?sc = "\<lambda>m. fold (\<lambda>k m. m[p * n + k := mul (m ! (p * n + k)) c]) [0 ..< n] m"
  have "fold (scale c) [0 ..< n] (a, b) = (?sc a, ?sc b)"
    by (simp only: scale_def fold_pair)
  moreover obtain a' b' where r: "fold clear [0 ..< R] (?sc a, ?sc b) = (a', b')"
    and a': "rep emb R n a' (\<lambda>i j. if i = p then if p = p then A p j * emb c else A p j
      else (if i = p then A p j * emb c else A i j)
        + (if i = p then A p q * emb c else A i q) * (if p = p then A p j * emb c else A p j))"
    and b': "rep emb R n b' (\<lambda>i j. if i = p then if p = p then B p j * emb c else B p j
      else (if i = p then B p j * emb c else B i j)
        + (if i = p then A p q * emb c else A i q) * (if p = p then B p j * emb c else B p j))"
    using clear_rows [OF scale_row [OF assms(3,5), of c] scale_row [OF assms(4,5), of c] assms(5,6)]
    unfolding clear_def by blast
  have "rep emb R n a' (elim_step p q A A)"
    by (rule rep_cong [OF a']) (simp add: elim_step_def assms(7))
  moreover have "rep emb R n b' (elim_step p q A B)"
    by (rule rep_cong [OF b']) (simp add: elim_step_def assms(7))
  ultimately show ?thesis using r by simp
qed

end

section \<open>Vandermonde matrices\<close>

lemma vandermonde_regular:
  fixes c v :: "nat \<Rightarrow> 'f::field"
  assumes "finite J" "inj_on c J" "\<And>i. i < card J \<Longrightarrow> (\<Sum>j\<in>J. v j * c j ^ i) = 0" "j \<in> J"
  shows "v j = 0"
  using assms
proof (induction J arbitrary: v j rule: finite_induct)
  case (insert b J)
  have S: "v b * c b ^ i + (\<Sum>j\<in>J. v j * c j ^ i) = 0" if "i < Suc (card J)" for i
    using insert.prems(2) [of i] that insert.hyps by simp
  have "v j * (c j - c b) = 0" if "j \<in> J" for j
  proof (rule insert.IH [OF _ _ that])
    show "inj_on c J" using insert.prems(1) by simp
    fix i assume i: "i < card J"
    have "(\<Sum>j\<in>J. v j * (c j - c b) * c j ^ i)
        = (\<Sum>j\<in>J. v j * c j ^ Suc i) - c b * (\<Sum>j\<in>J. v j * c j ^ i)"
      by (simp add: sum_distrib_left algebra_simps sum_subtractf)
    also have "(\<Sum>j\<in>J. v j * c j ^ Suc i) = - (v b * c b ^ Suc i)"
      using S [of "Suc i"] i by (intro minus_unique [symmetric]) simp
    also have "(\<Sum>j\<in>J. v j * c j ^ i) = - (v b * c b ^ i)"
      using S [of i] i by (intro minus_unique [symmetric]) simp
    finally show "(\<Sum>j\<in>J. v j * (c j - c b) * c j ^ i) = 0" by simp
  qed
  moreover have "c j \<noteq> c b" if "j \<in> J" for j
    using insert.prems(1) insert.hyps(2) that by (auto simp: inj_on_def)
  ultimately have "v j = 0" if "j \<in> J" for j using that by simp
  moreover from this have "v b = 0" using S [of 0] by simp
  ultimately show ?case using insert.prems(3) by auto
qed simp

end
