(* ===== verification/Gf16.thy ===== *)
theory Gf16
  imports Gf16_Field Gf_Linear
begin

text \<open>
  The field arithmetic of \<open>reedsolomon-rs/src/gf.rs\<close>: the log and antilog tables and the routines
  that look products, inverses and powers up in them. The tables are built by the loop of the
  source and shown to hold the powers of \<open>x\<close>, which makes every routine equal to its counterpart
  in the field \<open>gf16\<close>.
\<close>

unbundle bit_operations_syntax

section \<open>Tables\<close>

definition PRIMITIVE_POLY :: u32 where
  "PRIMITIVE_POLY = 0x1100B"

definition ORDER :: u32 where
  "ORDER = 65535"

record gf_tables =
  log_table :: "u16 list"
  antilog_table :: "u16 list"

definition zeroed_table :: "u16 list" where
  "zeroed_table = replicate 65536 0"

text \<open>Assignment to an element of an array; an index out of range panics.\<close>

definition set_at :: "'a list \<Rightarrow> nat \<Rightarrow> 'a \<Rightarrow> 'a list option" where
  "set_at xs i v = (if i < length xs then Some (xs[i := v]) else None)"

definition next_val :: "u32 \<Rightarrow> u32" where
  "next_val val = (let val = push_bit 1 val
     in if val AND 0x10000 \<noteq> 0 then val XOR PRIMITIVE_POLY else val)"

primrec build_tables_loop :: "nat list \<Rightarrow> u32 \<Rightarrow> gf_tables \<Rightarrow> gf_tables option" where
  "build_tables_loop [] val t = Some t"
| "build_tables_loop (i # is) val t =
     (case set_at (antilog_table t) i (ucast val) of
        None \<Rightarrow> None
      | Some al \<Rightarrow>
         (case set_at (log_table t) (unat val) (of_nat i) of
            None \<Rightarrow> None
          | Some lg \<Rightarrow> build_tables_loop is (next_val val) \<lparr>log_table = lg, antilog_table = al\<rparr>))"

definition build_tables :: "gf_tables option" where
  "build_tables =
     (case build_tables_loop [0 ..< unat ORDER] 1
         \<lparr>log_table = zeroed_table, antilog_table = zeroed_table\<rparr> of
        None \<Rightarrow> None
      | Some t \<Rightarrow>
         (case set_at (antilog_table t) (unat ORDER) (antilog_table t ! 0) of
            None \<Rightarrow> None
          | Some al \<Rightarrow> Some (t\<lparr>antilog_table := al\<rparr>)))"

definition TABLES :: gf_tables where
  "TABLES = the build_tables"

section \<open>Field operations\<close>

definition add :: "u16 \<Rightarrow> u16 \<Rightarrow> u16" where
  "add a b = a XOR b"

definition mul :: "u16 \<Rightarrow> u16 \<Rightarrow> u16" where
  "mul a b =
     (if a = 0 \<or> b = 0 then 0
      else let log_a = ucast (log_table TABLES ! unat a) :: u32;
               log_b = ucast (log_table TABLES ! unat b) :: u32;
               log_sum = log_a + log_b;
               log_sum = (if log_sum \<ge> ORDER then log_sum - ORDER else log_sum)
           in antilog_table TABLES ! unat log_sum)"

text \<open>Inverting zero fails the assertion of the source.\<close>

definition inv_gf :: "u16 \<Rightarrow> u16 option" where
  "inv_gf a =
     (if a = 0 then None
      else let log_a = ucast (log_table TABLES ! unat a) :: u32
           in Some (antilog_table TABLES ! unat (ORDER - log_a)))"

definition pow_from_log :: "u16 \<Rightarrow> u32 \<Rightarrow> u16" where
  "pow_from_log log_base exp =
     (let log_result = ((ucast log_base :: u64) * ucast exp) mod ucast ORDER
      in antilog_table TABLES ! unat log_result)"

definition pow :: "u16 \<Rightarrow> u32 \<Rightarrow> u16" where
  "pow base exp =
     (if exp = 0 then 1
      else if base = 0 then 0
      else let log_base = ucast (log_table TABLES ! unat base) :: u64;
               log_result = (log_base * ucast exp) mod ucast ORDER
           in antilog_table TABLES ! unat log_result)"

definition log_gf :: "u16 \<Rightarrow> u16" where
  "log_gf val = log_table TABLES ! unat val"

section \<open>Constants of the input slices\<close>

definition is_divisible_by_suborder_factor :: "nat \<Rightarrow> bool" where
  "is_divisible_by_suborder_factor exp \<longleftrightarrow> 3 dvd exp \<or> 5 dvd exp \<or> 17 dvd exp \<or> 257 dvd exp"

text \<open>
  The exponent stays below 65537, so it is a natural number here. Going past the order of the
  group fails the assertion of the source.
\<close>

function input_slice_constants_loop :: "nat \<Rightarrow> u16 list \<Rightarrow> nat \<Rightarrow> u16 list option" where
  "input_slice_constants_loop count constants exp =
     (if length constants < count then
        let constants = (if is_divisible_by_suborder_factor exp then constants
                         else constants @ [antilog_table TABLES ! exp]);
            exp = exp + 1
        in if exp \<le> unat ORDER then input_slice_constants_loop count constants exp else None
      else Some constants)"
  by pat_completeness auto
termination
  by (relation "measure (\<lambda>(_, _, exp). 65536 - exp)") (simp_all add: ORDER_def)

declare input_slice_constants_loop.simps [simp del]

definition input_slice_constants :: "nat \<Rightarrow> u16 list option" where
  "input_slice_constants count = input_slice_constants_loop count [] 1"

section \<open>What the tables hold\<close>

lemma unat_ORDER [simp]: "unat ORDER = 65535"
  by (simp add: ORDER_def)

lemma bit_shifted_val: "bit (push_bit 1 (ucast (a :: u16) :: u32)) n \<longleftrightarrow> n \<noteq> 0 \<and> n \<le> 16 \<and> bit a (n - 1)"
  using bit_imp_le_length [of a "n - 1"]
  by (auto simp only: bit_push_bit_iff bit_ucast_iff possible_bit_word) auto

lemma next_val_ucast: "next_val (ucast a) = ucast (xtimes a)"
proof -
  have m: "push_bit 1 (ucast a :: u32) AND 0x10000 \<noteq> 0 \<longleftrightarrow> bit a 15"
    using and_exp_eq_0_iff_not_bit [of "push_bit 1 (ucast a :: u32)" 16] bit_shifted_val [of a 16]
    by simp
  have e: "PRIMITIVE_POLY = push_bit 16 1 XOR ucast (0x100B :: u16)"
    by (simp add: PRIMITIVE_POLY_def)
  have poly: "bit PRIMITIVE_POLY n \<longleftrightarrow> (n = 16) \<noteq> bit (0x100B :: u16) n" for n
  proof -
    have "bit (push_bit 16 1 :: u32) n \<longleftrightarrow> n = 16"
      by (simp only: bit_push_bit_iff bit_1_iff) auto
    moreover have "bit (ucast (0x100B :: u16) :: u32) n \<longleftrightarrow> bit (0x100B :: u16) n"
      using bit_imp_le_length [of "0x100B :: u16" n] by (simp only: bit_unsigned_iff) auto
    ultimately show ?thesis unfolding e by (simp only: bit_xor_iff)
  qed
  show ?thesis
  proof (rule bit_eqI)
    fix n assume n: "possible_bit TYPE(u32) n"
    have "bit (0x100B :: u16) n \<Longrightarrow> n < 16"
      using bit_imp_le_length [of "0x100B :: u16" n] by simp
    then show "bit (next_val (ucast a)) n \<longleftrightarrow> bit (ucast (xtimes a) :: u32) n"
      using n unfolding next_val_def Let_def m
      by (auto simp only: bit_xor_iff bit_shifted_val poly bit_ucast_iff bit_xtimes split: if_splits)
        (auto simp: le_less)
  qed
qed

text \<open>The invariant of the loop after \<open>k\<close> rounds.\<close>

definition tables_upto :: "nat \<Rightarrow> gf_tables \<Rightarrow> bool" where
  "tables_upto k t \<longleftrightarrow> length (log_table t) = 65536 \<and> length (antilog_table t) = 65536
     \<and> (\<forall>j < k. antilog_table t ! j = xp j \<and> log_table t ! unat (xp j) = of_nat j)"

lemma unat_xp: "unat (xp k) < 65536"
  using unsigned_less [of "xp k"] by simp

lemma tables_upto_Suc:
  assumes "tables_upto k t" "k < 65535"
  shows "tables_upto (Suc k) \<lparr>log_table = (log_table t)[unat (xp k) := of_nat k],
    antilog_table = (antilog_table t)[k := xp k]\<rparr>"
proof -
  have "xp j \<noteq> xp k" if "j < k" for j
    using inj_onD [OF xp_inj, of j k] that assms(2) by auto
  then have "unat (xp k) \<noteq> unat (xp j)" if "j < k" for j
    using that by (metis word_unat_eq_iff)
  then show ?thesis
    using assms unat_xp [of k] by (auto simp: tables_upto_def less_Suc_eq nth_list_update)
qed

lemma build_tables_loop_upto:
  assumes "tables_upto k t" "k \<le> 65535"
  shows "\<exists>t'. build_tables_loop [k ..< 65535] (ucast (xp k)) t = Some t' \<and> tables_upto 65535 t'"
  using assms
proof (induction "65535 - k" arbitrary: k t)
  case 0 then show ?case by simp
next
  case (Suc m)
  then have k: "k < 65535" by simp
  let ?t = "\<lparr>log_table = (log_table t)[unat (xp k) := of_nat k],
    antilog_table = (antilog_table t)[k := xp k]\<rparr>"
  have "build_tables_loop [k ..< 65535] (ucast (xp k)) t
      = build_tables_loop [Suc k ..< 65535] (ucast (xp (Suc k))) ?t"
    using Suc.prems k unat_xp [of k]
    by (simp add: upt_conv_Cons set_at_def tables_upto_def next_val_ucast xp_Suc unsigned_ucast_eq
        take_bit_nat_eq_self take_bit_word_eq_self)
  then show ?case
    using Suc.hyps(1) [of "Suc k" ?t] Suc.hyps(2) tables_upto_Suc [OF Suc.prems(1) k] k by simp
qed

lemma build_tables_returns:
  "\<exists>t. build_tables = Some t \<and> tables_upto 65535 t \<and> antilog_table t ! 65535 = 1"
proof -
  have "tables_upto 0 \<lparr>log_table = zeroed_table, antilog_table = zeroed_table\<rparr>"
    by (simp add: tables_upto_def zeroed_table_def)
  from build_tables_loop_upto [OF this]
  obtain t where t: "build_tables_loop [0 ..< 65535] 1 \<lparr>log_table = zeroed_table, antilog_table = zeroed_table\<rparr> = Some t"
    "tables_upto 65535 t" by auto
  have "antilog_table t ! 0 = 1" using t(2) by (simp add: tables_upto_def)
  then show ?thesis
    using t by (auto simp: build_tables_def set_at_def tables_upto_def nth_list_update)
qed

lemma TABLES_upto: "tables_upto 65535 TABLES" "antilog_table TABLES ! 65535 = 1"
  using build_tables_returns unfolding TABLES_def by (metis option.sel)+

lemma antilog_xp: "n \<le> 65535 \<Longrightarrow> antilog_table TABLES ! n = xp n"
  using TABLES_upto xp_65535 by (cases "n = 65535") (auto simp: tables_upto_def)

lemma log_xp: "n < 65535 \<Longrightarrow> log_table TABLES ! unat (xp n) = of_nat n"
  using TABLES_upto(1) by (simp add: tables_upto_def)

lemma log_cases:
  assumes "a \<noteq> 0"
  obtains n where "n < 65535" "a = xp n" "log_table TABLES ! unat a = of_nat n"
  using xp_exhaust [OF assms] log_xp by metis

lemma unat_of_nat_u16 [simp]: "n < 65536 \<Longrightarrow> unat (of_nat n :: u16) = n"
  by (simp add: unat_of_nat take_bit_nat_eq_self)

lemma mul_gmul [code]: "mul a b = gmul a b"
proof (cases "a = 0 \<or> b = 0")
  case True then show ?thesis by (auto simp: mul_def)
next
  case False
  obtain m where m: "m < 65535" "a = xp m" "log_table TABLES ! unat a = of_nat m"
    using False log_cases [of a] by blast
  obtain n where n: "n < 65535" "b = xp n" "log_table TABLES ! unat b = of_nat n"
    using False log_cases [of b] by blast
  have u: "(ucast (of_nat k :: u16) :: u32) = of_nat k" if "k < 65535" for k
    using that by (simp add: unsigned_of_nat take_bit_nat_eq_self)
  have s: "unat (of_nat m + of_nat n :: u32) = m + n"
    using m n by (simp add: take_bit_nat_eq_self unat_of_nat flip: of_nat_add)
  let ?s = "of_nat m + of_nat n :: u32"
  have "unat (if ORDER \<le> ?s then ?s - ORDER else ?s) = (m + n) mod 65535"
    using m n s by (auto simp: word_le_nat_alt unat_sub mod_if)
  then have "mul a b = antilog_table TABLES ! ((m + n) mod 65535)"
    using False m n u by (simp add: mul_def Let_def)
  also have "\<dots> = gmul a b"
    using m n by (simp add: antilog_xp xp_mod xp_add less_imp_le)
  finally show ?thesis .
qed

lemma inv_ginv [code]: "inv_gf a = (if a = 0 then None else Some (ginv a))"
proof (cases "a = 0")
  case True then show ?thesis by (simp add: inv_gf_def)
next
  case False
  then obtain n where n: "n < 65535" "a = xp n" "log_table TABLES ! unat a = of_nat n"
    by (rule log_cases)
  have u: "unat (ucast (of_nat n :: u16) :: u32) = n"
    using n by (simp add: unsigned_ucast_eq take_bit_nat_eq_self)
  then have "unat (ORDER - ucast (of_nat n :: u16)) = 65535 - n"
    using n by (subst unat_sub) (simp_all add: word_le_nat_alt)
  then have "inv_gf a = Some (xp (65535 - n))"
    using False n by (simp add: inv_gf_def Let_def antilog_xp)
  moreover have "gmul (xp (65535 - n)) a = 1"
    using n xp_65535 by (simp flip: xp_add)
  then have "xp (65535 - n) = ginv a"
    by (metis False gmul_1_left gmul_1_right gmul_assoc gmul_commute gmul_ginv)
  ultimately show ?thesis using False by simp
qed

lemma pow_from_log_xp:
  assumes "n < 65535"
  shows "pow_from_log (of_nat n) exp = xp (n * unat exp)"
proof -
  have "unat (ucast (of_nat n :: u16) :: u64) = n" "unat (ucast exp :: u64) = unat exp"
    using assms unat_bound [of exp]
    by (simp_all add: unsigned_ucast_eq take_bit_nat_eq_self unsigned_take_bit_eq)
  moreover have "n * unat exp < 2 ^ 64"
  proof -
    have "n * unat exp \<le> 2 ^ 16 * 2 ^ 32"
      using assms unat_bound [of exp] by (intro mult_mono) simp_all
    then show ?thesis by simp
  qed
  ultimately have "unat ((ucast (of_nat n :: u16) :: u64) * ucast exp) = n * unat exp"
    by (subst unat_mult_no_overflow) simp_all
  then have "unat (((ucast (of_nat n :: u16) :: u64) * ucast exp) mod ucast ORDER)
      = (n * unat exp) mod 65535"
    by (simp add: unat_mod ORDER_def)
  then show ?thesis
    by (simp add: pow_from_log_def Let_def antilog_xp xp_mod less_imp_le)
qed

lemma pow_eq_pow_from_log: "base \<noteq> 0 \<Longrightarrow> pow base exp = pow_from_log (log_gf base) exp"
proof -
  assume "base \<noteq> 0"
  then obtain n where n: "n < 65535" "base = xp n" "log_table TABLES ! unat base = of_nat n"
    by (rule log_cases)
  show ?thesis
  proof (cases "exp = 0")
    case True
    then show ?thesis using pow_from_log_xp [OF n(1), of exp] n by (simp add: pow_def log_gf_def)
  next
    case False
    then show ?thesis using \<open>base \<noteq> 0\<close> by (simp add: pow_def pow_from_log_def log_gf_def)
  qed
qed

lemma pow_gpow: "pow base exp = gpow base (unat exp)"
proof (cases "base = 0")
  case True
  have "gpow 0 (unat exp) = (if exp = 0 then 1 else 0)"
    by (cases "unat exp") (auto simp: unat_eq_0)
  then show ?thesis using True by (simp add: pow_def)
next
  case False
  then obtain n where n: "n < 65535" "base = xp n" "log_table TABLES ! unat base = of_nat n"
    by (rule log_cases)
  then show ?thesis
    using False by (simp add: pow_eq_pow_from_log log_gf_def pow_from_log_xp gpow_xp)
qed

text \<open>Powers evaluate by squaring over the 32 digits of the exponent.\<close>

lemma nat_bits_word:
  "nat_bits (map (bit (e :: u32)) (rev [0 ..< k])) n = n * 2 ^ k + take_bit k (unat e)"
proof (induction k arbitrary: n)
  case (Suc k)
  have "take_bit (Suc k) (unat e) = 2 ^ k * of_bool (bit e k) + take_bit k (unat e)"
    using bit_imp_le_length [of e k] by (auto simp: take_bit_Suc_from_most bit_unsigned_iff)
  then show ?case using Suc by (simp add: algebra_simps)
qed simp

lemma pow_code [code]: "pow base exp = gpow_bits base (map (bit exp) (rev [0 ..< 32])) 1"
  using gpow_bits_1 [of base "map (bit exp) (rev [0 ..< 32])"] unat_bound [of exp]
  by (simp only: nat_bits_word pow_gpow) (simp add: take_bit_nat_eq_self)

section \<open>The exponents of full order\<close>

definition full_order_exponents :: "nat list" where
  "full_order_exponents = filter (\<lambda>e. \<not> is_divisible_by_suborder_factor e) [1 ..< 65535]"

lemma input_slice_constants_loop_eq:
  assumes "e \<le> 65535" "length cs \<le> count"
  defines "rest \<equiv> \<lambda>e. map xp (filter (\<lambda>e. \<not> is_divisible_by_suborder_factor e) [e ..< 65535])"
  shows "input_slice_constants_loop count cs e =
    (if count \<le> length cs + length (rest e) then Some (take count (cs @ rest e)) else None)"
  using assms(1,2)
proof (induction "65535 - e" arbitrary: e cs)
  case 0
  then show ?case
    by (subst input_slice_constants_loop.simps)
       (auto simp: rest_def is_divisible_by_suborder_factor_def)
next
  case (Suc m)
  then have e: "e < 65535" by simp
  let ?cs = "if is_divisible_by_suborder_factor e then cs else cs @ [xp e]"
  have r: "rest e = (if is_divisible_by_suborder_factor e then rest (Suc e) else xp e # rest (Suc e))"
    using e by (simp add: rest_def upt_conv_Cons)
  show ?case
  proof (cases "length cs < count")
    case True
    then have "input_slice_constants_loop count cs e = input_slice_constants_loop count ?cs (Suc e)"
      using e by (subst input_slice_constants_loop.simps) (simp add: antilog_xp Let_def)
    also have "\<dots> = (if count \<le> length ?cs + length (rest (Suc e))
        then Some (take count (?cs @ rest (Suc e))) else None)"
      using Suc True by (intro Suc.hyps(1)) auto
    finally show ?thesis using r by (cases "is_divisible_by_suborder_factor e") simp_all
  next
    case False
    then show ?thesis
      using Suc.prems by (subst input_slice_constants_loop.simps) simp
  qed
qed

lemma card_periodic:
  "card {e. e < k * m \<and> P (e mod m)} = k * card {r. r < m \<and> P (r :: nat)}"
proof (induction k)
  case (Suc k)
  let ?A = "{e. e < k * m \<and> P (e mod m)}" and ?B = "(\<lambda>r. k * m + r) ` {r. r < m \<and> P r}"
  have "{e. e < Suc k * m \<and> P (e mod m)} = ?A \<union> ?B"
  proof (intro equalityI subsetI)
    fix e assume e: "e \<in> {e. e < Suc k * m \<and> P (e mod m)}"
    show "e \<in> ?A \<union> ?B"
    proof (cases "e < k * m")
      case True then show ?thesis using e by simp
    next
      case False
      define r where "r = e - k * m"
      have r: "e = k * m + r" "r < m" using False e by (auto simp: r_def)
      then have "e mod m = r" by simp
      then have "P r" using e by simp
      then show ?thesis using r by blast
    qed
  qed auto
  moreover have "?A \<inter> ?B = {}" by auto
  moreover have "card ?B = card {r. r < m \<and> P r}" by (rule card_image) (simp add: inj_on_def)
  ultimately show ?case using Suc by (simp add: card_Un_disjoint)
qed simp

definition coprime_255 :: "nat \<Rightarrow> bool" where
  "coprime_255 e \<longleftrightarrow> \<not> 3 dvd e \<and> \<not> 5 dvd e \<and> \<not> 17 dvd e"

lemma coprime_255_nonzero: "coprime_255 e \<Longrightarrow> e \<noteq> 0"
  unfolding coprime_255_def by (metis dvd_0_right)

lemma card_coprime_255: "card {r. r < 255 \<and> coprime_255 r} = 128"
proof -
  let ?l = "filter coprime_255 (1 # [2 ..< 255])"
  have "r = 1 \<or> 2 \<le> r" if "coprime_255 r" for r
    using coprime_255_nonzero [OF that] by linarith
  then have "{r. r < 255 \<and> coprime_255 r} = set ?l"
    by (simp only: set_filter list.set set_upt) auto
  moreover have "length ?l = 128"
    by (simp add: coprime_255_def)
  moreover have "distinct ?l"
    by (rule distinct_filter) (simp only: distinct.simps distinct_upt set_upt, simp)
  ultimately show ?thesis by (simp only: distinct_card)
qed

lemma length_full_order_exponents: "length full_order_exponents = 32768"
proof -
  let ?A = "{e. e < 65535 \<and> coprime_255 e}" and ?B = "(\<lambda>j. 257 * j) ` {j. j < 255 \<and> coprime_255 j}"
  have m: "coprime_255 (e mod 255) = coprime_255 e" for e
    by (simp add: coprime_255_def dvd_mod_iff)
  have A: "card ?A = 257 * 128"
    using card_periodic [of 257 255 coprime_255] by (simp add: m card_coprime_255)
  have B: "card ?B = 128"
    by (subst card_image) (simp_all add: card_coprime_255 inj_on_def)
  have s: "coprime_255 (257 * j) = coprime_255 j" for j
  proof -
    have "coprime 3 (257 :: nat)" "coprime 5 (257 :: nat)" "coprime 17 (257 :: nat)"
      by (simp_all add: coprime_iff_gcd_eq_1 gcd_non_0_nat)
    then show ?thesis by (simp add: coprime_255_def coprime_dvd_mult_right_iff)
  qed
  have "e \<in> ?B \<longleftrightarrow> e < 65535 \<and> coprime_255 e \<and> 257 dvd e" for e
    using s by (auto simp: image_iff dvd_def)
  then have "set full_order_exponents = ?A - ?B"
    using coprime_255_nonzero
    by (auto simp: full_order_exponents_def is_divisible_by_suborder_factor_def coprime_255_def
        Suc_le_eq)
  moreover have "?B \<subseteq> ?A" using s by auto
  ultimately have "card (set full_order_exponents) = 32768"
    using A B by (simp add: card_Diff_subset)
  moreover have "distinct full_order_exponents" by (simp add: full_order_exponents_def)
  ultimately show ?thesis by (simp add: distinct_card)
qed

lemma input_slice_constants_eq:
  "input_slice_constants count =
     (if count \<le> 32768 then Some (map xp (take count full_order_exponents)) else None)"
  using input_slice_constants_loop_eq [of 1 "[]" count] length_full_order_exponents
  by (simp add: input_slice_constants_def full_order_exponents_def take_map)

lemma full_order_exponent_coprime: "e \<in> set full_order_exponents \<Longrightarrow> coprime e 65535"
proof -
  assume e: "e \<in> set full_order_exponents"
  have "gcd e 65535 = 1"
  proof (rule ccontr)
    assume "gcd e 65535 \<noteq> 1"
    with divisor_of_65535 [of "gcd e 65535"]
    have "3 dvd e \<or> 5 dvd e \<or> 17 dvd e \<or> 257 dvd e" by (simp only: gcd_dvd2) (meson dvd_trans gcd_dvd1)
    then show False
      using e by (simp add: full_order_exponents_def is_divisible_by_suborder_factor_def)
  qed
  then show ?thesis by (simp add: coprime_iff_gcd_eq_1)
qed

lemma full_order_exponents_inj: "inj_on xp (set full_order_exponents)"
  by (rule inj_on_subset [OF xp_inj]) (auto simp: full_order_exponents_def)

section \<open>The interface of the coders\<close>

interpretation gf: field_words Gf "(XOR)" mul inv_gf 0
proof
  show "x + x = 0" for x :: gf16 by (rule gf16_add_self)
  show "Gf a = Gf b \<longleftrightarrow> a = b" for a b by (rule Gf_eq_iff)
  show "Gf 0 = 0" by (rule Gf_hom)
  show "Gf (a XOR b) = Gf a + Gf b" for a b by (rule Gf_hom)
  show "Gf (mul a b) = Gf a * Gf b" for a b by (simp only: mul_gmul Gf_hom)
  show "inv_gf a = None \<longleftrightarrow> a = 0" for a by (simp add: inv_ginv)
  show "Gf b = inverse (Gf a)" if "inv_gf a = Some b" for a b
    using that by (simp add: inv_ginv flip: Gf_hom(5) split: if_splits)
qed

section \<open>Properties\<close>

text \<open>Building the tables never leaves the arrays. The antilog table lists all 65535 nonzero
  words without repetition, and the log table inverts it.\<close>
theorem tables_invert:
  "build_tables \<noteq> None
   \<and> bij_betw (\<lambda>i. antilog_table TABLES ! i) {..< 65535} (- {0})
   \<and> map (\<lambda>i. log_table TABLES ! unat (antilog_table TABLES ! i)) [0 ..< 65535]
     = map of_nat [0 ..< 65535]"
proof (intro conjI)
  show "build_tables \<noteq> None" using build_tables_returns by auto
  show "bij_betw (\<lambda>i. antilog_table TABLES ! i) {..< 65535} (- {0})"
    using bij_betw_cong [of "{..< 65535}" "\<lambda>i. antilog_table TABLES ! i" xp] xp_bij
    by (simp add: antilog_xp)
  show "map (\<lambda>i. log_table TABLES ! unat (antilog_table TABLES ! i)) [0 ..< 65535]
     = map of_nat [0 ..< 65535]"
    by (rule map_cong) (simp_all add: antilog_xp log_xp)
qed

text \<open>C4: The table-driven product is the product of polynomials over two elements modulo
  \<open>x^16 + x^12 + x^3 + x + 1\<close>, computed bit by bit.\<close>
theorem mul_is_polynomial_product: "mul a b = gmul a b"
  by (rule mul_gmul)

text \<open>Inversion panics exactly on zero; otherwise its result is the multiplicative inverse.\<close>
theorem inv_gf_correct:
  "case inv_gf a of None \<Rightarrow> a = 0 | Some b \<Rightarrow> a \<noteq> 0 \<and> mul a b = 1 \<and> inv_gf b = Some a"
proof (cases "a = 0")
  case False
  have "Gf (ginv (ginv a)) = Gf a" by (simp only: gf_simps) simp
  then have "ginv (ginv a) = a" by simp
  moreover have "ginv a \<noteq> 0" using gmul_ginv [OF False] by auto
  ultimately show ?thesis
    using False gmul_ginv [OF False] by (simp add: inv_ginv mul_gmul gmul_commute [of a])
qed (simp add: inv_ginv)

text \<open>The table-driven power is the power of the field for every base and exponent,
  zero included, with \<open>0^0 = 1\<close>.\<close>
theorem pow_is_field_power: "Gf (pow base exp) = Gf base ^ unat exp"
  by (simp add: pow_gpow gf_simps)

text \<open>With the logarithm of a nonzero base looked up beforehand the power is the same,
  for the exponent zero too.\<close>
theorem pow_from_log_pow: "base \<noteq> 0 \<Longrightarrow> pow_from_log (log_gf base) exp = pow base exp"
  by (simp add: pow_eq_pow_from_log)

theorem pow_from_log_pow_witness:
  "(2 :: u16) \<noteq> 0 \<and> pow_from_log (log_gf 2) 16 = 0x100B"
proof -
  have "pow 2 16 = 0x100B" by code_simp
  then show ?thesis using pow_from_log_pow [of 2 16] by simp
qed

text \<open>C38: Up to the 32768 constants PAR2 allows, the assignment of constants to input slices
  returns distinct constants, and each of them generates the whole multiplicative group.\<close>
theorem input_slice_constants_full_order:
  assumes "count \<le> 32768"
  shows "\<exists>cs. input_slice_constants count = Some cs \<and> length cs = count \<and> distinct cs
    \<and> (\<forall>c \<in> set cs. \<forall>k. Gf c ^ k = 1 \<longleftrightarrow> 65535 dvd k)"
proof (intro exI conjI)
  let ?es = "take count full_order_exponents"
  show "input_slice_constants count = Some (map xp ?es)"
    using assms by (simp add: input_slice_constants_eq)
  show "length (map xp ?es) = count" using assms by (simp add: length_full_order_exponents)
  have "distinct full_order_exponents" by (simp add: full_order_exponents_def)
  then show "distinct (map xp ?es)"
    by (simp add: distinct_map inj_on_subset [OF full_order_exponents_inj] set_take_subset)
  have "Gf (xp e) ^ k = 1 \<longleftrightarrow> 65535 dvd k" if "e \<in> set full_order_exponents" for e k
  proof -
    have "Gf (xp e) ^ k = 1 \<longleftrightarrow> xp (e * k) = 1"
      by (simp add: gpow_xp flip: gf_simps)
    also have "\<dots> \<longleftrightarrow> 65535 dvd k"
      using full_order_exponent_coprime [OF that]
      by (simp add: xp_eq_1_iff coprime_dvd_mult_right_iff coprime_commute)
    finally show ?thesis .
  qed
  then show "\<forall>c \<in> set (map xp ?es). \<forall>k. Gf c ^ k = 1 \<longleftrightarrow> 65535 dvd k"
    using set_take_subset [of count full_order_exponents] by auto
qed

theorem input_slice_constants_full_order_witness:
  "(3 :: nat) \<le> 32768 \<and> (\<exists>cs. input_slice_constants 3 = Some cs \<and> length cs = 3 \<and> distinct cs)"
  using input_slice_constants_full_order [of 3] by auto

text \<open>A request for more constants than there are generators fails the assertion of the
  source instead of returning a weaker constant.\<close>
theorem input_slice_constants_exhausted: "input_slice_constants count = None \<longleftrightarrow> 32768 < count"
  by (simp add: input_slice_constants_eq not_le)

end
