(* ===== verification/Repair_Matrix.thy ===== *)
theory Repair_Matrix
  imports Gf16
begin

text \<open>
  The repair coefficients of \<open>reedsolomon-rs/src/matrix.rs\<close>: the coefficients that rebuild missing
  PAR2 input slices from the slices that survived and from recovery blocks. The routines work on
  row-major vectors of words, as in the source. The inverse is shown to be one, the elimination
  to fail only on a singular matrix, and the coefficients to rebuild the missing slices.
\<close>

unbundle bit_operations_syntax

section \<open>Model\<close>

record repair_coefficients =
  rc_rows :: nat
  rc_cols :: nat
  rc_data :: "u16 list"

text \<open>
  A singular matrix is the error value of the source; an index out of range, or inverting zero,
  is a panic.
\<close>

datatype repair_failure = SingularMatrix (bad_row: "nat option") | RepairPanic

definition rc_row :: "repair_coefficients \<Rightarrow> nat \<Rightarrow> u16 list option" where
  "rc_row rc r = (let start = r * rc_cols rc in slice start (start + rc_cols rc) (rc_data rc))"

definition rc_get :: "repair_coefficients \<Rightarrow> nat \<Rightarrow> nat \<Rightarrow> u16 option" where
  "rc_get rc r c = (let i = r * rc_cols rc + c
     in if i < length (rc_data rc) then Some (rc_data rc ! i) else None)"

definition identity_matrix :: "nat \<Rightarrow> u16 list" where
  "identity_matrix n = fold (\<lambda>i m. m[i * n + i := 1]) [0 ..< n] (replicate (n * n) 0)"

text \<open>One round of the loop over the columns.\<close>

definition gf_invert_column ::
  "nat \<Rightarrow> nat \<Rightarrow> u16 list \<times> u16 list \<Rightarrow> repair_failure + u16 list \<times> u16 list" where
  "gf_invert_column n col m =
     (case List.find (\<lambda>r. fst m ! (r * n + col) \<noteq> 0) [col ..< n] of
        None \<Rightarrow> Inl (SingularMatrix (Some col))
      | Some piv \<Rightarrow>
          let m = (if piv \<noteq> col
                   then fold (\<lambda>k (a, inv). (swap_at a (col * n + k) (piv * n + k),
                                             swap_at inv (col * n + k) (piv * n + k))) [0 ..< n] m
                   else m)
          in case inv_gf (fst m ! (col * n + col)) of
               None \<Rightarrow> Inl RepairPanic
             | Some pivot_inv \<Rightarrow>
                 let m = fold (\<lambda>k (a, inv). (a[col * n + k := mul (a ! (col * n + k)) pivot_inv],
                                            inv[col * n + k := mul (inv ! (col * n + k)) pivot_inv]))
                           [0 ..< n] m
                 in Inr (fold (\<lambda>row (a, inv).
                      if row = col then (a, inv)
                      else let f = a ! (row * n + col) in
                        if f = 0 then (a, inv)
                        else fold (\<lambda>k (a, inv).
                            (a[row * n + k := a ! (row * n + k) XOR mul f (a ! (col * n + k))],
                             inv[row * n + k := inv ! (row * n + k) XOR mul f (inv ! (col * n + k))]))
                          [0 ..< n] (a, inv)) [0 ..< n] m))"

primrec gf_invert_columns ::
  "nat \<Rightarrow> nat list \<Rightarrow> u16 list \<times> u16 list \<Rightarrow> repair_failure + u16 list \<times> u16 list" where
  "gf_invert_columns n [] m = Inr m"
| "gf_invert_columns n (col # cols) m = and_then (gf_invert_column n col m) (gf_invert_columns n cols)"

definition gf_invert :: "u16 list \<Rightarrow> nat \<Rightarrow> repair_failure + u16 list" where
  "gf_invert mat n =
     and_then (gf_invert_columns n [0 ..< n] (mat, identity_matrix n)) (\<lambda>(a, inv). Inr inv)"

definition gf_matmul :: "u16 list \<Rightarrow> u16 list \<Rightarrow> nat \<Rightarrow> nat \<Rightarrow> nat \<Rightarrow> u16 list" where
  "gf_matmul a b r k c =
     fold (\<lambda>i out.
       fold (\<lambda>x out.
         let av = a ! (i * k + x) in
         if av = 0 then out
         else fold (\<lambda>j out. out[i * c + j := out ! (i * c + j) XOR mul av (b ! (x * c + j))]) [0 ..< c] out)
       [0 ..< k] out)
     [0 ..< r] (replicate (r * c) 0)"

text \<open>The inner loop that fills one row with the powers of the constants of some slices.\<close>

primrec fill_powers :: "nat \<Rightarrow> u32 \<Rightarrow> u16 list \<Rightarrow> (nat \<times> nat) list \<Rightarrow> u16 list \<Rightarrow> u16 list option" where
  "fill_powers start exp constants [] m = Some m"
| "fill_powers start exp constants (jm # js) m =
     (case jm of (j, s) \<Rightarrow>
        if s < length constants
        then fill_powers start exp constants js (m[start + j := pow (constants ! s) exp])
        else None)"

primrec fill_sub :: "nat \<Rightarrow> u16 list \<Rightarrow> nat list \<Rightarrow> (nat \<times> u32) list \<Rightarrow> u16 list \<Rightarrow> u16 list option" where
  "fill_sub n constants missing [] m = Some m"
| "fill_sub n constants missing (ie # ies) m =
     (case ie of (i, exp) \<Rightarrow>
        case fill_powers (i * n) exp constants (enumerate 0 missing) m of
          None \<Rightarrow> None
        | Some m \<Rightarrow> fill_sub n constants missing ies m)"

primrec fill_pre :: "nat \<Rightarrow> u16 list \<Rightarrow> nat list \<Rightarrow> (nat \<times> u32) list \<Rightarrow> u16 list \<Rightarrow> u16 list option" where
  "fill_pre n_src constants available [] m = Some m"
| "fill_pre n_src constants available (ie # ies) m =
     (case ie of (i, exp) \<Rightarrow>
        case fill_powers (i * n_src) exp constants (enumerate 0 available) m of
          None \<Rightarrow> None
        | Some m \<Rightarrow> fill_pre n_src constants available ies
                      (m[i * n_src + length available + i := 1]))"

definition build_repair_matrix ::
  "nat list \<Rightarrow> nat list \<Rightarrow> u32 list \<Rightarrow> u16 list \<Rightarrow> repair_failure + repair_coefficients" where
  "build_repair_matrix available_indices missing_indices recovery_exponents constants =
     (let n = length missing_indices in
      if length recovery_exponents \<noteq> n then Inl (SingularMatrix None)
      else let n_avail = length available_indices; n_src = n_avail + n in
      if n = 0 then Inr \<lparr>rc_rows = 0, rc_cols = n_src, rc_data = []\<rparr>
      else case fill_sub n constants missing_indices (enumerate 0 recovery_exponents) (replicate (n * n) 0) of
          None \<Rightarrow> Inl RepairPanic
        | Some sub \<Rightarrow>
            (case fill_pre n_src constants available_indices (enumerate 0 recovery_exponents)
                (replicate (n * n_src) 0) of
               None \<Rightarrow> Inl RepairPanic
             | Some pre \<Rightarrow>
                 and_then (gf_invert sub n) (\<lambda>inv.
                   Inr \<lparr>rc_rows = n, rc_cols = n_src, rc_data = gf_matmul inv pre n n n_src\<rparr>)))"

section \<open>The inverse\<close>

lemma rep_identity: "rep Gf n n (identity_matrix n) (\<lambda>i j. if i = j then 1 else 0)"
proof -
  have "k \<le> n \<Longrightarrow> rep Gf n n (fold (\<lambda>i m. m[i * n + i := 1]) [0 ..< k] (replicate (n * n) 0))
      (\<lambda>i j. if i = j \<and> i < k then 1 else 0)" for k
  proof (induction k)
    case 0
    then show ?case by (simp add: rep_def gf_simps flat_less)
  next
    case (Suc k)
    then have "rep Gf n n (fold (\<lambda>i m. m[i * n + i := 1]) [0 ..< k] (replicate (n * n) 0))
      (\<lambda>i j. if i = j \<and> i < k then 1 else 0)" "k < n" by simp_all
    from rep_update [OF this(1) this(2) this(2), of 1] show ?case
      by (simp, elim rep_cong) (auto simp: gf_simps)
  qed
  from rep_cong [OF this [OF order_refl]] show ?thesis unfolding identity_matrix_def by simp
qed

text \<open>
  The invariant of the loop over the columns for the original matrix \<open>M\<close>: the second vector times
  \<open>M\<close> is the first, the columns already visited are those of the identity, and no solution was
  added to the homogeneous system.
\<close>

definition gj_inv :: "nat \<Rightarrow> (nat \<Rightarrow> nat \<Rightarrow> gf16) \<Rightarrow> nat \<Rightarrow> (nat \<Rightarrow> nat \<Rightarrow> gf16) \<Rightarrow> (nat \<Rightarrow> nat \<Rightarrow> gf16) \<Rightarrow> bool" where
  "gj_inv n M col A B \<longleftrightarrow>
     (\<forall>i < n. \<forall>j < n. (\<Sum>k<n. B i k * M k j) = A i j)
   \<and> (\<forall>c < col. \<forall>i < n. A i c = (if i = c then 1 else 0))
   \<and> (\<forall>x. (\<forall>i < n. (\<Sum>j<n. A i j * x j) = 0) \<longrightarrow> (\<forall>i < n. (\<Sum>j<n. M i j * x j) = 0))"

lemma gj_inv_init: "gj_inv n M 0 M (\<lambda>i j. if i = j then 1 else 0)"
  by (simp add: gj_inv_def if_distrib [where f = "\<lambda>x. x * _"] cong: if_cong)

lemma gj_inv_swap:
  assumes "gj_inv n M col A B" "col < n" "col \<le> piv" "piv < n"
  shows "gj_inv n M col (\<lambda>i. A (swap_index col piv i)) (\<lambda>i. B (swap_index col piv i))"
proof -
  have s: "swap_index col piv i < n \<longleftrightarrow> i < n" for i
    by (rule swap_index_less [OF assms(2,4)])
  have ss: "swap_index col piv (swap_index col piv i) = i" for i
    by (simp add: swap_index_def)
  have "(\<Sum>j<n. A i j * x j) = 0"
    if "\<forall>i < n. (\<Sum>j<n. A (swap_index col piv i) j * x j) = 0" "i < n" for x i
    using that(1) [rule_format, of "swap_index col piv i"] that(2) by (simp add: s ss)
  moreover have "A (swap_index col piv i) c = (if i = c then 1 else 0)" if "c < col" "i < n" for c i
  proof -
    have "A (swap_index col piv i) c = (if swap_index col piv i = c then 1 else 0)"
      using assms(1) that s [of i] by (simp add: gj_inv_def)
    also have "swap_index col piv i = c \<longleftrightarrow> i = c"
      using that assms(3) by (auto simp: swap_index_def)
    finally show ?thesis .
  qed
  ultimately show ?thesis
    using assms(1) s by (simp add: gj_inv_def)
qed

lemma gj_inv_elim:
  assumes "gj_inv n M col A B" "col < n" "A col col \<noteq> 0"
  shows "gj_inv n M (Suc col) (elim_step col col A A) (elim_step col col A B)"
  unfolding gj_inv_def
proof (intro conjI allI impI)
  fix i j assume i: "i < n" and j: "j < n"
  have "(\<Sum>k\<in>{j}. elim_step col col A A i k * 1) = (\<Sum>k<n. elim_step col col A B i k * M k j)"
    by (rule elim_step_relation [OF _ assms(2) i]) (use assms(1) j in \<open>simp add: gj_inv_def\<close>)
  then show "(\<Sum>k<n. elim_step col col A B i k * M k j) = elim_step col col A A i j"
    by simp
next
  fix c i assume c: "c < Suc col" and i: "i < n"
  show "elim_step col col A A i c = (if i = c then 1 else 0)"
  proof (cases "c = col")
    case True
    then show ?thesis using elim_step_pivot [of A col col i] assms(3) by simp
  next
    case False
    then have "A i' c = (if i' = c then 1 else 0)" if "i' < n" for i'
      using assms(1) c that by (simp add: gj_inv_def)
    then show ?thesis
      using elim_step_other [of A col c col i] i False assms(2) by simp
  qed
next
  fix x i assume "\<forall>i < n. (\<Sum>j<n. elim_step col col A A i j * x j) = 0" and i: "i < n"
  then have "(\<Sum>j<n. A i j * x j) = 0" if "i < n" for i
    using elim_step_kernel [of A col col n x "{..<n}" i] assms(2,3) that by simp
  then show "(\<Sum>j<n. M i j * x j) = 0"
    using assms(1) i by (simp add: gj_inv_def)
qed

lemma gj_inv_stuck:
  assumes "gj_inv n M col A B" "col < n" "\<And>r. col \<le> r \<Longrightarrow> r < n \<Longrightarrow> A r col = 0"
  shows "\<exists>x. x col \<noteq> 0 \<and> (\<forall>i < n. (\<Sum>j<n. M i j * x j) = 0)"
proof -
  define x where "x j = (if j < col then A j col else if j = col then 1 else 0)" for j
  have "(\<Sum>j<n. A i j * x j) = 0" if i: "i < n" for i
  proof -
    have "(\<Sum>j<n. A i j * x j) = (\<Sum>j<Suc col. A i j * x j)"
      by (rule sum.mono_neutral_right) (use assms(2) in \<open>auto simp: x_def\<close>)
    also have "\<dots> = (\<Sum>j<col. (if i = j then A j col else 0)) + A i col"
      using assms(1) i by (simp add: x_def gj_inv_def if_distrib [where f = "\<lambda>y. y * _"] cong: if_cong)
    also have "\<dots> = 0"
      using assms(3) [of i] i by simp
    finally show ?thesis .
  qed
  then have "\<forall>i < n. (\<Sum>j<n. M i j * x j) = 0"
    using assms(1) by (simp add: gj_inv_def)
  moreover have "x col \<noteq> 0" by (simp add: x_def)
  ultimately show ?thesis by blast
qed

lemma find_upt_None: "List.find P [a ..< b] = None \<longleftrightarrow> (\<forall>r. a \<le> r \<and> r < b \<longrightarrow> \<not> P r)"
  by (auto simp: find_None_iff)

lemma find_upt_Some: "List.find P [a ..< b] = Some r \<Longrightarrow> a \<le> r \<and> r < b \<and> P r"
  by (auto simp: find_Some_iff)

lemma gf_invert_column_spec:
  assumes "rep Gf n n a A" "rep Gf n n b B" "gj_inv n M col A B" "col < n"
  shows "(\<exists>a' b' A' B'. gf_invert_column n col (a, b) = Inr (a', b')
      \<and> rep Gf n n a' A' \<and> rep Gf n n b' B' \<and> gj_inv n M (Suc col) A' B')
    \<or> (gf_invert_column n col (a, b) = Inl (SingularMatrix (Some col))
      \<and> (\<exists>x. x col \<noteq> 0 \<and> (\<forall>i < n. (\<Sum>j<n. M i j * x j) = 0)))"
proof (cases "List.find (\<lambda>r. a ! (r * n + col) \<noteq> 0) [col ..< n]")
  case None
  then have "A r col = 0" if "col \<le> r" "r < n" for r
    using rep_nth [OF assms(1) that(2) assms(4)] that by (simp add: find_upt_None gf_simps)
  then show ?thesis
    using None gj_inv_stuck [OF assms(3,4)] by (simp add: gf_invert_column_def)
next
  case (Some piv)
  then have piv: "col \<le> piv" "piv < n" "a ! (piv * n + col) \<noteq> 0"
    by (auto dest: find_upt_Some)
  let ?sw = "\<lambda>m. fold (\<lambda>k m. swap_at m (col * n + k) (piv * n + k)) [0 ..< n] m"
  define a1 where "a1 = (if piv \<noteq> col then ?sw a else a)"
  define b1 where "b1 = (if piv \<noteq> col then ?sw b else b)"
  define A1 where "A1 i = A (swap_index col piv i)" for i
  define B1 where "B1 i = B (swap_index col piv i)" for i
  have a1: "rep Gf n n a1 A1" "rep Gf n n b1 B1"
    using rep_swap_loop [OF assms(1,4) piv(2)] rep_swap_loop [OF assms(2,4) piv(2)] assms(1,2)
    unfolding a1_def b1_def A1_def [abs_def] B1_def [abs_def]
    by (auto simp: swap_index_def cong: if_cong)
  have inv: "gj_inv n M col A1 B1"
    unfolding A1_def [abs_def] B1_def [abs_def]
    by (rule gj_inv_swap [OF assms(3,4) piv(1,2)])
  have nz: "A1 col col \<noteq> 0"
    using rep_nth [OF assms(1) piv(2) assms(4)] piv(3) by (simp add: A1_def swap_index_def flip: Gf_eq_0_iff)
  then obtain c where c: "inv_gf (a1 ! (col * n + col)) = Some c" "Gf c = inverse (A1 col col)"
    using gf.inv_w_nonzero [of "a1 ! (col * n + col)"] rep_nth [OF a1(1) assms(4,4)] by auto
  show ?thesis
    using gf.eliminate [OF a1 assms(4,4) c(2)] gj_inv_elim [OF inv assms(4) nz] Some c(1)
    by (auto simp: gf_invert_column_def fold_pair a1_def b1_def Let_def)
qed

lemma gf_invert_columns_spec:
  assumes "rep Gf n n a A" "rep Gf n n b B" "gj_inv n M col A B" "col \<le> n"
  shows "(\<exists>a' b' A' B'. gf_invert_columns n [col ..< n] (a, b) = Inr (a', b')
      \<and> rep Gf n n a' A' \<and> rep Gf n n b' B' \<and> gj_inv n M n A' B')
    \<or> (\<exists>c x. gf_invert_columns n [col ..< n] (a, b) = Inl (SingularMatrix (Some c))
      \<and> c < n \<and> x c \<noteq> 0 \<and> (\<forall>i < n. (\<Sum>j<n. M i j * x j) = 0))"
  using assms
proof (induction "n - col" arbitrary: col a b A B)
  case 0
  then show ?case by auto
next
  case (Suc m)
  then have col: "col < n" "[col ..< n] = col # [Suc col ..< n]" by (simp_all add: upt_conv_Cons)
  from gf_invert_column_spec [OF Suc.prems(1-3) col(1)] show ?case
  proof (elim disjE exE conjE)
    fix a' b' A' B'
    assume step: "gf_invert_column n col (a, b) = Inr (a', b')"
      and st: "rep Gf n n a' A'" "rep Gf n n b' B'" "gj_inv n M (Suc col) A' B'"
    show ?thesis
      using Suc.hyps(1) [OF _ st] Suc.hyps(2) col step by (simp add: and_then_def)
  next
    fix x assume "gf_invert_column n col (a, b) = Inl (SingularMatrix (Some col))"
      "x col \<noteq> 0" "\<forall>i < n. (\<Sum>j<n. M i j * x j) = 0"
    then have "gf_invert_columns n [col ..< n] (a, b) = Inl (SingularMatrix (Some col))
      \<and> col < n \<and> x col \<noteq> 0 \<and> (\<forall>i < n. (\<Sum>j<n. M i j * x j) = 0)"
      using col by (simp add: and_then_def)
    then show ?thesis by blast
  qed
qed

lemma gf_invert_spec:
  assumes "rep Gf n n m M"
  shows "(\<exists>b B. gf_invert m n = Inr b \<and> rep Gf n n b B
      \<and> (\<forall>i < n. \<forall>j < n. (\<Sum>k<n. B i k * M k j) = (if i = j then 1 else 0)))
    \<or> (\<exists>c x. gf_invert m n = Inl (SingularMatrix (Some c))
      \<and> c < n \<and> x c \<noteq> 0 \<and> (\<forall>i < n. (\<Sum>j<n. M i j * x j) = 0))"
  using gf_invert_columns_spec [OF assms rep_identity gj_inv_init le0]
proof (elim disjE exE conjE)
  fix a' b' A' B'
  assume "gf_invert_columns n [0 ..< n] (m, identity_matrix n) = Inr (a', b')"
    and b': "rep Gf n n b' B'" and inv: "gj_inv n M n A' B'"
  then have "gf_invert m n = Inr b'" by (simp add: gf_invert_def and_then_def)
  moreover have "\<forall>i < n. \<forall>j < n. (\<Sum>k<n. B' i k * M k j) = (if i = j then 1 else 0)"
    using inv by (simp add: gj_inv_def del: if_split)
  ultimately show ?thesis using b' by blast
qed (auto simp: gf_invert_def and_then_def)

section \<open>The product\<close>

lemma rep_accumulate:
  assumes "rep Gf r c out F" "i < r" "rep Gf k c b B" "x < k"
  shows "rep Gf r c (fold (\<lambda>j out. out[i * c + j := out ! (i * c + j) XOR mul av (b ! (x * c + j))]) [0 ..< c] out)
    (\<lambda>i' j. if i' = i then F i j + Gf av * B x j else F i' j)"
  by (rule rep_row_loop [OF assms(1,2)])
     (use assms in \<open>simp add: rep_nth gf.emb_add gf.emb_mul\<close>)

lemma rep_matmul_row:
  assumes "rep Gf r c out F" "i < r" "rep Gf r k a A" "rep Gf k c b B" "x \<le> k"
  shows "rep Gf r c (fold (\<lambda>x out. let av = a ! (i * k + x) in
         if av = 0 then out
         else fold (\<lambda>j out. out[i * c + j := out ! (i * c + j) XOR mul av (b ! (x * c + j))]) [0 ..< c] out)
       [0 ..< x] out)
    (\<lambda>i' j. if i' = i then F i j + (\<Sum>y<x. A i y * B y j) else F i' j)"
  using assms(5)
proof (induction x)
  case 0 then show ?case using assms(1) by (auto elim: rep_cong)
next
  case (Suc x)
  let ?out = "fold (\<lambda>x out. let av = a ! (i * k + x) in
         if av = 0 then out
         else fold (\<lambda>j out. out[i * c + j := out ! (i * c + j) XOR mul av (b ! (x * c + j))]) [0 ..< c] out)
       [0 ..< x] out"
  have IH: "rep Gf r c ?out (\<lambda>i' j. if i' = i then F i j + (\<Sum>y<x. A i y * B y j) else F i' j)"
    and x: "x < k" using Suc by simp_all
  have av: "Gf (a ! (i * k + x)) = A i x" by (rule rep_nth [OF assms(3,2) x])
  show ?case
  proof (cases "a ! (i * k + x) = 0")
    case True
    then have "A i x = 0" using av by (simp add: gf_simps)
    then show ?thesis using True by (simp, intro rep_cong [OF IH]) simp
  next
    case False
    then show ?thesis
      using rep_accumulate [OF IH assms(2,4) x, of "a ! (i * k + x)"]
      by (simp add: Let_def, elim rep_cong) (simp add: av add.assoc)
  qed
qed

lemma rep_matmul:
  assumes "rep Gf r k a A" "rep Gf k c b B"
  shows "rep Gf r c (gf_matmul a b r k c) (\<lambda>i j. \<Sum>y<k. A i y * B y j)"
proof -
  let ?row = "\<lambda>i out. fold (\<lambda>x out. let av = a ! (i * k + x) in
         if av = 0 then out
         else fold (\<lambda>j out. out[i * c + j := out ! (i * c + j) XOR mul av (b ! (x * c + j))]) [0 ..< c] out)
       [0 ..< k] out"
  have "i \<le> r \<Longrightarrow> rep Gf r c (fold ?row [0 ..< i] (replicate (r * c) 0))
      (\<lambda>i' j. if i' < i then (\<Sum>y<k. A i' y * B y j) else 0)" for i
  proof (induction i)
    case 0 then show ?case by (simp add: rep_def gf_simps flat_less)
  next
    case (Suc i)
    then have IH: "rep Gf r c (fold ?row [0 ..< i] (replicate (r * c) 0))
      (\<lambda>i' j. if i' < i then (\<Sum>y<k. A i' y * B y j) else 0)" and i: "i < r" by simp_all
    from rep_matmul_row [OF IH i assms order_refl] show ?case
      by (simp, elim rep_cong) (auto simp: less_Suc_eq)
  qed
  from rep_cong [OF this [OF order_refl]] show ?thesis unfolding gf_matmul_def by simp
qed

section \<open>The coefficients\<close>

lemma rep_fill_powers:
  assumes "rep Gf R w m F" "i < R" "k + length xs \<le> w" "\<forall>s \<in> set xs. s < length constants"
  shows "\<exists>m'. fill_powers (i * w) exp constants (enumerate k xs) m = Some m'
    \<and> rep Gf R w m' (\<lambda>i' j. if i' = i \<and> k \<le> j \<and> j < k + length xs
        then Gf (constants ! (xs ! (j - k))) ^ unat exp else F i' j)"
  using assms(1,3,4)
proof (induction xs arbitrary: k m F)
  case Nil
  have "rep Gf R w m (\<lambda>i' j. if i' = i \<and> k \<le> j \<and> j < k then Gf (constants ! ([] ! (j - k))) ^ unat exp else F i' j)"
    by (rule rep_cong [OF Nil.prems(1)]) auto
  then show ?case by simp
next
  case (Cons s xs)
  have k: "k < w" using Cons.prems(2) by simp
  have "rep Gf R w (m[i * w + k := pow (constants ! s) exp])
      (\<lambda>i' j. if i' = i \<and> j = k then Gf (constants ! s) ^ unat exp else F i' j)"
    using rep_update [OF Cons.prems(1) assms(2) k, of "pow (constants ! s) exp"]
    by (simp only: pow_gpow gf_simps)
  from Cons.IH [OF this, of "Suc k"] Cons.prems obtain m' where
    m': "fill_powers (i * w) exp constants (enumerate (Suc k) xs) (m[i * w + k := pow (constants ! s) exp]) = Some m'"
    "rep Gf R w m' (\<lambda>i' j. if i' = i \<and> Suc k \<le> j \<and> j < Suc k + length xs
        then Gf (constants ! (xs ! (j - Suc k))) ^ unat exp
        else if i' = i \<and> j = k then Gf (constants ! s) ^ unat exp else F i' j)"
    by auto
  have "rep Gf R w m' (\<lambda>i' j. if i' = i \<and> k \<le> j \<and> j < k + length (s # xs)
        then Gf (constants ! ((s # xs) ! (j - k))) ^ unat exp else F i' j)"
    by (rule rep_cong [OF m'(2)]) (auto simp: nth_Cons' le_Suc_eq Suc_le_eq)
  then show ?case using m'(1) Cons.prems(3) by simp
qed

lemma rep_fill_powers_0:
  assumes "rep Gf R w m F" "i < R" "length xs \<le> w" "\<forall>s \<in> set xs. s < length constants"
  obtains m' where "fill_powers (i * w) exp constants (enumerate 0 xs) m = Some m'"
    "rep Gf R w m' (\<lambda>i' j. if i' = i \<and> j < length xs
        then Gf (constants ! (xs ! j)) ^ unat exp else F i' j)"
proof -
  obtain m' where m': "fill_powers (i * w) exp constants (enumerate 0 xs) m = Some m'"
    "rep Gf R w m' (\<lambda>i' j. if i' = i \<and> 0 \<le> j \<and> j < 0 + length xs
        then Gf (constants ! (xs ! (j - 0))) ^ unat exp else F i' j)"
    using rep_fill_powers [OF assms(1,2) _ assms(4), of 0] assms(3) by auto
  show thesis by (rule that [OF m'(1)], rule rep_cong [OF m'(2)]) simp
qed

lemma fill_powers_panics:
  "fill_powers start exp constants (enumerate k xs) m = None \<longleftrightarrow> (\<exists>s \<in> set xs. length constants \<le> s)"
  by (induction xs arbitrary: k m) auto

lemma rep_fill_sub:
  assumes "\<forall>s \<in> set missing. s < length constants" "length missing = n"
    and "rep Gf n n m F" "k + length exps \<le> n"
  shows "\<exists>m'. fill_sub n constants missing (enumerate k exps) m = Some m'
    \<and> rep Gf n n m' (\<lambda>i j. if k \<le> i \<and> i < k + length exps
        then Gf (constants ! (missing ! j)) ^ unat (exps ! (i - k)) else F i j)"
  using assms(3,4)
proof (induction exps arbitrary: k m F)
  case Nil
  have "rep Gf n n m (\<lambda>i j. if k \<le> i \<and> i < k then Gf (constants ! (missing ! j)) ^ unat ([] ! (i - k)) else F i j)"
    by (rule rep_cong [OF Nil.prems(1)]) auto
  then show ?case by simp
next
  case (Cons e exps)
  have k: "k < n" using Cons.prems(2) by simp
  obtain m1 where m1: "fill_powers (k * n) e constants (enumerate 0 missing) m = Some m1"
    "rep Gf n n m1 (\<lambda>i j. if i = k \<and> j < length missing then Gf (constants ! (missing ! j)) ^ unat e else F i j)"
    by (rule rep_fill_powers_0 [OF Cons.prems(1) k _ assms(1)]) (use assms(2) in auto)
  from Cons.IH [OF m1(2), of "Suc k"] Cons.prems(2) obtain m' where
    m': "fill_sub n constants missing (enumerate (Suc k) exps) m1 = Some m'"
    "rep Gf n n m' (\<lambda>i j. if Suc k \<le> i \<and> i < Suc k + length exps
        then Gf (constants ! (missing ! j)) ^ unat (exps ! (i - Suc k))
        else if i = k \<and> j < length missing then Gf (constants ! (missing ! j)) ^ unat e else F i j)"
    by auto
  have "rep Gf n n m' (\<lambda>i j. if k \<le> i \<and> i < k + length (e # exps)
        then Gf (constants ! (missing ! j)) ^ unat ((e # exps) ! (i - k)) else F i j)"
    by (rule rep_cong [OF m'(2)]) (use assms(2) in \<open>auto simp: nth_Cons' le_Suc_eq Suc_le_eq\<close>)
  then show ?case using m'(1) m1(1) by simp
qed

lemma rep_fill_pre:
  assumes "\<forall>s \<in> set available. s < length constants" "length available + n = n_src"
    and "rep Gf n n_src m F" "k + length exps \<le> n"
  shows "\<exists>m'. fill_pre n_src constants available (enumerate k exps) m = Some m'
    \<and> rep Gf n n_src m' (\<lambda>i j. if k \<le> i \<and> i < k + length exps
        then (if j < length available then Gf (constants ! (available ! j)) ^ unat (exps ! (i - k))
              else if j = length available + i then 1 else F i j)
        else F i j)"
  using assms(3,4)
proof (induction exps arbitrary: k m F)
  case Nil
  have "rep Gf n n_src m (\<lambda>i j. if k \<le> i \<and> i < k
        then (if j < length available then Gf (constants ! (available ! j)) ^ unat ([] ! (i - k))
              else if j = length available + i then 1 else F i j)
        else F i j)"
    by (rule rep_cong [OF Nil.prems(1)]) auto
  then show ?case by simp
next
  case (Cons e exps)
  have k: "k < n" "length available + k < n_src" using Cons.prems(2) assms(2) by simp_all
  obtain m1 where m1: "fill_powers (k * n_src) e constants (enumerate 0 available) m = Some m1"
    "rep Gf n n_src m1 (\<lambda>i j. if i = k \<and> j < length available
       then Gf (constants ! (available ! j)) ^ unat e else F i j)"
    by (rule rep_fill_powers_0 [OF Cons.prems(1) k(1) _ assms(1)]) (use assms(2) in auto)
  from Cons.IH [OF rep_update [OF m1(2) k, of 1], of "Suc k"] Cons.prems(2) obtain m' where
    m': "fill_pre n_src constants available (enumerate (Suc k) exps)
        (m1[k * n_src + length available + k := 1]) = Some m'"
    "rep Gf n n_src m' (\<lambda>i j. if Suc k \<le> i \<and> i < Suc k + length exps
        then (if j < length available then Gf (constants ! (available ! j)) ^ unat (exps ! (i - Suc k))
              else if j = length available + i then 1
              else if i = k \<and> j = length available + k then Gf 1
              else if i = k \<and> j < length available then Gf (constants ! (available ! j)) ^ unat e
              else F i j)
        else if i = k \<and> j = length available + k then Gf 1
        else if i = k \<and> j < length available then Gf (constants ! (available ! j)) ^ unat e else F i j)"
    by (auto simp: add.assoc)
  have "rep Gf n n_src m' (\<lambda>i j. if k \<le> i \<and> i < k + length (e # exps)
        then (if j < length available then Gf (constants ! (available ! j)) ^ unat ((e # exps) ! (i - k))
              else if j = length available + i then 1 else F i j)
        else F i j)"
    by (rule rep_cong [OF m'(2)]) (auto simp: nth_Cons' le_Suc_eq Suc_le_eq gf_simps)
  then show ?case using m'(1) m1(1) by simp
qed

lemma rep_zeros: "rep Gf R w (replicate (R * w) 0) (\<lambda>i j. 0)"
  by (simp add: rep_def gf_simps flat_less)

definition sub_matrix :: "u16 list \<Rightarrow> nat list \<Rightarrow> u32 list \<Rightarrow> nat \<Rightarrow> nat \<Rightarrow> gf16" where
  "sub_matrix constants missing exps i j = Gf (constants ! (missing ! j)) ^ unat (exps ! i)"

definition pre_matrix :: "u16 list \<Rightarrow> nat list \<Rightarrow> u32 list \<Rightarrow> nat \<Rightarrow> nat \<Rightarrow> gf16" where
  "pre_matrix constants available exps i j =
     (if j < length available then Gf (constants ! (available ! j)) ^ unat (exps ! i)
      else if j = length available + i then 1 else 0)"

lemma build_repair_matrix_spec:
  fixes available missing :: "nat list"
  defines "n \<equiv> length missing" and "n_src \<equiv> length available + length missing"
  assumes "length exps = n" "n \<noteq> 0"
    and "\<forall>s \<in> set available. s < length constants" "\<forall>s \<in> set missing. s < length constants"
  shows "(\<exists>rc B. build_repair_matrix available missing exps constants = Inr rc
      \<and> rc_rows rc = n \<and> rc_cols rc = n_src
      \<and> rep Gf n n_src (rc_data rc) (\<lambda>i j. \<Sum>y<n. B i y * pre_matrix constants available exps y j)
      \<and> (\<forall>i < n. \<forall>j < n. (\<Sum>k<n. B i k * sub_matrix constants missing exps k j) = (if i = j then 1 else 0)))
    \<or> (\<exists>c x. build_repair_matrix available missing exps constants = Inl (SingularMatrix (Some c))
      \<and> c < n \<and> x c \<noteq> 0 \<and> (\<forall>i < n. (\<Sum>j<n. sub_matrix constants missing exps i j * x j) = 0))"
proof -
  obtain sub where sub: "fill_sub n constants missing (enumerate 0 exps) (replicate (n * n) 0) = Some sub"
      "rep Gf n n sub (\<lambda>i j. if 0 \<le> i \<and> i < 0 + length exps
        then Gf (constants ! (missing ! j)) ^ unat (exps ! (i - 0)) else 0)"
    using rep_fill_sub [OF assms(6) _ rep_zeros, of n 0 exps] assms(3) by (auto simp: n_def)
  have sub': "rep Gf n n sub (sub_matrix constants missing exps)"
    by (rule rep_cong [OF sub(2)]) (simp add: sub_matrix_def assms(3))
  obtain pre where pre: "fill_pre n_src constants available (enumerate 0 exps) (replicate (n * n_src) 0) = Some pre"
      "rep Gf n n_src pre (\<lambda>i j. if 0 \<le> i \<and> i < 0 + length exps
        then (if j < length available then Gf (constants ! (available ! j)) ^ unat (exps ! (i - 0))
              else if j = length available + i then 1 else 0)
        else 0)"
    using rep_fill_pre [OF assms(5) _ rep_zeros, of n n_src 0 exps] assms(3)
    by (auto simp: n_def n_src_def)
  have pre': "rep Gf n n_src pre (pre_matrix constants available exps)"
    by (rule rep_cong [OF pre(2)]) (simp add: pre_matrix_def assms(3))
  have eq: "build_repair_matrix available missing exps constants =
      and_then (gf_invert sub n) (\<lambda>inv. Inr \<lparr>rc_rows = n, rc_cols = n_src, rc_data = gf_matmul inv pre n n n_src\<rparr>)"
    using sub(1) pre(1) assms(3,4) by (simp add: build_repair_matrix_def Let_def n_def n_src_def)
  from gf_invert_spec [OF sub'] show ?thesis
  proof (elim disjE exE conjE)
    fix b B assume b: "gf_invert sub n = Inr b" "rep Gf n n b B"
      "\<forall>i < n. \<forall>j < n. (\<Sum>k<n. B i k * sub_matrix constants missing exps k j) = (if i = j then 1 else 0)"
    show ?thesis
      by (rule disjI1, rule exI [of _ "\<lparr>rc_rows = n, rc_cols = n_src, rc_data = gf_matmul b pre n n n_src\<rparr>"],
          rule exI [of _ B])
         (use b eq rep_matmul [OF b(2) pre'] in \<open>simp add: and_then_def\<close>)
  next
    fix c x assume "gf_invert sub n = Inl (SingularMatrix (Some c))" "c < n" "x c \<noteq> 0"
      "\<forall>i < n. (\<Sum>j<n. sub_matrix constants missing exps i j * x j) = 0"
    then have "build_repair_matrix available missing exps constants = Inl (SingularMatrix (Some c))
      \<and> c < n \<and> x c \<noteq> 0 \<and> (\<forall>i < n. (\<Sum>j<n. sub_matrix constants missing exps i j * x j) = 0)"
      using eq by (simp add: and_then_def)
    then show ?thesis by blast
  qed
qed

lemma fill_sub_panics:
  "exps \<noteq> [] \<Longrightarrow> fill_sub n constants missing (enumerate k exps) m = None
     \<longleftrightarrow> (\<exists>s \<in> set missing. length constants \<le> s)"
proof (induction exps arbitrary: k m)
  case (Cons e exps)
  show ?case
  proof (cases "fill_powers (k * n) e constants (enumerate 0 missing) m")
    case None
    then have "\<exists>s \<in> set missing. length constants \<le> s"
      by (simp only: fill_powers_panics)
    then show ?thesis using None by simp
  next
    case (Some m1)
    then have "\<not> (\<exists>s \<in> set missing. length constants \<le> s)"
      using fill_powers_panics [of "k * n" e constants 0 missing m] by simp
    then show ?thesis using Some Cons.IH [of "Suc k" m1] by (cases exps) auto
  qed
qed simp

lemma fill_pre_panics:
  "exps \<noteq> [] \<Longrightarrow> fill_pre n_src constants available (enumerate k exps) m = None
     \<longleftrightarrow> (\<exists>s \<in> set available. length constants \<le> s)"
proof (induction exps arbitrary: k m)
  case (Cons e exps)
  show ?case
  proof (cases "fill_powers (k * n_src) e constants (enumerate 0 available) m")
    case None
    then have "\<exists>s \<in> set available. length constants \<le> s"
      by (simp only: fill_powers_panics)
    then show ?thesis using None by simp
  next
    case (Some m1)
    then have "\<not> (\<exists>s \<in> set available. length constants \<le> s)"
      using fill_powers_panics [of "k * n_src" e constants 0 available m] by simp
    then show ?thesis
      using Some Cons.IH [of "Suc k" "m1[k * n_src + length available + k := 1]"] by (cases exps) auto
  qed
qed simp

lemma build_repair_matrix_in_range:
  assumes "build_repair_matrix available missing exps constants \<noteq> Inl RepairPanic"
    "length exps = length missing" "missing \<noteq> []"
  shows "\<forall>s \<in> set available. s < length constants" "\<forall>s \<in> set missing. s < length constants"
proof -
  have "exps \<noteq> []" using assms(2,3) by auto
  then show "\<forall>s \<in> set available. s < length constants" "\<forall>s \<in> set missing. s < length constants"
    using assms fill_sub_panics [of exps "length missing" constants missing 0 "replicate (length missing * length missing) 0"]
      fill_pre_panics [of exps "length available + length missing" constants available 0
        "replicate (length missing * (length available + length missing)) 0"]
    by (auto simp: build_repair_matrix_def Let_def not_le split: option.splits)
qed

section \<open>Rebuilding slices\<close>

text \<open>
  What the coefficients are for, one word position at a time. A recovery block is the sum of all
  input slices, each times the power of its constant; an output is the sum of the sources, each
  times its coefficient.
\<close>

definition recovery_word :: "u16 list \<Rightarrow> u16 list \<Rightarrow> u32 \<Rightarrow> u16" where
  "recovery_word constants slices exp =
     foldr (XOR) (map (\<lambda>s. mul (pow (constants ! s) exp) (slices ! s)) [0 ..< length slices]) 0"

definition rebuilt_word :: "repair_coefficients \<Rightarrow> u16 list \<Rightarrow> nat \<Rightarrow> u16 option" where
  "rebuilt_word rc sources r =
     map_option (\<lambda>row. foldr (XOR) (map2 mul row sources) 0) (rc_row rc r)"

lemma Gf_recovery_word:
  "Gf (recovery_word constants slices exp)
     = (\<Sum>s<length slices. Gf (constants ! s) ^ unat exp * Gf (slices ! s))"
  unfolding recovery_word_def gf.emb_sum_list
  by (simp add: o_def gf.emb_mul pow_gpow Gf_gpow interv_sum_list_conv_sum_set_nat atLeast0LessThan)

lemma rebuilt_word_sum:
  assumes "rep Gf (rc_rows rc) (rc_cols rc) (rc_data rc) C" "r < rc_rows rc"
    "length sources = rc_cols rc"
  obtains w where "rebuilt_word rc sources r = Some w"
    "Gf w = (\<Sum>j<rc_cols rc. C r j * Gf (sources ! j))"
proof -
  let ?n = "rc_cols rc" let ?row = "take ?n (drop (r * ?n) (rc_data rc))"
  have len: "r * ?n + ?n \<le> length (rc_data rc)"
    using rep_length [OF assms(1)] assms(2) mult_le_mono1 [of "Suc r" "rc_rows rc" ?n] by simp
  then have row: "rc_row rc r = Some ?row"
    by (simp add: rc_row_def slice_def Let_def)
  have lrow: "length ?row = ?n" using len by simp
  have "sum_list (map Gf (map2 mul ?row sources)) = (\<Sum>j<?n. Gf (mul (?row ! j) (sources ! j)))"
    using lrow assms(3) by (simp add: sum_list_sum_nth atLeast0LessThan)
  also have "\<dots> = (\<Sum>j<?n. C r j * Gf (sources ! j))"
    using rep_nth [OF assms(1,2)] len by (intro sum.cong) (simp_all add: gf.emb_mul)
  finally have "Gf (foldr (XOR) (map2 mul ?row sources) 0) = (\<Sum>j<?n. C r j * Gf (sources ! j))"
    by (simp only: gf.emb_sum_list)
  then show thesis by (rule that [rotated]) (simp add: rebuilt_word_def row)
qed

lemma pre_matrix_sources:
  assumes "length available + n = n_src" "length exps = n" "i < n"
    and "distinct (available @ missing)" "set (available @ missing) = {..< length slices}"
  shows "(\<Sum>j<n_src. pre_matrix constants available exps i j
      * Gf ((map ((!) slices) available @ map (recovery_word constants slices) exps) ! j))
    = (\<Sum>l<length missing. sub_matrix constants missing exps i l * Gf (slices ! (missing ! l)))"
  (is "(\<Sum>j<n_src. ?p j * Gf (?s ! j)) = _")
proof -
  let ?f = "\<lambda>s. Gf (constants ! s) ^ unat (exps ! i) * Gf (slices ! s)"
  have split: "{..<n_src} = {..<length available} \<union> {length available ..< n_src}"
    using assms(1) by auto
  have "(\<Sum>j<n_src. ?p j * Gf (?s ! j))
      = (\<Sum>j<length available. ?p j * Gf (?s ! j)) + (\<Sum>j = length available..<n_src. ?p j * Gf (?s ! j))"
    unfolding split by (rule sum.union_disjoint) auto
  also have "(\<Sum>j<length available. ?p j * Gf (?s ! j)) = (\<Sum>s\<in>set available. ?f s)"
    using assms(4) by (simp add: pre_matrix_def nth_append sum.distinct_set_conv_list
        sum_list_sum_nth atLeast0LessThan)
  also have "(\<Sum>j = length available..<n_src. ?p j * Gf (?s ! j))
      = (\<Sum>j\<in>{length available + i}. ?p j * Gf (?s ! j))"
    by (rule sum.mono_neutral_right) (use assms(1,3) in \<open>auto simp: pre_matrix_def\<close>)
  also have "\<dots> = Gf (recovery_word constants slices (exps ! i))"
    using assms(2,3) by (simp add: pre_matrix_def nth_append)
  also have "\<dots> = (\<Sum>s\<in>set (available @ missing). ?f s)"
    unfolding assms(5) by (rule Gf_recovery_word)
  also have "\<dots> = (\<Sum>s\<in>set available. ?f s) + (\<Sum>s\<in>set missing. ?f s)"
    using assms(4) by (simp add: sum.union_disjoint)
  finally have "(\<Sum>j<n_src. ?p j * Gf (?s ! j)) = (\<Sum>s\<in>set missing. ?f s)"
    by (simp flip: add.assoc)
  then show ?thesis
    using assms(4) by (simp add: sub_matrix_def sum.distinct_set_conv_list sum_list_sum_nth atLeast0LessThan)
qed

lemma build_repair_matrix_length: "build_repair_matrix available missing exps constants = Inr rc
    \<Longrightarrow> length exps = length missing"
  by (simp add: build_repair_matrix_def Let_def split: if_splits)

lemma input_slice_constants_SomeD:
  assumes "input_slice_constants count = Some constants"
  shows "length constants = count" "distinct constants" "0 \<notin> set constants"
proof -
  have c: "constants = map xp (take count full_order_exponents)" "count \<le> 32768"
    using assms by (auto simp: input_slice_constants_eq split: if_splits)
  have "distinct full_order_exponents" by (simp add: full_order_exponents_def)
  then show "distinct constants"
    by (simp add: c distinct_map inj_on_subset [OF full_order_exponents_inj] set_take_subset)
  show "length constants = count" using c(2) by (simp add: c(1) length_full_order_exponents)
  show "0 \<notin> set constants" by (auto simp: c(1))
qed

section \<open>Properties\<close>

text \<open>C1: Applied to the surviving slices and to the recovery blocks of the chosen exponents, the
  coefficients rebuild every missing slice exactly.\<close>
theorem build_repair_matrix_rebuilds:
  assumes "build_repair_matrix available missing exps constants = Inr rc"
    and "distinct (available @ missing)" "set (available @ missing) = {..< length slices}"
  shows "map (rebuilt_word rc (map ((!) slices) available @ map (recovery_word constants slices) exps))
      [0 ..< length missing] = map (\<lambda>m. Some (slices ! m)) missing"
proof (cases "missing = []")
  case False
  let ?n = "length missing" and ?src = "map ((!) slices) available @ map (recovery_word constants slices) exps"
  have len: "length exps = ?n" by (rule build_repair_matrix_length [OF assms(1)])
  have range: "\<forall>s \<in> set available. s < length constants" "\<forall>s \<in> set missing. s < length constants"
    using build_repair_matrix_in_range [of available missing exps constants] assms(1) len False by simp_all
  obtain B where rc: "rc_rows rc = ?n" "rc_cols rc = length available + ?n"
    and C: "rep Gf ?n (length available + ?n) (rc_data rc)
      (\<lambda>i j. \<Sum>y<?n. B i y * pre_matrix constants available exps y j)"
    and B: "\<forall>i < ?n. \<forall>j < ?n. (\<Sum>k<?n. B i k * sub_matrix constants missing exps k j) = (if i = j then 1 else 0)"
    using build_repair_matrix_spec [OF len _ range] assms(1) False by auto
  have "rebuilt_word rc ?src r = Some (slices ! (missing ! r))" if r: "r < ?n" for r
  proof -
    obtain w where w: "rebuilt_word rc ?src r = Some w"
      "Gf w = (\<Sum>j<length available + ?n. (\<Sum>y<?n. B r y * pre_matrix constants available exps y j) * Gf (?src ! j))"
      using rebuilt_word_sum [of rc _ r ?src] C r by (auto simp: rc len)
    note w(2)
    also have "(\<Sum>j<length available + ?n. (\<Sum>y<?n. B r y * pre_matrix constants available exps y j) * Gf (?src ! j))
        = (\<Sum>y<?n. B r y * (\<Sum>j<length available + ?n. pre_matrix constants available exps y j * Gf (?src ! j)))"
      by (simp add: sum_distrib_left sum_distrib_right mult.assoc) (rule sum.swap)
    also have "\<dots> = (\<Sum>y<?n. B r y * (\<Sum>l<?n. sub_matrix constants missing exps y l * Gf (slices ! (missing ! l))))"
      using pre_matrix_sources [OF refl len _ assms(2,3)] by (intro sum.cong) simp_all
    also have "\<dots> = (\<Sum>l<?n. (\<Sum>y<?n. B r y * sub_matrix constants missing exps y l) * Gf (slices ! (missing ! l)))"
      by (simp add: sum_distrib_left sum_distrib_right mult.assoc) (rule sum.swap)
    also have "\<dots> = (\<Sum>l<?n. if r = l then Gf (slices ! (missing ! l)) else 0)"
      using B r by (intro sum.cong) simp_all
    finally show ?thesis using w(1) r by simp
  qed
  then show ?thesis by (intro nth_equalityI) simp_all
qed simp

theorem build_repair_matrix_rebuilds_witness:
  "\<exists>rc. build_repair_matrix [0] [1] [1] [2, 4] = Inr rc
    \<and> map (rebuilt_word rc ([0x1234] @ map (recovery_word [2, 4] [0x1234, 0xABCD]) [1])) [0] = [Some 0xABCD]"
proof -
  obtain rc where rc: "build_repair_matrix [0] [1] [1] [2, 4] = Inr rc"
    using build_repair_matrix_spec [of "[1]" "[1]" "[0]" "[2, 4]"] by (auto simp: sub_matrix_def)
  have "distinct ([0] @ [1 :: nat])" "set ([0] @ [1]) = {..< length [0x1234, 0xABCD :: u16]}"
    by (auto simp: less_Suc_eq)
  from build_repair_matrix_rebuilds [OF rc this] rc show ?thesis by simp
qed

text \<open>C36: A run of consecutive recovery exponents always suffices: with the constants of PAR2 and
  distinct missing slices the elimination never meets a singular matrix.\<close>
theorem consecutive_exponents_repair:
  assumes "input_slice_constants count = Some constants"
    and "distinct missing" "\<forall>s \<in> set (available @ missing). s < count"
    and "e + length missing \<le> 2 ^ 32"
  shows "is_ok (build_repair_matrix available missing (map of_nat [e ..< e + length missing]) constants)"
proof (cases "missing = []")
  case True
  then show ?thesis by (simp add: build_repair_matrix_def is_ok_def)
next
  case False
  let ?n = "length missing" and ?exps = "map of_nat [e ..< e + length missing] :: u32 list"
  note cs = input_slice_constants_SomeD [OF assms(1)]
  have e: "unat (?exps ! i) = e + i" if "i < ?n" for i
    using that assms(4) by (simp add: unat_of_nat take_bit_nat_eq_self del: of_nat_add)
  have "x c = 0" if "c < ?n" "\<forall>i < ?n. (\<Sum>j<?n. sub_matrix constants missing ?exps i j * x j) = 0" for c x
  proof -
    let ?g = "\<lambda>j. Gf (constants ! (missing ! j))"
    have nz: "?g j \<noteq> 0" if "j < ?n" for j
    proof -
      have "missing ! j < length constants" using that assms(3) cs(1) by simp
      then have "constants ! (missing ! j) \<in> set constants" by (rule nth_mem)
      then show ?thesis using cs(3) by auto
    qed
    have "(\<lambda>j. x j * ?g j ^ e) c = 0"
    proof (rule vandermonde_regular [of "{..<?n}" ?g "\<lambda>j. x j * ?g j ^ e" c])
      show "inj_on ?g {..<?n}"
        using cs(1,2) assms(2,3) by (auto simp: inj_on_def nth_eq_iff_index_eq)
      fix i assume "i < card {..<?n}"
      then have i: "i < ?n" by simp
      have "(\<Sum>j<?n. x j * ?g j ^ e * ?g j ^ i) = (\<Sum>j<?n. sub_matrix constants missing ?exps i j * x j)"
        unfolding sub_matrix_def e [OF i] by (simp add: power_add ac_simps)
      then show "(\<Sum>j<?n. x j * ?g j ^ e * ?g j ^ i) = 0"
        using that(2) i by simp
    qed (use that(1) in auto)
    then show ?thesis using nz [OF that(1)] by simp
  qed
  then show ?thesis
    using build_repair_matrix_spec [of ?exps missing available constants] False assms(3) cs(1)
    by (auto simp: is_ok_def)
qed

theorem consecutive_exponents_repair_witness:
  "\<exists>constants. input_slice_constants 3 = Some constants
    \<and> is_ok (build_repair_matrix [1] [0, 2] (map of_nat [7 ..< 9]) constants)"
proof -
  obtain constants where c: "input_slice_constants 3 = Some constants"
    by (simp add: input_slice_constants_eq)
  from consecutive_exponents_repair [OF c, of "[0, 2]" "[1]" 7] c show ?thesis by simp
qed

text \<open>C37: A singular matrix is reported only when repair is impossible: some other contents of the
  missing slices give the same surviving slices and the same recovery blocks.\<close>
theorem singular_matrix_unrecoverable:
  assumes "build_repair_matrix available missing exps constants = Inl (SingularMatrix (Some r))"
    and "distinct (available @ missing)" "set (available @ missing) = {..< N}"
  shows "r < length missing \<and> (\<exists>slices slices'. length slices = N \<and> length slices' = N \<and> slices \<noteq> slices'
    \<and> map ((!) slices) available = map ((!) slices') available
    \<and> map (recovery_word constants slices) exps = map (recovery_word constants slices') exps)"
proof -
  let ?n = "length missing"
  have len: "length exps = ?n" "missing \<noteq> []"
    using assms(1) by (auto simp: build_repair_matrix_def Let_def split: if_splits)
  obtain x where r: "r < ?n" and x: "x r \<noteq> 0"
    "\<forall>i < ?n. (\<Sum>j<?n. sub_matrix constants missing exps i j * x j) = 0"
    using build_repair_matrix_spec [OF len(1) _ build_repair_matrix_in_range [of available missing exps constants]]
      assms(1) len by auto
  define z where "z = replicate N (0 :: u16)"
  define y where "y = map (\<lambda>s. case List.find (\<lambda>j. missing ! j = s) [0 ..< ?n] of
    None \<Rightarrow> 0 | Some j \<Rightarrow> gf_word (x j)) [0 ..< N]"
  have ym: "y ! (missing ! j) = gf_word (x j)" "missing ! j < N" if "j < ?n" for j
  proof -
    have "missing ! j \<in> set (available @ missing)" using that by simp
    then show N: "missing ! j < N" by (simp only: assms(3) lessThan_iff)
    have "List.find (\<lambda>k. missing ! k = missing ! j) [0 ..< ?n] = Some j"
      using that assms(2) by (auto simp: find_Some_iff nth_eq_iff_index_eq intro!: exI [of _ j])
    then show "y ! (missing ! j) = gf_word (x j)" using N by (simp add: y_def)
  qed
  have ya: "y ! s = 0" if "s \<in> set available" for s
  proof -
    have "s \<in> set (available @ missing)" using that by simp
    then have "s < N" by (simp only: assms(3) lessThan_iff)
    moreover have "s \<notin> set missing" using that assms(2) by auto
    ultimately show ?thesis by (auto simp: y_def find_upt_None in_set_conv_nth split: option.splits dest!: find_upt_Some)
  qed
  have "Gf (recovery_word constants y (exps ! i)) = Gf (recovery_word constants z (exps ! i))" if "i < ?n" for i
  proof -
    let ?f = "\<lambda>s. Gf (constants ! s) ^ unat (exps ! i) * Gf (y ! s)"
    have "Gf (recovery_word constants y (exps ! i)) = (\<Sum>s\<in>set (available @ missing). ?f s)"
      unfolding assms(3) Gf_recovery_word by (simp add: y_def)
    also have "\<dots> = (\<Sum>s\<in>set missing. ?f s)"
      using assms(2) ya by (simp add: sum.union_disjoint Gf_hom)
    also have "\<dots> = (\<Sum>j<?n. sub_matrix constants missing exps i j * x j)"
      using assms(2) ym by (simp add: sum.distinct_set_conv_list sum_list_sum_nth atLeast0LessThan sub_matrix_def)
    also have "\<dots> = Gf (recovery_word constants z (exps ! i))"
      using x(2) that by (simp add: Gf_recovery_word z_def Gf_hom)
    finally show ?thesis .
  qed
  then have "map (recovery_word constants y) exps = map (recovery_word constants z) exps"
    using len(1) by (auto simp: in_set_conv_nth)
  moreover have "z ! s = 0" if "s \<in> set available" for s
  proof -
    have "s \<in> set (available @ missing)" using that by simp
    then have "s < N" by (simp only: assms(3) lessThan_iff)
    then show ?thesis by (simp add: z_def)
  qed
  then have "map ((!) y) available = map ((!) z) available"
    using ya by simp
  moreover have "y \<noteq> z"
    using ym [OF r] x(1) by (metis Gf_gf_word Gf_hom(1) nth_replicate z_def)
  moreover have "length y = N" "length z = N" by (simp_all add: y_def z_def)
  ultimately show ?thesis using r by blast
qed

theorem singular_matrix_unrecoverable_witness:
  "\<exists>r. build_repair_matrix [] [0, 1] [0, 0] [2, 4] = Inl (SingularMatrix (Some r))
   \<and> (\<exists>slices slices'. length slices = 2 \<and> length slices' = 2 \<and> slices \<noteq> slices'
     \<and> map (recovery_word [2, 4] slices) [0, 0] = map (recovery_word [2, 4] slices') [0, 0])"
proof -
  have "\<not> (\<forall>i < 2. \<forall>j < 2. B i 0 + B i 1 = (if i = j then 1 else 0))" for B :: "nat \<Rightarrow> nat \<Rightarrow> gf16"
  proof
    assume a: "\<forall>i < 2. \<forall>j < 2. B i 0 + B i 1 = (if i = j then 1 else (0 :: gf16))"
    from a [rule_format, of 0 0] a [rule_format, of 0 1] show False by simp
  qed
  then obtain r where b: "build_repair_matrix [] [0, 1] [0, 0] [2, 4] = Inl (SingularMatrix (Some r))"
    using build_repair_matrix_spec [of "[0, 0]" "[0, 1]" "[]" "[2, 4]"]
    by (auto simp: sub_matrix_def numeral_2_eq_2)
  have "distinct ([] @ [0, 1 :: nat])" "set ([] @ [0, 1]) = {..< 2 :: nat}"
    by (auto simp: numeral_2_eq_2 less_Suc_eq)
  from singular_matrix_unrecoverable [OF b this] b show ?thesis by auto
qed

text \<open>C40: Inputs of different lengths, and nothing else, are reported as a singular matrix with
  no row. With as many recovery blocks as missing slices and at least one slice missing, building
  the coefficients panics exactly when an available or missing slice index has no constant; with
  nothing missing it never does.\<close>
theorem build_repair_matrix_errors:
  "(build_repair_matrix available missing exps constants = Inl RepairPanic
     \<longleftrightarrow> length exps = length missing \<and> missing \<noteq> []
       \<and> (\<exists>s. s \<in> set (available @ missing) \<and> length constants \<le> s))
   \<and> (build_repair_matrix available missing exps constants = Inl (SingularMatrix None)
     \<longleftrightarrow> length exps \<noteq> length missing)"
proof (cases "length exps = length missing \<and> missing \<noteq> []")
  case False
  then show ?thesis by (auto simp: build_repair_matrix_def Let_def)
next
  case True
  show ?thesis
  proof (cases "\<exists>s \<in> set (available @ missing). length constants \<le> s")
    case out: True
    then have "build_repair_matrix available missing exps constants = Inl RepairPanic"
      using build_repair_matrix_in_range [of available missing exps constants] True by fastforce
    then show ?thesis using True out by auto
  next
    case False
    then have "\<forall>s \<in> set available. s < length constants" "\<forall>s \<in> set missing. s < length constants"
      by (auto simp: not_le)
    from build_repair_matrix_spec [OF _ _ this] True False show ?thesis by fastforce
  qed
qed

end
