(* ===== verification/Rar5_Rs.thy ===== *)
theory Rar5_Rs
  imports Gf16
begin

text \<open>
  The Reed-Solomon coder of RAR5 recovery volumes, \<open>reedsolomon-rs/src/rar5.rs\<close>: the Cauchy
  encoder, the selection of recovery rows for the missing data rows, and the in-place inversion of
  the selected rows. The inversion works on rows over all data columns and never pivots; it is shown
  to always succeed on the rows the decoder selects, and the decoder to undo the encoder.
\<close>

unbundle bit_operations_syntax

section \<open>Model\<close>

definition GF_SIZE :: nat where
  "GF_SIZE = 65535"

record rar5_rs_coder =
  rs_data_count :: nat
  rs_matrix :: "u16 list"
  rs_missing_data_count :: nat

text \<open>Inverting zero, and a broken precondition of \<open>update_outputs\<close>, panic.\<close>

datatype rs_panic = RsPanic

definition inv_or_panic :: "u16 \<Rightarrow> rs_panic + u16" where
  "inv_or_panic a = (case inv_gf a of None \<Rightarrow> Inl RsPanic | Some b \<Rightarrow> Inr b)"

text \<open>One row of the Cauchy matrix: the inverse of the row number plus the column number.\<close>

primrec fill_cauchy_row :: "nat \<Rightarrow> nat \<Rightarrow> nat list \<Rightarrow> u16 list \<Rightarrow> rs_panic + u16 list" where
  "fill_cauchy_row row start [] m = Inr m"
| "fill_cauchy_row row start (col # cols) m =
     and_then (inv_or_panic (of_nat row XOR of_nat col))
       (\<lambda>v. fill_cauchy_row row start cols (m[start + col := v]))"

function skip_missing :: "bool list \<Rightarrow> nat \<Rightarrow> nat" where
  "skip_missing flags i = (if i < length flags \<and> \<not> flags ! i then skip_missing flags (i + 1) else i)"
  by pat_completeness auto
termination by (relation "measure (\<lambda>(flags, i). length flags - i)") auto

declare skip_missing.simps [simp del]

primrec make_decoder_rows ::
  "nat \<Rightarrow> bool list \<Rightarrow> nat list \<Rightarrow> u16 list \<Rightarrow> nat \<Rightarrow> nat \<Rightarrow> rs_panic + u16 list option" where
  "make_decoder_rows data_count flags [] m recovery_row dest = Inr (Some m)"
| "make_decoder_rows data_count flags (data_row # data_rows) m recovery_row dest =
     (if flags ! data_row then make_decoder_rows data_count flags data_rows m recovery_row dest
      else let recovery_row = skip_missing flags recovery_row in
        if recovery_row \<ge> length flags then Inr None
        else and_then (fill_cauchy_row recovery_row (dest * data_count) [0 ..< data_count] m)
          (\<lambda>m. make_decoder_rows data_count flags data_rows m (recovery_row + 1) (dest + 1)))"

definition make_decoder_matrix :: "nat \<Rightarrow> bool list \<Rightarrow> nat \<Rightarrow> rs_panic + u16 list option" where
  "make_decoder_matrix data_count flags missing_data_count =
     make_decoder_rows data_count flags [0 ..< data_count]
       (replicate (missing_data_count * data_count) 0) data_count 0"

function skip_valid :: "nat \<Rightarrow> bool list \<Rightarrow> nat \<Rightarrow> nat" where
  "skip_valid data_count flags i = (if i < data_count \<and> flags ! i then skip_valid data_count flags (i + 1) else i)"
  by pat_completeness auto
termination by (relation "measure (\<lambda>(data_count, flags, i). data_count - i)") auto

declare skip_valid.simps [simp del]

primrec key_rows :: "nat \<Rightarrow> bool list \<Rightarrow> nat list \<Rightarrow> nat \<Rightarrow> u16 list \<Rightarrow> u16 list option" where
  "key_rows data_count flags [] key_full_row inverted = Some inverted"
| "key_rows data_count flags (key_reduced_row # rows) key_full_row inverted =
     (let key_full_row = skip_valid data_count flags key_full_row in
      if key_full_row \<ge> data_count then None
      else key_rows data_count flags rows (key_full_row + 1)
        (inverted[key_reduced_row * data_count + key_full_row := 1]))"

text \<open>The inner loop over a run of valid columns: they move from the matrix to the inverted.\<close>

function move_valid_columns ::
  "nat \<Rightarrow> bool list \<Rightarrow> nat \<Rightarrow> u16 list \<Rightarrow> nat \<Rightarrow> u16 list \<Rightarrow> nat \<times> u16 list" where
  "move_valid_columns data_count flags missing_data_count m full_row inverted =
     (if full_row < data_count \<and> flags ! full_row
      then move_valid_columns data_count flags missing_data_count m (full_row + 1)
        (fold (\<lambda>row inverted. let idx = row * data_count + full_row
                in inverted[idx := inverted ! idx XOR m ! idx]) [0 ..< missing_data_count] inverted)
      else (full_row, inverted))"
  by pat_completeness auto
termination by (relation "measure (\<lambda>(data_count, _, _, _, full_row, _). data_count - full_row)") auto

declare move_valid_columns.simps [simp del]

lemma move_valid_columns_ge: "full_row \<le> fst (move_valid_columns data_count flags k m full_row inverted)"
proof (induction data_count flags k m full_row inverted rule: move_valid_columns.induct)
  case (1 data_count flags k m full_row inverted)
  then show ?case by (subst move_valid_columns.simps) (auto dest: Suc_leD)
qed

text \<open>Normalising the pivot row and clearing the pivot column in the other rows.\<close>

definition pivot_rows ::
  "nat \<Rightarrow> nat \<Rightarrow> nat \<Rightarrow> nat \<Rightarrow> u16 \<Rightarrow> u16 list \<times> u16 list \<Rightarrow> u16 list \<times> u16 list" where
  "pivot_rows data_count missing_data_count reduced_row full_row pivot_inv mi =
     fold (\<lambda>row (m, inverted).
         if row = reduced_row then (m, inverted)
         else let factor = m ! (row * data_count + full_row) in
           if factor = 0 then (m, inverted)
           else fold (\<lambda>col (m, inverted).
             (m[row * data_count + col := m ! (row * data_count + col)
                  XOR mul (m ! (reduced_row * data_count + col)) factor],
              inverted[row * data_count + col := inverted ! (row * data_count + col)
                  XOR mul (inverted ! (reduced_row * data_count + col)) factor]))
             [0 ..< data_count] (m, inverted))
       [0 ..< missing_data_count]
       (fold (\<lambda>col (m, inverted).
          (m[reduced_row * data_count + col := mul (m ! (reduced_row * data_count + col)) pivot_inv],
           inverted[reduced_row * data_count + col := mul (inverted ! (reduced_row * data_count + col)) pivot_inv]))
         [0 ..< data_count] mi)"

function invert_loop ::
  "nat \<Rightarrow> bool list \<Rightarrow> nat \<Rightarrow> nat \<Rightarrow> nat \<Rightarrow> u16 list \<Rightarrow> u16 list \<Rightarrow> rs_panic + u16 list option" where
  "invert_loop data_count flags missing_data_count reduced_row full_row m inverted =
     (if full_row < data_count then
        case move_valid_columns data_count flags missing_data_count m full_row inverted of
          (full_row, inverted) \<Rightarrow>
            if full_row = data_count then Inr (Some inverted)
            else if reduced_row \<ge> missing_data_count then Inr None
            else let pivot = m ! (reduced_row * data_count + full_row) in
              if pivot = 0 then Inr None
              else and_then (inv_or_panic pivot) (\<lambda>pivot_inv.
                case pivot_rows data_count missing_data_count reduced_row full_row pivot_inv (m, inverted) of
                  (m, inverted) \<Rightarrow>
                    invert_loop data_count flags missing_data_count (reduced_row + 1) (full_row + 1) m inverted)
      else Inr (Some inverted))"
  by pat_completeness auto
termination
proof (relation "measure (\<lambda>(data_count, _, _, _, full_row, _, _). data_count - full_row)", goal_cases)
  case 1 show ?case by simp
next
  case (2 data_count flags k reduced_row full_row m inverted full_row' inverted')
  then have "full_row \<le> full_row'"
    using move_valid_columns_ge [of full_row data_count flags k m inverted] by (metis fst_conv)
  then show ?case using 2 by simp
qed

declare invert_loop.simps [simp del]

definition invert_decoder_matrix :: "nat \<Rightarrow> bool list \<Rightarrow> nat \<Rightarrow> u16 list \<Rightarrow> rs_panic + u16 list option" where
  "invert_decoder_matrix data_count flags missing_data_count m =
     (case key_rows data_count flags [0 ..< missing_data_count] 0
         (replicate (missing_data_count * data_count) 0) of
        None \<Rightarrow> Inr None
      | Some inverted \<Rightarrow> invert_loop data_count flags missing_data_count 0 0 m inverted)"

definition new_decoder :: "nat \<Rightarrow> nat \<Rightarrow> bool list \<Rightarrow> rs_panic + rar5_rs_coder option" where
  "new_decoder data_count rec_count valid_flags =
     (if data_count = 0 \<or> rec_count = 0 \<or> data_count + rec_count > GF_SIZE
          \<or> length valid_flags \<noteq> data_count + rec_count
      then Inr None
      else let missing_data_count = length (filter Not (take data_count valid_flags));
               valid_recovery_count = length (filter id (drop data_count valid_flags))
        in if missing_data_count = 0 \<or> valid_recovery_count = 0 \<or> missing_data_count > valid_recovery_count
           then Inr None
           else and_then (make_decoder_matrix data_count valid_flags missing_data_count) (\<lambda>r.
             case r of None \<Rightarrow> Inr None
             | Some m \<Rightarrow> and_then (invert_decoder_matrix data_count valid_flags missing_data_count m) (\<lambda>r.
                 case r of None \<Rightarrow> Inr None
                 | Some m \<Rightarrow> Inr (Some \<lparr>rs_data_count = data_count, rs_matrix = m,
                     rs_missing_data_count = missing_data_count\<rparr>))))"

primrec fill_encoder_rows :: "nat \<Rightarrow> nat list \<Rightarrow> u16 list \<Rightarrow> rs_panic + u16 list" where
  "fill_encoder_rows data_count [] m = Inr m"
| "fill_encoder_rows data_count (rec # recs) m =
     and_then (fill_cauchy_row (rec + data_count) (rec * data_count) [0 ..< data_count] m)
       (fill_encoder_rows data_count recs)"

definition new_encoder :: "nat \<Rightarrow> nat \<Rightarrow> rs_panic + rar5_rs_coder option" where
  "new_encoder data_count rec_count =
     (if data_count = 0 \<or> rec_count = 0 \<or> data_count + rec_count > GF_SIZE then Inr None
      else and_then (fill_encoder_rows data_count [0 ..< rec_count] (replicate (rec_count * data_count) 0))
        (\<lambda>m. Inr (Some \<lparr>rs_data_count = data_count, rs_matrix = m, rs_missing_data_count = rec_count\<rparr>)))"

section \<open>Selecting rows\<close>

definition missing_rows :: "nat \<Rightarrow> bool list \<Rightarrow> nat list" where
  "missing_rows data_count flags = filter (\<lambda>c. \<not> flags ! c) [0 ..< data_count]"

definition recovery_rows :: "nat \<Rightarrow> bool list \<Rightarrow> nat list" where
  "recovery_rows start flags = filter (\<lambda>c. flags ! c) [start ..< length flags]"

lemma skip_missing_rows:
  "(length flags \<le> skip_missing flags i \<and> recovery_rows i flags = [] \<or>
    i \<le> skip_missing flags i \<and> skip_missing flags i < length flags \<and> flags ! skip_missing flags i
      \<and> recovery_rows i flags = skip_missing flags i # recovery_rows (Suc (skip_missing flags i)) flags)"
proof (induction flags i rule: skip_missing.induct)
  case (1 flags i)
  show ?case
  proof (cases "i < length flags \<and> \<not> flags ! i")
    case True
    then have "recovery_rows i flags = recovery_rows (Suc i) flags"
      by (simp add: recovery_rows_def upt_conv_Cons)
    moreover have "skip_missing flags i = skip_missing flags (i + 1)"
      using True by (subst skip_missing.simps) simp
    ultimately show ?thesis using 1 [OF True] by auto
  next
    case False
    then have "skip_missing flags i = i" by (subst skip_missing.simps) auto
    then show ?thesis
      using False by (cases "i < length flags") (auto simp: recovery_rows_def upt_conv_Cons)
  qed
qed

lemma skip_valid_rows:
  "(data_count \<le> skip_valid data_count flags i \<and> filter (\<lambda>c. \<not> flags ! c) [i ..< data_count] = [] \<or>
    i \<le> skip_valid data_count flags i \<and> skip_valid data_count flags i < data_count
      \<and> filter (\<lambda>c. \<not> flags ! c) [i ..< data_count]
        = skip_valid data_count flags i # filter (\<lambda>c. \<not> flags ! c) [Suc (skip_valid data_count flags i) ..< data_count])"
proof (induction data_count flags i rule: skip_valid.induct)
  case (1 data_count flags i)
  show ?case
  proof (cases "i < data_count \<and> flags ! i")
    case True
    moreover have "skip_valid data_count flags i = skip_valid data_count flags (i + 1)"
      using True by (subst skip_valid.simps) simp
    ultimately show ?thesis using 1 [OF True] by (auto simp: upt_conv_Cons)
  next
    case False
    then have "skip_valid data_count flags i = i" by (subst skip_valid.simps) auto
    then show ?thesis using False by (cases "i < data_count") (auto simp: upt_conv_Cons)
  qed
qed

text \<open>The word of a row or column number, and the Cauchy matrix over the field.\<close>

definition point :: "nat \<Rightarrow> gf16" where
  "point i = Gf (of_nat i)"

definition cauchy :: "nat \<Rightarrow> nat \<Rightarrow> gf16" where
  "cauchy row col = inverse (point row + point col)"

lemma point_inj: "i < 65536 \<Longrightarrow> j < 65536 \<Longrightarrow> point i = point j \<longleftrightarrow> i = j"
  by (metis point_def Gf_eq_iff unat_of_nat_u16)

lemma rep_fill_cauchy_row:
  assumes "rep Gf R n m F" "r < R" "n \<le> row" "row < 65536" "k \<le> n"
  shows "\<exists>m'. fill_cauchy_row row (r * n) [k ..< n] m = Inr m'
    \<and> rep Gf R n m' (\<lambda>i j. if i = r \<and> k \<le> j then cauchy row j else F i j)"
  using assms(1,5)
proof (induction "n - k" arbitrary: k m F)
  case 0
  have "rep Gf R n m (\<lambda>i j. if i = r \<and> k \<le> j then cauchy row j else F i j)"
    by (rule rep_cong [OF 0(2)]) (use 0 in auto)
  then show ?case using 0 by simp
next
  case (Suc l)
  then have k: "k < n" by simp
  have "of_nat row XOR of_nat k \<noteq> (0 :: u16)"
  proof
    assume "of_nat row XOR of_nat k = (0 :: u16)"
    then have "Gf (of_nat row) + Gf (of_nat k) = Gf (0 :: u16)" by (simp flip: Gf_hom(3))
    then have "point row = point k" by (metis point_def Gf_hom(1) gf16_minus right_minus_eq)
    then show False using point_inj [of row k] k assms(3,4) by simp
  qed
  then obtain v where v: "inv_or_panic (of_nat row XOR of_nat k) = Inr v" "Gf v = cauchy row k"
    by (simp add: inv_or_panic_def inv_ginv Gf_hom cauchy_def point_def)
  have "rep Gf R n (m[r * n + k := v]) (\<lambda>i j. if i = r \<and> j = k then cauchy row k else F i j)"
    using rep_update [OF Suc.prems(1) assms(2) k, of v] by (simp only: v(2))
  note up = this
  have l: "l = n - Suc k" using Suc.hyps(2) by simp
  obtain m' where
    m': "fill_cauchy_row row (r * n) [Suc k ..< n] (m[r * n + k := v]) = Inr m'"
    "rep Gf R n m' (\<lambda>i j. if i = r \<and> Suc k \<le> j then cauchy row j
       else if i = r \<and> j = k then cauchy row k else F i j)"
    using Suc.hyps(1) [OF l up] k by auto
  have "rep Gf R n m' (\<lambda>i j. if i = r \<and> k \<le> j then cauchy row j else F i j)"
    by (rule rep_cong [OF m'(2)]) auto
  then show ?case using m'(1) v(1) k by (simp add: upt_conv_Cons)
qed

lemma rep_make_decoder_rows:
  assumes "length flags < 65536" "n \<le> rr" "d \<le> n"
    and "rep Gf R n m F" "dest + length (filter (\<lambda>c. \<not> flags ! c) [d ..< n]) = R"
    and "length (filter (\<lambda>c. \<not> flags ! c) [d ..< n]) \<le> length (recovery_rows rr flags)"
  shows "\<exists>m'. make_decoder_rows n flags [d ..< n] m rr dest = Inr (Some m')
    \<and> rep Gf R n m' (\<lambda>i j. if dest \<le> i then cauchy (recovery_rows rr flags ! (i - dest)) j else F i j)"
  using assms(2-)
proof (induction "n - d" arbitrary: d rr dest m F)
  case 0
  have "rep Gf R n m (\<lambda>i j. if dest \<le> i then cauchy (recovery_rows rr flags ! (i - dest)) j else F i j)"
    by (rule rep_cong [OF 0(4)]) (use 0 in auto)
  then show ?case using 0 by simp
next
  case (Suc l)
  then have d: "d < n" and u: "[d ..< n] = d # [Suc d ..< n]" by (simp_all add: upt_conv_Cons)
  show ?case
  proof (cases "flags ! d")
    case True
    then show ?thesis using Suc.hyps(1) [of "Suc d" rr m F dest] Suc.hyps(2) Suc.prems d u by simp
  next
    case False
    let ?r = "skip_missing flags rr"
    have r: "rr \<le> ?r" "?r < length flags" "recovery_rows rr flags = ?r # recovery_rows (Suc ?r) flags"
      using skip_missing_rows [of flags rr] Suc.prems(5) False u by auto
    have l: "l = n - Suc d" using Suc.hyps(2) by simp
    have dest: "dest < R" using Suc.prems(4) False u by simp
    obtain m1 where m1: "fill_cauchy_row ?r (dest * n) [0 ..< n] m = Inr m1"
      "rep Gf R n m1 (\<lambda>i j. if i = dest \<and> 0 \<le> j then cauchy ?r j else F i j)"
      using rep_fill_cauchy_row [OF Suc.prems(3) dest _ _ le0, of ?r] Suc.prems(1) r assms(1) by auto
    obtain m' where m': "make_decoder_rows n flags [Suc d ..< n] m1 (Suc ?r) (Suc dest) = Inr (Some m')"
      "rep Gf R n m' (\<lambda>i j. if Suc dest \<le> i then cauchy (recovery_rows (Suc ?r) flags ! (i - Suc dest)) j
        else if i = dest \<and> 0 \<le> j then cauchy ?r j else F i j)"
      using Suc.hyps(1) [OF l _ _ m1(2), of "Suc ?r" "Suc dest"] Suc.prems d u r False by auto
    have "rep Gf R n m' (\<lambda>i j. if dest \<le> i then cauchy (recovery_rows rr flags ! (i - dest)) j else F i j)"
      by (rule rep_cong [OF m'(2)]) (auto simp: r(3) nth_Cons' not_less_eq_eq)
    then show ?thesis using m1(1) m'(1) False u r(2) by simp
  qed
qed

lemma rep_key_rows:
  assumes "d \<le> n" "rep Gf R n b F" "k + length (filter (\<lambda>c. \<not> flags ! c) [d ..< n]) = R"
  shows "\<exists>b'. key_rows n flags [k ..< R] d b = Some b'
    \<and> rep Gf R n b' (\<lambda>i j. if k \<le> i \<and> j = filter (\<lambda>c. \<not> flags ! c) [d ..< n] ! (i - k) then 1 else F i j)"
  using assms
proof (induction "R - k" arbitrary: k d b F)
  case 0
  have "rep Gf R n b (\<lambda>i j. if k \<le> i \<and> j = filter (\<lambda>c. \<not> flags ! c) [d ..< n] ! (i - k) then 1 else F i j)"
    by (rule rep_cong [OF 0(3)]) (use 0 in auto)
  then show ?case using 0 by simp
next
  case (Suc l)
  let ?s = "skip_valid n flags d"
  have k: "k < R" "[k ..< R] = k # [Suc k ..< R]" using Suc.hyps(2) by (simp_all add: upt_conv_Cons)
  have s: "?s < n" "filter (\<lambda>c. \<not> flags ! c) [d ..< n] = ?s # filter (\<lambda>c. \<not> flags ! c) [Suc ?s ..< n]"
    using skip_valid_rows [of n flags d] Suc.prems(3) k(1) by auto
  have l: "l = R - Suc k" using Suc.hyps(2) by simp
  obtain b' where i': "key_rows n flags [Suc k ..< R] (Suc ?s) (b[k * n + ?s := 1]) = Some b'"
    "rep Gf R n b' (\<lambda>i j. if Suc k \<le> i \<and> j = filter (\<lambda>c. \<not> flags ! c) [Suc ?s ..< n] ! (i - Suc k) then 1
      else if i = k \<and> j = ?s then Gf 1 else F i j)"
    using Suc.hyps(1) [OF l _ rep_update [OF Suc.prems(2) k(1) s(1), of 1], of "Suc ?s"] Suc.prems s by auto
  have "rep Gf R n b' (\<lambda>i j. if k \<le> i \<and> j = filter (\<lambda>c. \<not> flags ! c) [d ..< n] ! (i - k) then 1 else F i j)"
    by (rule rep_cong [OF i'(2)]) (auto simp: s(2) nth_Cons' not_less_eq_eq Gf_hom)
  then show ?case using i'(1) k(2) s(1) by simp
qed

section \<open>The inversion\<close>

text \<open>
  The units the decoder is fed, for a data vector \<open>d\<close>: a valid column is the data itself, and the
  column of the \<open>i\<close>-th missing row is the recovery row selected for it.
\<close>

definition unit_vector ::
  "nat \<Rightarrow> bool list \<Rightarrow> nat list \<Rightarrow> (nat \<Rightarrow> gf16) \<Rightarrow> (nat \<Rightarrow> gf16) \<Rightarrow> bool" where
  "unit_vector n flags recs d w \<longleftrightarrow>
     (\<forall>c < n. flags ! c \<longrightarrow> w c = d c)
   \<and> (\<forall>i < length (missing_rows n flags).
        w (missing_rows n flags ! i) = (\<Sum>c<n. cauchy (recs ! i) c * d c))"

definition pending :: "nat \<Rightarrow> bool list \<Rightarrow> nat \<Rightarrow> nat set" where
  "pending n flags f = {c. c < n \<and> (f \<le> c \<or> \<not> flags ! c)}"

text \<open>
  The invariant at column \<open>f\<close> with \<open>p\<close> pivots taken: each row of the matrix over the columns not yet
  moved is the same row of the inverse applied to the units; the pivot columns are unit columns; and
  the rows not yet used as pivots differ from the Cauchy rows by earlier rows only.
\<close>

definition r5_inv ::
  "nat \<Rightarrow> bool list \<Rightarrow> nat list \<Rightarrow> nat \<Rightarrow> nat \<Rightarrow> (nat \<Rightarrow> nat \<Rightarrow> gf16) \<Rightarrow> (nat \<Rightarrow> nat \<Rightarrow> gf16) \<Rightarrow> bool" where
  "r5_inv n flags recs f p A B \<longleftrightarrow>
     (let ms = missing_rows n flags; R = length ms in
      (\<forall>d w. unit_vector n flags recs d w \<longrightarrow>
         (\<forall>i < R. (\<Sum>c\<in>pending n flags f. A i c * d c) = (\<Sum>c<n. B i c * w c)))
    \<and> (\<forall>q < p. \<forall>i < R. A i (ms ! q) = (if i = q then 1 else 0))
    \<and> (\<exists>L. (\<forall>i < R. \<forall>c < n. A i c = (\<Sum>k<R. L i k * cauchy (recs ! k) c))
         \<and> (\<forall>i < R. \<forall>k < R. p \<le> i \<longrightarrow> p \<le> k \<longrightarrow> L i k = (if k = i then 1 else 0))))"

lemma finite_pending [simp]: "finite (pending n flags f)"
  by (simp add: pending_def)

lemma pending_0: "pending n flags 0 = {..<n}"
  by (auto simp: pending_def)

lemma pending_valid:
  "f < n \<Longrightarrow> flags ! f \<Longrightarrow> pending n flags f = insert f (pending n flags (Suc f)) \<and> f \<notin> pending n flags (Suc f)"
  by (auto simp: pending_def)

lemma pending_missing: "\<not> flags ! f \<Longrightarrow> pending n flags (Suc f) = pending n flags f"
  by (auto simp: pending_def le_Suc_eq Suc_le_eq le_less)

lemma pending_end: "pending n flags n = set (missing_rows n flags)"
  by (auto simp: pending_def missing_rows_def)

lemma r5_inv_init:
  "r5_inv n flags recs 0 0 (\<lambda>i. cauchy (recs ! i)) (\<lambda>i j. if j = missing_rows n flags ! i then 1 else 0)"
proof -
  let ?ms = "missing_rows n flags"
  have "?ms ! i < n" if "i < length ?ms" for i
    using nth_mem [OF that] by (simp add: missing_rows_def)
  then have "(\<Sum>c<n. cauchy (recs ! i) c * d c) = (\<Sum>c<n. (if c = ?ms ! i then 1 else 0) * w c)"
    if "unit_vector n flags recs d w" "i < length ?ms" for d w i
    using that by (simp add: unit_vector_def if_distrib [where f = "\<lambda>x. x * _"] cong: if_cong)
  moreover have "\<exists>L. (\<forall>i < R. \<forall>c < n. cauchy (recs ! i) c = (\<Sum>k<R. L i k * cauchy (recs ! k) c))
      \<and> (\<forall>i < R. \<forall>k < R. (0 :: nat) \<le> i \<longrightarrow> (0 :: nat) \<le> k \<longrightarrow> L i k = (if k = i then 1 else (0 :: gf16)))" for R
    by (rule exI [of _ "\<lambda>i k. if k = i then 1 else 0"])
       (simp add: if_distrib [where f = "\<lambda>x. x * _"] cong: if_cong)
  ultimately show ?thesis by (simp add: r5_inv_def pending_0 Let_def)
qed

lemma r5_inv_valid:
  assumes "r5_inv n flags recs f p A B" "f < n" "flags ! f"
  shows "r5_inv n flags recs (Suc f) p A (\<lambda>i j. if j = f then B i f + A i f else B i j)"
proof -
  have "(\<Sum>c\<in>pending n flags (Suc f). A i c * d c) = (\<Sum>c<n. (if c = f then B i f + A i f else B i c) * w c)"
    if u: "unit_vector n flags recs d w" and i: "i < length (missing_rows n flags)" for d w i
  proof -
    have "A i f * d f + (\<Sum>c\<in>pending n flags (Suc f). A i c * d c) = (\<Sum>c<n. B i c * w c)"
      using assms u i pending_valid [OF assms(2,3)] by (auto simp: r5_inv_def Let_def)
    moreover have "w f = d f" using u assms(2,3) by (simp add: unit_vector_def)
    moreover have "(\<Sum>c<n. (if c = f then B i f + A i f else B i c) * w c)
        = (\<Sum>c<n. B i c * w c + (if c = f then A i f * w f else 0))"
      by (rule sum.cong) (auto simp: distrib_right)
    ultimately show ?thesis
      using assms(2) by (simp add: sum.distrib) (metis add.assoc add.commute add_0 gf16_add_self)
  qed
  then show ?thesis using assms(1) by (simp add: r5_inv_def Let_def)
qed

definition rows_ok :: "nat \<Rightarrow> bool list \<Rightarrow> nat list \<Rightarrow> bool" where
  "rows_ok n flags recs \<longleftrightarrow> length (missing_rows n flags) \<le> length recs \<and> distinct recs
     \<and> (\<forall>r \<in> set recs. n \<le> r \<and> r < 65536) \<and> n < 65536"

lemma missing_rows_nth: "i < length (missing_rows n flags) \<Longrightarrow> missing_rows n flags ! i < n \<and> \<not> flags ! (missing_rows n flags ! i)"
  using nth_mem [of i "missing_rows n flags"] by (auto simp: missing_rows_def)

lemma distinct_missing_rows: "distinct (missing_rows n flags)"
  by (simp add: missing_rows_def)

lemma r5_pivot_nonzero:
  assumes inv: "r5_inv n flags recs f p A B" and ok: "rows_ok n flags recs"
    and p: "p < length (missing_rows n flags)"
  shows "A p (missing_rows n flags ! p) \<noteq> 0"
proof
  let ?ms = "missing_rows n flags" let ?R = "length ?ms"
  assume zero: "A p (?ms ! p) = 0"
  obtain L where L: "\<forall>i < ?R. \<forall>c < n. A i c = (\<Sum>k<?R. L i k * cauchy (recs ! k) c)"
    "\<forall>i < ?R. \<forall>k < ?R. p \<le> i \<longrightarrow> p \<le> k \<longrightarrow> L i k = (if k = i then 1 else 0)"
    using inv by (auto simp: r5_inv_def Let_def)
  have rk: "n \<le> recs ! k" "recs ! k < 65536" if "k < ?R" for k
    using ok that by (auto simp: rows_ok_def)
  have "L p p = 0"
  proof (rule cauchy_regular [of "{..p}" "{..p}" "\<lambda>i. point (recs ! i)" "\<lambda>j. point (?ms ! j)" "L p"])
    show "inj_on (\<lambda>i. point (recs ! i)) {..p}"
      using p rk ok by (auto simp: inj_on_def point_inj rows_ok_def nth_eq_iff_index_eq)
    show "inj_on (\<lambda>j. point (?ms ! j)) {..p}"
    proof (rule inj_onI)
      fix i j assume "i \<in> {..p}" "j \<in> {..p}" "point (?ms ! i) = point (?ms ! j)"
      moreover from this have "?ms ! i < 65536" "?ms ! j < 65536"
        using missing_rows_nth [of i n flags] missing_rows_nth [of j n flags] p ok by (auto simp: rows_ok_def)
      ultimately show "i = j"
        using distinct_missing_rows [of n flags] p by (simp add: point_inj nth_eq_iff_index_eq)
    qed
    show "point (recs ! i) \<noteq> point (?ms ! j)" if "i \<in> {..p}" "j \<in> {..p}" for i j
    proof -
      have "n \<le> recs ! i" "recs ! i < 65536" "?ms ! j < n" "n < 65536"
        using rk [of i] missing_rows_nth [of j n flags] that p ok by (simp_all add: rows_ok_def)
      then show ?thesis by (simp add: point_inj)
    qed
    show "(\<Sum>i\<in>{..p}. L p i * inverse (point (recs ! i) - point (?ms ! j))) = 0" if j: "j \<in> {..p}" for j
    proof -
      have "(\<Sum>k<?R. L p k * cauchy (recs ! k) (?ms ! j)) = A p (?ms ! j)"
        using L(1) p j missing_rows_nth [of j n flags] by simp
      also have "\<dots> = 0"
        using inv zero p j by (cases "j = p") (auto simp: r5_inv_def Let_def)
      also have "(\<Sum>k<?R. L p k * cauchy (recs ! k) (?ms ! j)) = (\<Sum>k\<in>{..p}. L p k * cauchy (recs ! k) (?ms ! j))"
        by (rule sum.mono_neutral_right) (use L(2) p in auto)
      finally show ?thesis by (simp add: cauchy_def gf16_minus)
    qed
  qed auto
  then show False using L(2) p by simp
qed

lemma r5_inv_pivot:
  assumes inv: "r5_inv n flags recs f p A B" and p: "p < length (missing_rows n flags)"
    and f: "f = missing_rows n flags ! p" and nz: "A p f \<noteq> 0"
  shows "r5_inv n flags recs (Suc f) (Suc p) (elim_step p f A A) (elim_step p f A B)"
proof -
  let ?ms = "missing_rows n flags" let ?R = "length ?ms"
  have fn: "f < n" "\<not> flags ! f" using missing_rows_nth [OF p] f by auto
  have "(\<Sum>c\<in>pending n flags (Suc f). elim_step p f A A i c * d c) = (\<Sum>c<n. elim_step p f A B i c * w c)"
    if "unit_vector n flags recs d w" "i < ?R" for d w i
    unfolding pending_missing [OF fn(2)]
    by (rule elim_step_relation [OF _ p that(2)]) (use inv that(1) in \<open>simp add: r5_inv_def Let_def\<close>)
  moreover have "elim_step p f A A i (?ms ! q) = (if i = q then 1 else 0)" if q: "q < Suc p" and i: "i < ?R" for q i
  proof (cases "q = p")
    case True
    then show ?thesis using elim_step_pivot [of A p f i] nz f by simp
  next
    case False
    then have "A i' (?ms ! q) = (if i' = q then 1 else 0)" if "i' < ?R" for i'
      using inv q that by (simp add: r5_inv_def Let_def)
    then show ?thesis using elim_step_other [of A p "?ms ! q" f i] p i False by simp
  qed
  moreover obtain L where L: "\<forall>i < ?R. \<forall>c < n. A i c = (\<Sum>k<?R. L i k * cauchy (recs ! k) c)"
    "\<forall>i < ?R. \<forall>k < ?R. p \<le> i \<longrightarrow> p \<le> k \<longrightarrow> L i k = (if k = i then 1 else 0)"
    using inv by (auto simp: r5_inv_def Let_def)
  have "elim_step p f A A i c = (\<Sum>k<?R. elim_step p f A L i k * cauchy (recs ! k) c)" if "i < ?R" "c < n" for i c
    unfolding sum_elim_step using L(1) that p by (simp add: elim_step_def)
  moreover have "elim_step p f A L i k = (if k = i then 1 else 0)"
    if "i < ?R" "k < ?R" "Suc p \<le> i" "Suc p \<le> k" for i k
    using L(2) that p by (auto simp: elim_step_def)
  ultimately show ?thesis unfolding r5_inv_def Let_def by blast
qed

lemma rep_column_loop:
  assumes "rep Gf R n m A" "rep Gf R n b B" "f < n"
  shows "rep Gf R n (fold (\<lambda>row b. let idx = row * n + f in b[idx := b ! idx XOR m ! idx]) [0 ..< R] b)
    (\<lambda>i j. if j = f then B i f + A i f else B i j)"
proof -
  have "r \<le> R \<Longrightarrow> rep Gf R n (fold (\<lambda>row b. let idx = row * n + f in b[idx := b ! idx XOR m ! idx]) [0 ..< r] b)
    (\<lambda>i j. if j = f \<and> i < r then B i f + A i f else B i j)" for r
  proof (induction r)
    case 0 then show ?case using assms(2) by simp
  next
    case (Suc r)
    let ?b = "fold (\<lambda>row b. let idx = row * n + f in b[idx := b ! idx XOR m ! idx]) [0 ..< r] b"
    have IH: "rep Gf R n ?b (\<lambda>i j. if j = f \<and> i < r then B i f + A i f else B i j)" and r: "r < R"
      using Suc by simp_all
    have v: "Gf (?b ! (r * n + f) XOR m ! (r * n + f)) = B r f + A r f"
      using rep_nth [OF IH r assms(3)] rep_nth [OF assms(1) r assms(3)] by (simp add: Gf_hom)
    have "rep Gf R n (?b[r * n + f := ?b ! (r * n + f) XOR m ! (r * n + f)])
        (\<lambda>i j. if j = f \<and> i < Suc r then B i f + A i f else B i j)"
      by (rule rep_cong [OF rep_update [OF IH r assms(3)]]) (auto simp: v less_Suc_eq)
    then show ?case by (simp add: Let_def)
  qed
  from rep_cong [OF this [OF order_refl]] show ?thesis by simp
qed

lemma rep_move_valid_columns:
  assumes "rep Gf R n m A" "rep Gf R n b B" "r5_inv n flags recs f p A B" "f \<le> n"
    and "R = length (missing_rows n flags)"
  shows "\<exists>f' b' B'. move_valid_columns n flags R m f b = (f', b') \<and> f \<le> f' \<and> f' \<le> n
    \<and> (f' < n \<longrightarrow> \<not> flags ! f') \<and> filter (\<lambda>c. \<not> flags ! c) [f ..< f'] = []
    \<and> rep Gf R n b' B' \<and> r5_inv n flags recs f' p A B'"
  using assms(2-4)
proof (induction "n - f" arbitrary: f b B)
  case 0
  then have "f = n" by simp
  then show ?case using 0 by (subst move_valid_columns.simps) auto
next
  case (Suc l)
  then have f: "f < n" by simp
  show ?case
  proof (cases "flags ! f")
    case True
    let ?b = "fold (\<lambda>row b. let idx = row * n + f in b[idx := b ! idx XOR m ! idx]) [0 ..< R] b"
    have "l = n - Suc f" using Suc.hyps(2) by simp
    from Suc.hyps(1) [OF this rep_column_loop [OF assms(1) Suc.prems(1) f] r5_inv_valid [OF Suc.prems(2) f True]] f
    obtain f' b' B' where st: "move_valid_columns n flags R m (Suc f) ?b = (f', b')" "Suc f \<le> f'" "f' \<le> n"
      "f' < n \<longrightarrow> \<not> flags ! f'" "filter (\<lambda>c. \<not> flags ! c) [Suc f ..< f'] = []"
      "rep Gf R n b' B'" "r5_inv n flags recs f' p A B'" by auto
    have "move_valid_columns n flags R m f b = (f', b')"
      using f True st(1) by (subst move_valid_columns.simps) simp
    moreover have "filter (\<lambda>c. \<not> flags ! c) [f ..< f'] = []"
      using st(2,5) True by (simp add: upt_conv_Cons)
    ultimately show ?thesis using st by (meson Suc_leD)
  next
    case False
    then have "move_valid_columns n flags R m f b = (f, b)"
      by (subst move_valid_columns.simps) simp
    then show ?thesis using Suc.prems False by auto
  qed
qed

lemma rep_pivot_rows:
  assumes "rep Gf R n a A" "rep Gf R n b B" "p < R" "q < n" "Gf c = inverse (A p q)"
  shows "\<exists>a' b'. pivot_rows n R p q c (a, b) = (a', b')
    \<and> rep Gf R n a' (elim_step p q A A) \<and> rep Gf R n b' (elim_step p q A B)"
proof -
  have eq: "mul (m ! (p * n + col)) factor = mul factor (m ! (p * n + col))" for m factor col
    by (rule gf.mul_commute)
  show ?thesis using gf.eliminate [OF assms] unfolding pivot_rows_def by (simp only: eq)
qed

lemma upt_split: "i \<le> j \<Longrightarrow> j \<le> k \<Longrightarrow> [i ..< k] = [i ..< j] @ [j ..< k]"
  using upt_add_eq_append [of i j "k - j"] by simp

lemma missing_rows_at:
  assumes "f < n" "\<not> flags ! f"
  shows "length (filter (\<lambda>c. \<not> flags ! c) [0 ..< f]) < length (missing_rows n flags)
    \<and> missing_rows n flags ! length (filter (\<lambda>c. \<not> flags ! c) [0 ..< f]) = f"
proof -
  have "[0 ..< n] = [0 ..< f] @ f # [Suc f ..< n]"
    using assms(1) upt_split [of 0 f n] by (simp add: upt_conv_Cons)
  then have "missing_rows n flags = filter (\<lambda>c. \<not> flags ! c) [0 ..< f] @ f # filter (\<lambda>c. \<not> flags ! c) [Suc f ..< n]"
    using assms(2) by (simp add: missing_rows_def)
  then show ?thesis by (simp add: nth_append)
qed

lemma invert_loop_spec:
  assumes "rows_ok n flags recs" "R = length (missing_rows n flags)"
    and "rep Gf R n a A" "rep Gf R n b B" "f \<le> n" "p = length (filter (\<lambda>c. \<not> flags ! c) [0 ..< f])"
    and "r5_inv n flags recs f p A B"
  shows "\<exists>b' A' B'. invert_loop n flags R p f a b = Inr (Some b') \<and> rep Gf R n b' B'
    \<and> r5_inv n flags recs n R A' B'"
  using assms(3-)
proof (induction "n - f" arbitrary: f p a b A B rule: less_induct)
  case less
  have done_: "p = R" if "f = n" using that less.prems(4) assms(2) by (simp add: missing_rows_def)
  show ?case
  proof (cases "f < n")
    case False
    then have "f = n" using less.prems(3) by simp
    then have "invert_loop n flags R p f a b = Inr (Some b)"
      by (subst invert_loop.simps) simp
    moreover have "r5_inv n flags recs n R A B"
      using done_ less.prems(5) \<open>f = n\<close> by simp
    ultimately show ?thesis using less.prems(2) by blast
  next
    case True
    obtain f' b1 B1 where mv: "move_valid_columns n flags R a f b = (f', b1)" "f \<le> f'" "f' \<le> n"
      "f' < n \<longrightarrow> \<not> flags ! f'" "filter (\<lambda>c. \<not> flags ! c) [f ..< f'] = []"
      "rep Gf R n b1 B1" "r5_inv n flags recs f' p A B1"
      using rep_move_valid_columns [OF less.prems(1,2,5,3) assms(2)] by blast
    have "[0 ..< f'] = [0 ..< f] @ [f ..< f']" using mv(2) by (intro upt_split) simp_all
    then have p: "p = length (filter (\<lambda>c. \<not> flags ! c) [0 ..< f'])"
      using less.prems(4) mv(5) by simp
    show ?thesis
    proof (cases "f' = n")
      case True
      then have "invert_loop n flags R p f a b = Inr (Some b1)"
        using mv(1) \<open>f < n\<close> by (subst invert_loop.simps) simp
      moreover have "p = R" using True p assms(2) by (simp add: missing_rows_def)
      ultimately show ?thesis using mv(6,7) True by blast
    next
      case False
      then have f': "f' < n" "\<not> flags ! f'" using mv(3,4) by auto
      have ms: "p < R" "missing_rows n flags ! p = f'"
        using missing_rows_at [OF f'] p assms(2) by simp_all
      have nz: "A p f' \<noteq> 0" using r5_pivot_nonzero [OF mv(7) assms(1)] ms assms(2) by auto
      have e: "Gf (a ! (p * n + f')) = A p f'" by (rule rep_nth [OF less.prems(1) ms(1) f'(1)])
      then have anz: "a ! (p * n + f') \<noteq> 0" using nz by (auto simp: Gf_hom)
      then obtain c where c: "inv_or_panic (a ! (p * n + f')) = Inr c" "Gf c = inverse (A p f')"
        using e by (simp add: inv_or_panic_def inv_ginv Gf_hom)
      obtain a2 b2 where pr: "pivot_rows n R p f' c (a, b1) = (a2, b2)"
        "rep Gf R n a2 (elim_step p f' A A)" "rep Gf R n b2 (elim_step p f' A B1)"
        using rep_pivot_rows [OF less.prems(1) mv(6) ms(1) f'(1) c(2)] by blast
      have inv2: "r5_inv n flags recs (Suc f') (Suc p) (elim_step p f' A A) (elim_step p f' A B1)"
        using r5_inv_pivot [OF mv(7) _ ms(2) [symmetric] nz] ms(1) assms(2) by simp
      have "invert_loop n flags R p f a b = invert_loop n flags R (Suc p) (Suc f') a2 b2"
        using \<open>f < n\<close> mv(1) False ms(1) anz c(1) pr(1) by (subst invert_loop.simps) (simp add: Let_def)
      moreover have "Suc p = length (filter (\<lambda>c. \<not> flags ! c) [0 ..< Suc f'])"
        using p f'(2) by simp
      ultimately show ?thesis
        using less.hyps [OF _ pr(2,3) _ _ inv2] f'(1) mv(2) \<open>f < n\<close> by simp
    qed
  qed
qed

section \<open>The coder\<close>

lemma r5_inv_solves:
  assumes "r5_inv n flags recs n (length (missing_rows n flags)) A B" "unit_vector n flags recs d w"
    and "i < length (missing_rows n flags)"
  shows "(\<Sum>c<n. B i c * w c) = d (missing_rows n flags ! i)"
proof -
  let ?ms = "missing_rows n flags"
  have "(\<Sum>c<n. B i c * w c) = (\<Sum>c\<in>set ?ms. A i c * d c)"
    using assms by (simp add: r5_inv_def Let_def pending_end)
  also have "\<dots> = (\<Sum>q<length ?ms. A i (?ms ! q) * d (?ms ! q))"
    by (simp add: sum.distinct_set_conv_list distinct_missing_rows sum_list_sum_nth atLeast0LessThan)
  also have "\<dots> = (\<Sum>q<length ?ms. if i = q then d (?ms ! q) else 0)"
    using assms(1,3) by (intro sum.cong) (simp_all add: r5_inv_def Let_def)
  finally show ?thesis using assms(3) by simp
qed

lemma length_missing_rows:
  "n \<le> length flags \<Longrightarrow> length (missing_rows n flags) = length (filter Not (take n flags))"
proof -
  assume n: "n \<le> length flags"
  have "take n flags = map ((!) flags) [0 ..< n]"
    using n by (simp add: list_eq_iff_nth_eq)
  then show ?thesis by (simp add: missing_rows_def filter_map o_def)
qed

lemma length_recovery_rows: "length (recovery_rows n flags) = length (filter id (drop n flags))"
proof -
  have "drop n flags = map ((!) flags) [n ..< length flags]"
    by (simp add: list_eq_iff_nth_eq)
  then show ?thesis by (simp add: recovery_rows_def filter_map o_def)
qed

definition decoder_accepts :: "nat \<Rightarrow> nat \<Rightarrow> bool list \<Rightarrow> bool" where
  "decoder_accepts data_count rec_count flags \<longleftrightarrow> 0 < data_count \<and> 0 < rec_count
     \<and> data_count + rec_count \<le> 65535 \<and> length flags = data_count + rec_count
     \<and> missing_rows data_count flags \<noteq> []
     \<and> length (missing_rows data_count flags) \<le> length (recovery_rows data_count flags)"

lemma new_decoder_spec:
  assumes "decoder_accepts n k flags"
  shows "\<exists>coder B. new_decoder n k flags = Inr (Some coder) \<and> rs_data_count coder = n
    \<and> rs_missing_data_count coder = length (missing_rows n flags)
    \<and> rep Gf (length (missing_rows n flags)) n (rs_matrix coder) B
    \<and> (\<forall>d w i. unit_vector n flags (recovery_rows n flags) d w \<longrightarrow> i < length (missing_rows n flags)
        \<longrightarrow> (\<Sum>c<n. B i c * w c) = d (missing_rows n flags ! i))"
proof -
  let ?R = "length (missing_rows n flags)" let ?recs = "recovery_rows n flags"
  note a = assms [unfolded decoder_accepts_def]
  have ok: "rows_ok n flags ?recs"
    using a by (auto simp: rows_ok_def recovery_rows_def)
  have z: "rep Gf ?R n (replicate (?R * n) 0) (\<lambda>i j. 0)" by (simp add: rep_def gf_simps flat_less)
  obtain m where m: "make_decoder_matrix n flags ?R = Inr (Some m)"
    "rep Gf ?R n m (\<lambda>i j. if 0 \<le> i then cauchy (?recs ! (i - 0)) j else 0)"
    using rep_make_decoder_rows [of flags n n 0 ?R _ _ 0, OF _ _ _ z] a
    by (auto simp: make_decoder_matrix_def missing_rows_def)
  have m': "rep Gf ?R n m (\<lambda>i. cauchy (?recs ! i))" by (rule rep_cong [OF m(2)]) simp
  obtain b where b: "key_rows n flags [0 ..< ?R] 0 (replicate (?R * n) 0) = Some b"
    "rep Gf ?R n b (\<lambda>i j. if 0 \<le> i \<and> j = filter (\<lambda>c. \<not> flags ! c) [0 ..< n] ! (i - 0) then 1 else 0)"
    using rep_key_rows [of 0 n ?R, OF _ z, of 0 flags] by (auto simp: missing_rows_def)
  have b': "rep Gf ?R n b (\<lambda>i j. if j = missing_rows n flags ! i then 1 else 0)"
    by (rule rep_cong [OF b(2)]) (simp add: missing_rows_def)
  obtain v A B where v: "invert_loop n flags ?R 0 0 m b = Inr (Some v)" "rep Gf ?R n v B"
    "r5_inv n flags ?recs n ?R A B"
    using invert_loop_spec [OF ok refl m' b' _ _ r5_inv_init] by auto
  have "new_decoder n k flags = Inr (Some \<lparr>rs_data_count = n, rs_matrix = v, rs_missing_data_count = ?R\<rparr>)"
    using a m(1) b(1) v(1) length_missing_rows [of n flags] length_recovery_rows [of n flags]
    by (auto simp: new_decoder_def GF_SIZE_def Let_def and_then_def invert_decoder_matrix_def)
  then show ?thesis using v(2) r5_inv_solves [OF v(3)] by auto
qed

lemma new_decoder_rejects:
  assumes "\<not> decoder_accepts n k flags"
  shows "new_decoder n k flags = Inr None"
proof (cases "n = 0 \<or> k = 0 \<or> n + k > GF_SIZE \<or> length flags \<noteq> n + k")
  case True
  then show ?thesis by (simp add: new_decoder_def)
next
  case False
  then have "missing_rows n flags = [] \<or> length (recovery_rows n flags) < length (missing_rows n flags)"
    using assms by (auto simp: decoder_accepts_def GF_SIZE_def)
  then have "length (filter Not (take n flags)) = 0
      \<or> length (filter id (drop n flags)) < length (filter Not (take n flags))"
    using False length_missing_rows [of n flags] length_recovery_rows [of n flags] by auto
  then show ?thesis using False by (auto simp: new_decoder_def Let_def)
qed

lemma rep_fill_encoder_rows:
  assumes "n + R \<le> 65536" "k \<le> R" "rep Gf R n m F"
  shows "\<exists>m'. fill_encoder_rows n [k ..< R] m = Inr m'
    \<and> rep Gf R n m' (\<lambda>i j. if k \<le> i then cauchy (i + n) j else F i j)"
  using assms(2,3)
proof (induction "R - k" arbitrary: k m F)
  case 0
  have "rep Gf R n m (\<lambda>i j. if k \<le> i then cauchy (i + n) j else F i j)"
    by (rule rep_cong [OF 0(3)]) (use 0 in auto)
  then show ?case using 0 by simp
next
  case (Suc l)
  then have k: "k < R" and u: "[k ..< R] = k # [Suc k ..< R]" by (simp_all add: upt_conv_Cons)
  have l: "l = R - Suc k" using Suc.hyps(2) by simp
  obtain m1 where m1: "fill_cauchy_row (k + n) (k * n) [0 ..< n] m = Inr m1"
    "rep Gf R n m1 (\<lambda>i j. if i = k \<and> 0 \<le> j then cauchy (k + n) j else F i j)"
    using rep_fill_cauchy_row [OF Suc.prems(2) k _ _ le0, of "k + n"] assms(1) k by auto
  obtain m' where m': "fill_encoder_rows n [Suc k ..< R] m1 = Inr m'"
    "rep Gf R n m' (\<lambda>i j. if Suc k \<le> i then cauchy (i + n) j
       else if i = k \<and> 0 \<le> j then cauchy (k + n) j else F i j)"
    using Suc.hyps(1) [OF l _ m1(2)] k by auto
  have "rep Gf R n m' (\<lambda>i j. if k \<le> i then cauchy (i + n) j else F i j)"
    by (rule rep_cong [OF m'(2)]) (auto simp: not_less_eq_eq)
  then show ?case using m1(1) m'(1) u by simp
qed

end
