(* ===== verification/Gf_Region.thy ===== *)
theory Gf_Region
  imports Gf16
begin

text \<open>
  Multiplying whole regions, \<open>gf_simd.rs\<close> and \<open>gf_pmul.rs\<close>: buffers of little-endian words are
  multiplied by one factor and accumulated. The model is the portable path, which targets without a
  vector kernel run; the nibble tables the vector kernels look their products up in are built here
  too and shown to give the product of the field.
\<close>

unbundle bit_operations_syntax

section \<open>Buffers of words\<close>

definition get_word :: "bytes \<Rightarrow> nat \<Rightarrow> u16" where
  "get_word bs w = from_le_bytes [bs ! (w * 2), bs ! (w * 2 + 1)]"

definition put_word :: "bytes \<Rightarrow> nat \<Rightarrow> u16 \<Rightarrow> bytes" where
  "put_word bs w v = (let b = to_le_bytes 2 v in bs[w * 2 := b ! 0, w * 2 + 1 := b ! 1])"

definition le_words :: "bytes \<Rightarrow> u16 list" where
  "le_words bs = map (get_word bs) [0 ..< length bs div 2]"

section \<open>Model\<close>

definition mul_acc_region_scalar :: "u16 \<Rightarrow> bytes \<Rightarrow> bytes \<Rightarrow> bytes" where
  "mul_acc_region_scalar factor src dst =
     fold (\<lambda>w dst. put_word dst w (add (get_word dst w) (mul (get_word src w) factor)))
       [0 ..< length src div 2] dst"

text \<open>The assertions on the lengths panic.\<close>

definition mul_acc_region :: "u16 \<Rightarrow> bytes \<Rightarrow> bytes \<Rightarrow> bytes option" where
  "mul_acc_region factor src dst =
     (if length src \<noteq> length dst \<or> odd (length src) then None
      else if factor = 0 \<or> src = [] then Some dst
      else if factor = 1 then Some (map2 (XOR) dst src)
      else Some (mul_acc_region_scalar factor src dst))"

definition pmul_region_scalar :: "bytes \<Rightarrow> bytes \<Rightarrow> bytes \<Rightarrow> bytes" where
  "pmul_region_scalar dst a b =
     fold (\<lambda>w dst. put_word dst w (mul (get_word a w) (get_word b w))) [0 ..< length dst div 2] dst"

definition pmul_region :: "bytes \<Rightarrow> bytes \<Rightarrow> bytes \<Rightarrow> bytes option" where
  "pmul_region dst a b =
     (if length a \<noteq> length dst \<or> length b \<noteq> length dst \<or> odd (length dst) then None
      else if dst = [] then Some dst
      else Some (pmul_region_scalar dst a b))"

text \<open>
  The tables of products by nibble: tables \<open>2 k\<close> and \<open>2 k + 1\<close> hold the low and the high bytes of
  the products with the values of nibble \<open>k\<close>.
\<close>

definition mul_tables_from_field :: "u16 \<Rightarrow> bytes list" where
  "mul_tables_from_field factor =
     [map (\<lambda>v. ucast (mul factor v)) (map of_nat [0 ..< 16]),
      map (\<lambda>v. ucast (drop_bit 8 (mul factor v))) (map of_nat [0 ..< 16]),
      map (\<lambda>v. ucast (mul factor (push_bit 4 v))) (map of_nat [0 ..< 16]),
      map (\<lambda>v. ucast (drop_bit 8 (mul factor (push_bit 4 v)))) (map of_nat [0 ..< 16]),
      map (\<lambda>v. ucast (mul factor (push_bit 8 v))) (map of_nat [0 ..< 16]),
      map (\<lambda>v. ucast (drop_bit 8 (mul factor (push_bit 8 v)))) (map of_nat [0 ..< 16]),
      map (\<lambda>v. ucast (mul factor (push_bit 12 v))) (map of_nat [0 ..< 16]),
      map (\<lambda>v. ucast (drop_bit 8 (mul factor (push_bit 12 v)))) (map of_nat [0 ..< 16])]"

definition nibble_scratch_mul_tables :: "bytes list list list" where
  "nibble_scratch_mul_tables =
     map (\<lambda>nibble. map (\<lambda>v. mul_tables_from_field (push_bit (4 * nibble) (of_nat v))) [0 ..< 16]) [0 ..< 4]"

definition precompute_mul_tables :: "u16 \<Rightarrow> bytes list" where
  "precompute_mul_tables factor =
     (let a = nibble_scratch_mul_tables ! 0 ! unat (factor AND 0xF);
          b = nibble_scratch_mul_tables ! 1 ! unat (drop_bit 4 factor AND 0xF);
          c = nibble_scratch_mul_tables ! 2 ! unat (drop_bit 8 factor AND 0xF);
          d = nibble_scratch_mul_tables ! 3 ! unat (drop_bit 12 factor AND 0xF)
      in map (\<lambda>((a, b), (c, d)).
           map (\<lambda>((a, b), (c, d)). a XOR b XOR c XOR d) (zip (zip a b) (zip c d)))
         (zip (zip a b) (zip c d)))"

section \<open>Words of a buffer\<close>

lemma get_put_word:
  assumes "Suc (w * 2) < length bs" "Suc (v * 2) < length bs"
  shows "get_word (put_word bs w x) v = (if v = w then x else get_word bs v)"
proof -
  have "w * 2 \<noteq> v * 2 + 1" "w * 2 + 1 \<noteq> v * 2" by presburger+
  moreover have "from_le_bytes [to_le_bytes 2 x ! 0, to_le_bytes 2 x ! 1] = x"
  proof -
    have "[to_le_bytes 2 x ! 0, to_le_bytes 2 x ! 1] = to_le_bytes 2 x"
      by (rule nth_equalityI) (auto simp: less_Suc_eq numeral_2_eq_2)
    then show ?thesis using from_to_le_bytes [of 2 x] by simp
  qed
  ultimately show ?thesis
    using assms by (auto simp: get_word_def put_word_def Let_def nth_list_update)
qed

lemma length_put_word [simp]: "length (put_word bs w x) = length bs"
  by (simp add: put_word_def Let_def)

lemma length_le_words [simp]: "length (le_words bs) = length bs div 2"
  by (simp add: le_words_def)

lemma le_words_nth: "w < length bs div 2 \<Longrightarrow> le_words bs ! w = get_word bs w"
  by (simp add: le_words_def)

lemma fold_put_word:
  assumes "\<And>w dst'. w < n \<Longrightarrow> get_word dst' w = get_word dst w \<Longrightarrow> f w dst' = g w"
    and "n \<le> length dst div 2"
  shows "length (fold (\<lambda>w dst. put_word dst w (f w dst)) [0 ..< n] dst) = length dst
    \<and> (\<forall>v < length dst div 2. get_word (fold (\<lambda>w dst. put_word dst w (f w dst)) [0 ..< n] dst) v
         = (if v < n then g v else get_word dst v))"
  using assms
proof (induction n)
  case (Suc n)
  let ?d = "fold (\<lambda>w dst. put_word dst w (f w dst)) [0 ..< n] dst"
  have IH: "length ?d = length dst" "\<forall>v < length dst div 2. get_word ?d v = (if v < n then g v else get_word dst v)"
    using Suc.IH Suc.prems by auto
  moreover have "f n ?d = g n" using Suc.prems IH by simp
  ultimately show ?case
    using Suc.prems(2) by (auto simp: get_put_word less_Suc_eq)
qed simp

lemma le_words_mul_acc_region_scalar:
  assumes "length src = length dst"
  shows "length (mul_acc_region_scalar factor src dst) = length dst"
    "le_words (mul_acc_region_scalar factor src dst)
       = map2 (\<lambda>d s. d XOR mul s factor) (le_words dst) (le_words src)"
proof -
  let ?r = "mul_acc_region_scalar factor src dst"
  have r: "length ?r = length dst \<and> (\<forall>v < length dst div 2. get_word ?r v
      = (if v < length src div 2 then get_word dst v XOR mul (get_word src v) factor else get_word dst v))"
    unfolding mul_acc_region_scalar_def by (rule fold_put_word) (simp_all add: assms add_def)
  then show "length ?r = length dst" ..
  show "le_words ?r = map2 (\<lambda>d s. d XOR mul s factor) (le_words dst) (le_words src)"
    using r assms by (intro nth_equalityI) (simp_all add: le_words_nth)
qed

lemma get_word_bit:
  "bit (from_le_bytes [a, b] :: u16) n \<longleftrightarrow> n < 16 \<and> (if n < 8 then bit a n else bit b (n - 8))"
  using bit_imp_le_length [of a n] bit_imp_le_length [of b "n - 8"]
  by (auto simp: bit_simps)

lemma le_words_xor:
  assumes "length src = length dst"
  shows "le_words (map2 (XOR) dst src) = map2 (XOR) (le_words dst) (le_words src)"
proof (rule nth_equalityI)
  fix w assume "w < length (le_words (map2 (XOR) dst src))"
  then have w: "w < length dst div 2" "w * 2 + 1 < length dst" using assms by auto
  have "get_word (map2 (XOR) dst src) w = get_word dst w XOR get_word src w"
    using w assms by (intro bit_eqI) (simp add: get_word_def get_word_bit bit_xor_iff del: from_le_bytes.simps)
  then show "le_words (map2 (XOR) dst src) ! w = map2 (XOR) (le_words dst) (le_words src) ! w"
    using w assms by (simp add: le_words_nth)
qed (simp add: assms)

lemma le_words_inject:
  assumes "length xs = length ys" "even (length xs)" "le_words xs = le_words ys"
  shows "xs = ys"
proof (rule nth_equalityI [OF assms(1)])
  fix i assume i: "i < length xs"
  let ?w = "i div 2"
  have w: "?w < length xs div 2" using i assms(2) by (auto elim!: evenE)
  then have "get_word xs ?w = get_word ys ?w"
    using assms(1,3) le_words_nth [of ?w xs] le_words_nth [of ?w ys] by simp
  then have "to_le_bytes 2 (get_word xs ?w) = to_le_bytes 2 (get_word ys ?w)" by simp
  moreover have "to_le_bytes 2 (get_word zs ?w) = [zs ! (?w * 2), zs ! (?w * 2 + 1)]" for zs
    using to_from_le_bytes [of "[zs ! (?w * 2), zs ! (?w * 2 + 1)]", where 'a = 16]
    by (simp add: get_word_def numeral_2_eq_2 del: from_le_bytes.simps to_le_bytes.simps)
  ultimately have "xs ! (?w * 2) = ys ! (?w * 2)" "xs ! (?w * 2 + 1) = ys ! (?w * 2 + 1)" by simp_all
  moreover have "i = ?w * 2 \<or> i = ?w * 2 + 1" by presburger
  ultimately show "xs ! i = ys ! i" by metis
qed

lemma mul_acc_region_spec:
  assumes "length src = length dst" "even (length src)"
  shows "\<exists>dst'. mul_acc_region factor src dst = Some dst' \<and> length dst' = length dst
    \<and> le_words dst' = map2 (\<lambda>d s. d XOR mul s factor) (le_words dst) (le_words src)"
proof -
  have z: "map2 (\<lambda>d s. d XOR mul s 0) (le_words dst) (le_words src) = le_words dst"
    using assms(1) by (intro nth_equalityI) (simp_all add: mul_def)
  have o: "map2 (\<lambda>d s. d XOR mul s 1) (le_words dst) (le_words src) = map2 (XOR) (le_words dst) (le_words src)"
    by (simp add: mul_gmul)
  consider "factor = 0 \<or> src = []" | "factor = 1" "src \<noteq> []" | "factor \<noteq> 0" "factor \<noteq> 1" "src \<noteq> []" by blast
  then show ?thesis
  proof cases
    case 1
    then show ?thesis using assms z by (auto simp: mul_acc_region_def le_words_def)
  next
    case 2
    then show ?thesis using assms o le_words_xor [OF assms(1)] by (simp add: mul_acc_region_def)
  next
    case 3
    then show ?thesis
      using assms le_words_mul_acc_region_scalar [OF assms(1)] by (simp add: mul_acc_region_def)
  qed
qed

section \<open>Nibble tables\<close>

definition nibble :: "nat \<Rightarrow> u16 \<Rightarrow> u16" where
  "nibble k x = drop_bit (4 * k) x AND 0xF"

lemma bit_nibble: "bit (nibble k x) n \<longleftrightarrow> n < 4 \<and> bit x (4 * k + n)"
proof -
  have m: "(0xF :: u16) = mask 4" by (simp add: mask_eq_exp_minus_1)
  show ?thesis
    unfolding nibble_def m by (simp only: bit_and_iff bit_drop_bit_eq bit_mask_iff o_apply) auto
qed

lemma nibble_less: "unat (nibble k x) < 16"
proof -
  have "nibble k x = take_bit 4 (nibble k x)"
    by (rule bit_eqI) (auto simp: bit_take_bit_iff bit_nibble)
  then have "unat (nibble k x) = take_bit 4 (unat (nibble k x))"
    by (metis unsigned_take_bit_eq)
  moreover have "take_bit 4 (unat (nibble k x)) < 2 ^ 4" by (rule take_bit_nat_less_exp)
  ultimately show ?thesis by simp
qed

lemma nibble_sum:
  "x = push_bit 0 (nibble 0 x) XOR push_bit 4 (nibble 1 x) XOR push_bit 8 (nibble 2 x) XOR push_bit 12 (nibble 3 x)"
proof (rule bit_eqI)
  fix n assume "possible_bit TYPE(u16) n"
  then have n: "n < 16" by simp
  consider "n < 4" | "4 \<le> n" "n < 8" | "8 \<le> n" "n < 12" | "12 \<le> n" by linarith
  then show "bit x n = bit (push_bit 0 (nibble 0 x) XOR push_bit 4 (nibble 1 x) XOR push_bit 8 (nibble 2 x)
      XOR push_bit 12 (nibble 3 x)) n"
    using n by cases (auto simp: bit_xor_iff bit_push_bit_iff bit_nibble)
qed

lemma nibble_scratch_nth:
  "k < 4 \<Longrightarrow> nibble_scratch_mul_tables ! k ! unat (nibble k x) = mul_tables_from_field (push_bit (4 * k) (nibble k x))"
  using nibble_less [of k x] by (simp add: nibble_scratch_mul_tables_def)

lemma zip4_map:
  "map (\<lambda>((a, b), (c, d)). a XOR b XOR c XOR d) (zip (zip (map f l) (map g l)) (zip (map h l) (map k l)))
     = map (\<lambda>v. f v XOR g v XOR h v XOR (k v :: u8)) l"
  by (induction l) simp_all

lemma ucast_xor: "(ucast (a XOR b :: u16) :: u8) = ucast a XOR ucast b"
  by (rule bit_eqI) (simp add: bit_simps)

section \<open>Properties\<close>

text \<open>C39: Accumulating a multiplied region is the field operation on every word, for the shortcuts
  for the factors zero and one as well; it panics exactly on regions of different or odd length.\<close>
theorem mul_acc_region_words:
  "case mul_acc_region factor src dst of
     None \<Rightarrow> \<not> (length src = length dst \<and> even (length src))
   | Some dst' \<Rightarrow> length src = length dst \<and> even (length src) \<and> length dst' = length dst
       \<and> le_words dst' = map2 (\<lambda>d s. d XOR gmul s factor) (le_words dst) (le_words src)"
proof (cases "length src \<noteq> length dst \<or> odd (length src)")
  case True
  then show ?thesis by (simp add: mul_acc_region_def)
next
  case False
  then show ?thesis using mul_acc_region_spec [of src dst factor] by (auto simp: mul_gmul)
qed

text \<open>The tables assembled from the cached contributions of the four nibbles of the factor are
  the tables computed from the field directly.\<close>
theorem precompute_mul_tables_from_field: "precompute_mul_tables factor = mul_tables_from_field factor"
proof -
  let ?n = "\<lambda>k. push_bit (4 * k) (nibble k factor)"
  have s: "nibble_scratch_mul_tables ! 0 ! unat (factor AND 0xF) = mul_tables_from_field (?n 0)"
    "nibble_scratch_mul_tables ! 1 ! unat (drop_bit 4 factor AND 0xF) = mul_tables_from_field (?n 1)"
    "nibble_scratch_mul_tables ! 2 ! unat (drop_bit 8 factor AND 0xF) = mul_tables_from_field (?n 2)"
    "nibble_scratch_mul_tables ! 3 ! unat (drop_bit 12 factor AND 0xF) = mul_tables_from_field (?n 3)"
    using nibble_scratch_nth [of 0 factor] nibble_scratch_nth [of 1 factor]
      nibble_scratch_nth [of 2 factor] nibble_scratch_nth [of 3 factor]
    by (simp_all add: nibble_def)
  have f: "factor = ?n 0 XOR ?n 1 XOR ?n 2 XOR ?n 3" using nibble_sum [of factor] by simp
  have m: "mul factor v = mul (?n 0) v XOR mul (?n 1) v XOR mul (?n 2) v XOR mul (?n 3) v" for v
    by (subst f) (simp only: mul_gmul gmul_xor_left)
  show ?thesis
    unfolding precompute_mul_tables_def Let_def s
    unfolding mul_tables_from_field_def m
    by (simp only: zip_Cons_Cons zip_Nil list.map prod.case zip4_map map_map o_def ucast_xor drop_bit_xor)
qed

text \<open>Looking the four nibbles of a word up in the tables and adding the results gives the two
  bytes of the product, as the vector kernels compute it.\<close>
theorem mul_tables_lookup:
  "ucast (gmul factor x) = mul_tables_from_field factor ! 0 ! unat (nibble 0 x)
     XOR mul_tables_from_field factor ! 2 ! unat (nibble 1 x)
     XOR mul_tables_from_field factor ! 4 ! unat (nibble 2 x)
     XOR mul_tables_from_field factor ! 6 ! unat (nibble 3 x)
   \<and> ucast (drop_bit 8 (gmul factor x)) = mul_tables_from_field factor ! 1 ! unat (nibble 0 x)
     XOR mul_tables_from_field factor ! 3 ! unat (nibble 1 x)
     XOR mul_tables_from_field factor ! 5 ! unat (nibble 2 x)
     XOR mul_tables_from_field factor ! 7 ! unat (nibble 3 x)"
proof -
  have g: "gmul factor x = gmul factor (nibble 0 x) XOR gmul factor (push_bit 4 (nibble 1 x))
      XOR gmul factor (push_bit 8 (nibble 2 x)) XOR gmul factor (push_bit 12 (nibble 3 x))"
    by (subst nibble_sum [of x]) (simp only: gmul_xor_right push_bit_0_id id_apply)
  show ?thesis
    unfolding g
    by (simp add: mul_tables_from_field_def nibble_less mul_gmul ucast_xor drop_bit_xor del: push_bit_numeral)
qed

end
