(* ===== verification/Rar5_Recovery.thy ===== *)
theory Rar5_Recovery
  imports Rar5_Rs Gf_Region
begin

text \<open>
  Encoding and rebuilding RAR5 volumes with the coder of \<open>rar5.rs\<close>: the units are fed one by one
  through \<open>update_outputs\<close>, which accumulates every unit into all output buffers. Recovery volumes
  written by the encoder rebuild the missing data volumes byte for byte.
\<close>

unbundle bit_operations_syntax

section \<open>Model\<close>

primrec update_rows :: "rar5_rs_coder \<Rightarrow> nat \<Rightarrow> bytes \<Rightarrow> nat \<Rightarrow> bytes list \<Rightarrow> bytes list option" where
  "update_rows coder data_num data row [] = Some []"
| "update_rows coder data_num data row (out # outs) =
     (if length out \<noteq> length data then None
      else let factor = rs_matrix coder ! (row * rs_data_count coder + data_num) in
        case if factor \<noteq> 0 then mul_acc_region factor data out else Some out of
          None \<Rightarrow> None
        | Some out \<Rightarrow> map_option (Cons out) (update_rows coder data_num data (row + 1) outs))"

text \<open>The assertions of the source panic.\<close>

definition update_outputs :: "rar5_rs_coder \<Rightarrow> nat \<Rightarrow> bytes \<Rightarrow> bytes list \<Rightarrow> bytes list option" where
  "update_outputs coder data_num data outputs =
     (if data_num \<ge> rs_data_count coder \<or> length outputs \<noteq> rs_missing_data_count coder \<or> odd (length data)
      then None
      else update_rows coder data_num data 0
        (if data_num = 0 then map (\<lambda>out. replicate (length out) 0) outputs else outputs))"

definition output_count :: "rar5_rs_coder \<Rightarrow> nat" where
  "output_count coder = rs_missing_data_count coder"

text \<open>A full pass over the units, in order, as the callers make it.\<close>

primrec feed_units :: "rar5_rs_coder \<Rightarrow> nat \<Rightarrow> bytes list \<Rightarrow> bytes list \<Rightarrow> bytes list option" where
  "feed_units coder data_num [] outputs = Some outputs"
| "feed_units coder data_num (u # us) outputs =
     (case update_outputs coder data_num u outputs of
        None \<Rightarrow> None
      | Some outputs \<Rightarrow> feed_units coder (data_num + 1) us outputs)"

text \<open>
  The units of a decoder: each data volume that is present, and for the next missing one the next
  recovery volume that is present.
\<close>

definition decoder_units :: "nat \<Rightarrow> bool list \<Rightarrow> bytes list \<Rightarrow> bytes list \<Rightarrow> bytes list" where
  "decoder_units n flags data recs =
     map (\<lambda>c. if flags ! c then data ! c
              else recs ! (recovery_rows n flags ! length (filter (\<lambda>c. \<not> flags ! c) [0 ..< c]) - n)) [0 ..< n]"

section \<open>One pass\<close>

lemma update_rows_spec:
  assumes "\<forall>out \<in> set outs. length out = L" "length data = L" "even L"
  shows "\<exists>outs'. update_rows coder num data row outs = Some outs' \<and> length outs' = length outs
    \<and> (\<forall>i < length outs. length (outs' ! i) = L \<and> le_words (outs' ! i)
        = map2 (\<lambda>d s. d XOR mul s (rs_matrix coder ! ((row + i) * rs_data_count coder + num)))
            (le_words (outs ! i)) (le_words data))"
  using assms(1)
proof (induction outs arbitrary: row)
  case (Cons out outs)
  let ?f = "rs_matrix coder ! (row * rs_data_count coder + num)"
  have len: "length data = length out" "even (length data)" using Cons.prems assms(2,3) by simp_all
  have "\<exists>out'. (if ?f \<noteq> 0 then mul_acc_region ?f data out else Some out) = Some out'
    \<and> length out' = L \<and> le_words out' = map2 (\<lambda>d s. d XOR mul s ?f) (le_words out) (le_words data)"
  proof (cases "?f = 0")
    case True
    have "map2 (\<lambda>d s. d XOR mul s 0) (le_words out) (le_words data) = le_words out"
      using len(1) by (intro nth_equalityI) (simp_all add: mul_def)
    then show ?thesis using True Cons.prems by simp
  next
    case False
    then show ?thesis using mul_acc_region_spec [OF len, of ?f] Cons.prems by auto
  qed
  then obtain out' where o: "(if ?f \<noteq> 0 then mul_acc_region ?f data out else Some out) = Some out'"
    "length out' = L" "le_words out' = map2 (\<lambda>d s. d XOR mul s ?f) (le_words out) (le_words data)" by blast
  obtain outs' where os: "update_rows coder num data (Suc row) outs = Some outs'" "length outs' = length outs"
    "\<forall>i < length outs. length (outs' ! i) = L \<and> le_words (outs' ! i)
        = map2 (\<lambda>d s. d XOR mul s (rs_matrix coder ! ((Suc row + i) * rs_data_count coder + num)))
            (le_words (outs ! i)) (le_words data)"
    using Cons.IH [of "Suc row"] Cons.prems by auto
  have "update_rows coder num data row (out # outs) = Some (out' # outs')"
    using o(1) os(1) len(1) by (simp add: Let_def)
  moreover have "length ((out' # outs') ! i) = L \<and> le_words ((out' # outs') ! i)
        = map2 (\<lambda>d s. d XOR mul s (rs_matrix coder ! ((row + i) * rs_data_count coder + num)))
            (le_words ((out # outs) ! i)) (le_words data)" if "i < Suc (length outs)" for i
    using that o(2,3) os(3) by (cases i) simp_all
  ultimately show ?case using os(2) by auto
qed simp

text \<open>What the outputs hold after the first \<open>k\<close> units.\<close>

definition partial_sums ::
  "nat \<Rightarrow> nat \<Rightarrow> (nat \<Rightarrow> nat \<Rightarrow> gf16) \<Rightarrow> bytes list \<Rightarrow> nat \<Rightarrow> bytes list \<Rightarrow> bool" where
  "partial_sums R L M units k outs \<longleftrightarrow> length outs = R
     \<and> (\<forall>i < R. length (outs ! i) = L
        \<and> (\<forall>w < L div 2. Gf (get_word (outs ! i) w) = (\<Sum>c<k. M i c * Gf (get_word (units ! c) w))))"

lemma update_outputs_spec:
  assumes coder: "rep Gf R n (rs_matrix coder) M" "rs_data_count coder = n" "rs_missing_data_count coder = R"
    and "num < n" "length (units ! num) = L" "even L"
    and outs: "if num = 0 then length outs = R \<and> (\<forall>out \<in> set outs. length out = L)
      else partial_sums R L M units num outs"
  shows "\<exists>outs'. update_outputs coder num (units ! num) outs = Some outs'
    \<and> partial_sums R L M units (Suc num) outs'"
proof -
  let ?o = "if num = 0 then map (\<lambda>out. replicate (length out) 0) outs else outs"
  have z: "get_word (replicate L 0) w = 0" if "w < L div 2" for w
    using that by (simp add: get_word_def)
  have lo: "length ?o = R" using outs by (simp add: partial_sums_def split: if_splits)
  have ps: "partial_sums R L M units num ?o"
    using outs z by (auto simp: partial_sums_def Gf_hom split: if_splits)
  then have "\<forall>out \<in> set ?o. length out = L"
    by (auto simp: partial_sums_def in_set_conv_nth)
  from update_rows_spec [OF this assms(5,6), of coder num 0] lo obtain outs' where
    u: "update_rows coder num (units ! num) 0 ?o = Some outs'" "length outs' = R"
    "\<forall>i < R. length (outs' ! i) = L \<and> le_words (outs' ! i)
        = map2 (\<lambda>d s. d XOR mul s (rs_matrix coder ! (i * n + num))) (le_words (?o ! i)) (le_words (units ! num))"
    by (auto simp: coder(2))
  have "update_outputs coder num (units ! num) outs = Some outs'"
    using u(1) outs assms(4-6) by (simp add: update_outputs_def coder(2,3) partial_sums_def split: if_splits)
  moreover have "Gf (get_word (outs' ! i) w) = (\<Sum>c<Suc num. M i c * Gf (get_word (units ! c) w))"
    if "i < R" "w < L div 2" for i w
  proof -
    have "get_word (outs' ! i) w = le_words (outs' ! i) ! w"
      by (subst le_words_nth) (use u(3) that in simp_all)
    also have "\<dots> = get_word (?o ! i) w XOR mul (get_word (units ! num) w) (rs_matrix coder ! (i * n + num))"
      using u(3) that ps assms(5) by (simp add: le_words_nth partial_sums_def del: map_eq_conv)
    finally show ?thesis
      using ps that rep_nth [OF coder(1) that(1) assms(4)]
      by (simp add: partial_sums_def gf.emb_add gf.emb_mul mult.commute)
  qed
  ultimately show ?thesis using u(2,3) by (auto simp: partial_sums_def)
qed

lemma feed_units_spec:
  assumes coder: "rep Gf R n (rs_matrix coder) M" "rs_data_count coder = n" "rs_missing_data_count coder = R"
    and units: "length units = n" "\<forall>u \<in> set units. length u = L" "even L"
    and "k \<le> n" "if k = 0 then length outs = R \<and> (\<forall>out \<in> set outs. length out = L)
      else partial_sums R L M units k outs" "0 < n"
  shows "\<exists>outs'. feed_units coder k (drop k units) outs = Some outs' \<and> partial_sums R L M units n outs'"
  using assms(7,8)
proof (induction "n - k" arbitrary: k outs)
  case 0
  then show ?case using units(1) \<open>0 < n\<close> by simp
next
  case (Suc l)
  then have k: "k < n" by simp
  have "length (units ! k) = L" using units k by simp
  from update_outputs_spec [OF coder k this units(3) Suc.prems(2)] obtain outs1 where
    o: "update_outputs coder k (units ! k) outs = Some outs1" "partial_sums R L M units (Suc k) outs1" by blast
  have "drop k units = units ! k # drop (Suc k) units" using k units(1) by (simp add: Cons_nth_drop_Suc)
  moreover have "l = n - Suc k" using Suc.hyps(2) by simp
  ultimately show ?case using Suc.hyps(1) [of "Suc k" outs1] o k by simp
qed

lemma encode_spec:
  assumes "0 < n" "0 < k" "n + k \<le> 65535" "length units = n" "\<forall>u \<in> set units. length u = L" "even L"
    and "length outs = k" "\<forall>out \<in> set outs. length out = L"
  shows "\<exists>coder recs. new_encoder n k = Inr (Some coder) \<and> feed_units coder 0 units outs = Some recs
    \<and> partial_sums k L (\<lambda>i. cauchy (i + n)) units n recs"
proof -
  have z: "rep Gf k n (replicate (k * n) 0) (\<lambda>i j. 0)" by (simp add: rep_def gf_simps flat_less)
  obtain m where m: "fill_encoder_rows n [0 ..< k] (replicate (k * n) 0) = Inr m"
    "rep Gf k n m (\<lambda>i j. if 0 \<le> i then cauchy (i + n) j else 0)"
    using rep_fill_encoder_rows [OF _ le0 z] assms(3) by auto
  have m': "rep Gf k n m (\<lambda>i. cauchy (i + n))" by (rule rep_cong [OF m(2)]) simp
  let ?c = "\<lparr>rs_data_count = n, rs_matrix = m, rs_missing_data_count = k\<rparr>"
  have "new_encoder n k = Inr (Some ?c)"
    using assms(1-3) m(1) by (simp add: new_encoder_def GF_SIZE_def)
  moreover have "\<exists>recs. feed_units ?c 0 units outs = Some recs
      \<and> partial_sums k L (\<lambda>i. cauchy (i + n)) units n recs"
    using feed_units_spec [of k n ?c "\<lambda>i. cauchy (i + n)" units L 0 outs] m' assms by simp
  ultimately show ?thesis by blast
qed

section \<open>Properties\<close>

text \<open>C5: The decoder never panics. It refuses exactly the sets with no data or no recovery volumes,
  with more volumes than the field has points, with flags of another length, with nothing missing,
  or with fewer recovery volumes present than data volumes missing; on all others the inversion
  succeeds.\<close>
theorem new_decoder_total:
  "new_decoder data_count rec_count flags \<noteq> Inl RsPanic
   \<and> (new_decoder data_count rec_count flags = Inr None \<longleftrightarrow>
       \<not> (0 < data_count \<and> 0 < rec_count \<and> data_count + rec_count \<le> 65535
          \<and> length flags = data_count + rec_count
          \<and> 0 < length (filter Not (take data_count flags))
          \<and> length (filter Not (take data_count flags)) \<le> length (filter id (drop data_count flags))))"
proof (cases "decoder_accepts data_count rec_count flags")
  case True
  then have "length (missing_rows data_count flags) = length (filter Not (take data_count flags))"
    by (intro length_missing_rows) (simp add: decoder_accepts_def)
  then show ?thesis
    using True new_decoder_spec [OF True] length_recovery_rows [of data_count flags]
    by (auto simp: decoder_accepts_def)
next
  case False
  have "data_count \<le> length flags \<Longrightarrow>
      length (missing_rows data_count flags) = length (filter Not (take data_count flags))"
    by (rule length_missing_rows)
  then show ?thesis
    using False new_decoder_rejects [OF False] length_recovery_rows [of data_count flags]
    by (auto simp: decoder_accepts_def)
qed

text \<open>C2: Recovery volumes written by the encoder rebuild the missing data volumes: whenever at least
  as many recovery volumes are present as data volumes are missing, feeding the decoder the present
  volumes leaves exactly the missing data volumes in its outputs.\<close>
theorem rar5_recovery_roundtrip:
  assumes "0 < n" "0 < k" "n + k \<le> 65535"
    and "length data = n" "\<forall>u \<in> set data. length u = L" "even L"
    and "length flags = n + k" "filter Not (take n flags) \<noteq> []"
    and "length (filter Not (take n flags)) \<le> length (filter id (drop n flags))"
  shows "\<exists>enc recs dec.
      new_encoder n k = Inr (Some enc)
    \<and> feed_units enc 0 data (replicate k (replicate L 0)) = Some recs
    \<and> new_decoder n k flags = Inr (Some dec)
    \<and> feed_units dec 0 (decoder_units n flags data recs)
        (replicate (output_count dec) (replicate L 0))
      = Some (map ((!) data) (filter (\<lambda>c. \<not> flags ! c) [0 ..< n]))"
proof -
  let ?ms = "missing_rows n flags" let ?R = "length ?ms" let ?recs = "recovery_rows n flags"
  have acc: "decoder_accepts n k flags"
    using assms length_missing_rows [of n flags] length_recovery_rows [of n flags]
    by (auto simp: decoder_accepts_def)
  obtain enc recs where enc: "new_encoder n k = Inr (Some enc)"
    "feed_units enc 0 data (replicate k (replicate L 0)) = Some recs"
    "partial_sums k L (\<lambda>i. cauchy (i + n)) data n recs"
    using encode_spec [of n k data L "replicate k (replicate L 0)"] assms by auto
  obtain dec B where dec: "new_decoder n k flags = Inr (Some dec)" "rs_data_count dec = n"
    "rs_missing_data_count dec = ?R" "rep Gf ?R n (rs_matrix dec) B"
    "\<forall>d w i. unit_vector n flags ?recs d w \<longrightarrow> i < ?R \<longrightarrow> (\<Sum>c<n. B i c * w c) = d (?ms ! i)"
    using new_decoder_spec [OF acc] by blast
  let ?units = "decoder_units n flags data recs"
  have rr: "n \<le> ?recs ! i" "?recs ! i < n + k" if "i < ?R" for i
    using nth_mem [of i ?recs] that acc by (auto simp: decoder_accepts_def recovery_rows_def)
  have miss: "?units ! (?ms ! i) = recs ! (?recs ! i - n)" if "i < ?R" for i
  proof -
    have "?ms ! i < n" "\<not> flags ! (?ms ! i)" using missing_rows_nth [OF that] by auto
    moreover from missing_rows_at [OF this] have "length (filter (\<lambda>c. \<not> flags ! c) [0 ..< ?ms ! i]) = i"
      using that distinct_missing_rows [of n flags] by (metis nth_eq_iff_index_eq)
    ultimately show ?thesis by (simp add: decoder_units_def)
  qed
  have lu: "length u = L" if u: "u \<in> set ?units" for u
  proof -
    have "length ?units = n" by (simp add: decoder_units_def)
    moreover obtain c where "c < length ?units" "u = ?units ! c"
      using u unfolding in_set_conv_nth by blast
    ultimately have c: "c < n" "u = ?units ! c" by simp_all
    show ?thesis
    proof (cases "flags ! c")
      case True then show ?thesis using c assms(4,5) by (simp add: decoder_units_def)
    next
      case False
      define i where "i = length (filter (\<lambda>c. \<not> flags ! c) [0 ..< c])"
      have i: "i < ?R" "?ms ! i = c" using missing_rows_at [OF c(1) False] by (simp_all add: i_def)
      have "u = recs ! (?recs ! i - n)" using miss [OF i(1)] i(2) c(2) by simp
      then show ?thesis using rr [OF i(1)] enc(3) by (simp add: partial_sums_def)
    qed
  qed
  obtain outs where outs: "feed_units dec 0 ?units (replicate ?R (replicate L 0)) = Some outs"
    "partial_sums ?R L B ?units n outs"
    using feed_units_spec [OF dec(4,2,3), of ?units L 0 "replicate ?R (replicate L 0)"] lu assms(1,6)
    by (auto simp: decoder_units_def)
  have uv: "unit_vector n flags ?recs (\<lambda>c. Gf (get_word (data ! c) w)) (\<lambda>c. Gf (get_word (?units ! c) w))"
    if "w < L div 2" for w
  proof -
    have "Gf (get_word (recs ! (?recs ! i - n)) w) = (\<Sum>c<n. cauchy (?recs ! i) c * Gf (get_word (data ! c) w))"
      if "i < ?R" for i
      using enc(3) rr [OF that] \<open>w < L div 2\<close> by (simp add: partial_sums_def)
    then show ?thesis by (auto simp: unit_vector_def miss) (simp add: decoder_units_def)
  qed
  have "outs ! i = data ! (?ms ! i)" if i: "i < ?R" for i
  proof (rule le_words_inject)
    have ld: "length (data ! (?ms ! i)) = L" using missing_rows_nth [OF i] assms(4,5) by simp
    show "length (outs ! i) = length (data ! (?ms ! i))" "even (length (outs ! i))"
      using outs(2) i ld assms(6) by (simp_all add: partial_sums_def)
    show "le_words (outs ! i) = le_words (data ! (?ms ! i))"
    proof (rule nth_equalityI)
      show "length (le_words (outs ! i)) = length (le_words (data ! (?ms ! i)))"
        using outs(2) i ld by (simp add: partial_sums_def)
      fix w assume "w < length (le_words (outs ! i))"
      then have w: "w < L div 2" using outs(2) i by (simp add: partial_sums_def)
      then have "Gf (get_word (outs ! i) w) = Gf (get_word (data ! (?ms ! i)) w)"
        using outs(2) i dec(5) uv [OF w] by (simp add: partial_sums_def)
      then show "le_words (outs ! i) ! w = le_words (data ! (?ms ! i)) ! w"
        using outs(2) i ld w by (simp add: partial_sums_def le_words_nth)
    qed
  qed
  then have "outs = map ((!) data) ?ms"
    using outs(2) by (intro nth_equalityI) (simp_all add: partial_sums_def)
  then show ?thesis
    using enc(1,2) dec(1,3) outs(1) unfolding output_count_def missing_rows_def by auto
qed

theorem rar5_recovery_roundtrip_witness:
  "\<exists>enc recs dec.
      new_encoder 2 1 = Inr (Some enc)
    \<and> feed_units enc 0 [[1, 2], [3, 4]] [[0, 0]] = Some recs
    \<and> new_decoder 2 1 [True, False, True] = Inr (Some dec)
    \<and> feed_units dec 0 (decoder_units 2 [True, False, True] [[1, 2], [3, 4]] recs)
        (replicate (output_count dec) [0, 0]) = Some [[3, 4]]"
  using rar5_recovery_roundtrip [of 2 1 "[[1, 2], [3, 4]]" 2 "[True, False, True]"]
  by (simp add: numeral_2_eq_2)

end
