(* ===== verification/Rar5_Common.thy ===== *)
theory Rar5_Common
  imports Vint
begin

text \<open>
  The frame every RAR5 block has, \<open>unrar-rs/src/header/common.rs\<close>: the checksum, the size and the
  common fields, the location of the type-specific fields and of the extra area, and the lenient
  UTF-8 decoding of names.
\<close>

unbundle bit_operations_syntax

section \<open>Flags and header types\<close>

definition MAX_HEADER_BODY :: u64 where
  "MAX_HEADER_BODY = RAR5_MAX_HEADER_BODY"

definition MAX_HEADER_SIZE_VINT_BYTES :: nat where
  "MAX_HEADER_SIZE_VINT_BYTES = 3"

definition EXTRA_AREA :: u64 where "EXTRA_AREA = 0x0001"

definition DATA_AREA :: u64 where "DATA_AREA = 0x0002"

definition SKIP_IF_UNKNOWN :: u64 where "SKIP_IF_UNKNOWN = 0x0004"

definition SPLIT_BEFORE :: u64 where "SPLIT_BEFORE = 0x0008"

definition SPLIT_AFTER :: u64 where "SPLIT_AFTER = 0x0010"

definition CHILD :: u64 where "CHILD = 0x0020"

definition INHERITED :: u64 where "INHERITED = 0x0040"

datatype header_type = MainArchive | File | Service | Encryption | EndArchive | UnknownHeader u64

definition header_type_from :: "u64 \<Rightarrow> header_type" where
  "header_type_from value =
     (if value = 1 then MainArchive else if value = 2 then File else if value = 3 then Service
      else if value = 4 then Encryption else if value = 5 then EndArchive else UnknownHeader value)"

record raw_header =
  rh_offset :: nat
  rh_crc32 :: u32
  rh_header_size :: u64
  rh_header_size_vint_len :: nat
  rh_header_type :: header_type
  rh_flags :: u64
  rh_extra_area_size :: u64
  rh_data_area_size :: u64
  rh_body :: bytes

definition is_split_before :: "raw_header \<Rightarrow> bool" where
  "is_split_before raw \<longleftrightarrow> rh_flags raw AND SPLIT_BEFORE \<noteq> 0"

definition is_split_after :: "raw_header \<Rightarrow> bool" where
  "is_split_after raw \<longleftrightarrow> rh_flags raw AND SPLIT_AFTER \<noteq> 0"

definition has_extra_area :: "raw_header \<Rightarrow> bool" where
  "has_extra_area raw \<longleftrightarrow> rh_flags raw AND EXTRA_AREA \<noteq> 0"

definition has_data_area :: "raw_header \<Rightarrow> bool" where
  "has_data_area raw \<longleftrightarrow> rh_flags raw AND DATA_AREA \<noteq> 0"

section \<open>Reading a header\<close>

definition validate_header_size :: "nat \<Rightarrow> u64 \<Rightarrow> nat \<Rightarrow> unit rar_result" where
  "validate_header_size offset header_size header_size_vint_len =
     (if header_size = 0 then Inl (CorruptArchive (ZeroHeaderSize offset))
      else if header_size_vint_len > MAX_HEADER_SIZE_VINT_BYTES
      then Inl (CorruptArchive (HeaderSizeVintTooLong offset header_size_vint_len))
      else if header_size > MAX_HEADER_BODY
      then Inl (CorruptArchive (HeaderSizeExceedsMaximum header_size))
      else Inr ())"

text \<open>A field that is present only under a flag, and the position after it.\<close>

definition optional_vint :: "u64 \<Rightarrow> u64 \<Rightarrow> bytes \<Rightarrow> nat \<Rightarrow> (u64 \<times> nat) rar_result" where
  "optional_vint header_flags flag body pos =
     (if header_flags AND flag \<noteq> 0
      then and_then (index_from pos body) (\<lambda>rest.
             and_then (read_vint rest) (\<lambda>(size, n). Inr (size, pos + n)))
      else Inr (0, pos))"

text \<open>The common fields at the front of a body: type, flags, the two sizes, and where they end.\<close>

definition read_common_fields :: "bytes \<Rightarrow> (u64 \<times> u64 \<times> u64 \<times> u64 \<times> nat) rar_result" where
  "read_common_fields body =
     and_then (index_from 0 body) (\<lambda>rest.
     and_then (read_vint rest) (\<lambda>(header_type_val, pos).
     and_then (index_from pos body) (\<lambda>rest.
     and_then (read_vint rest) (\<lambda>(header_flags, n).
     and_then (optional_vint header_flags EXTRA_AREA body (pos + n)) (\<lambda>(extra_area_size, pos).
     and_then (optional_vint header_flags DATA_AREA body pos) (\<lambda>(data_area_size, pos).
       Inr (header_type_val, header_flags, extra_area_size, data_area_size, pos)))))))"

text \<open>The checksum of the source only reaches a log line: a mismatch does not stop the parser.\<close>

definition read_raw_header :: "reader \<Rightarrow> raw_header option rar_result \<times> reader" where
  "read_raw_header r =
     (let offset = r_pos r in
      case read_exact 4 r of
        (Inl e, r) \<Rightarrow> (if e = Io UnexpectedEof then Inr None else Inl e, r)
      | (Inr crc_buf, r) \<Rightarrow>
          let stored_crc = from_le_bytes crc_buf in
          io_then (read_vint_from r) (\<lambda>(header_size, header_size_vint_len) r.
          io_then (validate_header_size offset header_size header_size_vint_len, r) (\<lambda>_ r.
          case read_exact (unat header_size) r of
            (Inl e, r) \<Rightarrow> (Inl (if e = Io UnexpectedEof then TruncatedHeader offset else e), r)
          | (Inr body, r) \<Rightarrow>
              io_then (read_common_fields body, r) (\<lambda>(ty, fl, extra, data, _) r.
                (Inr (Some \<lparr>rh_offset = offset, rh_crc32 = stored_crc, rh_header_size = header_size,
                   rh_header_size_vint_len = header_size_vint_len,
                   rh_header_type = header_type_from ty, rh_flags = fl, rh_extra_area_size = extra,
                   rh_data_area_size = data, rh_body = body\<rparr>), r)))))"

definition parse_raw_header_from_parts ::
  "nat \<Rightarrow> u32 \<Rightarrow> u64 \<Rightarrow> nat \<Rightarrow> bytes \<Rightarrow> raw_header rar_result" where
  "parse_raw_header_from_parts offset crc header_size header_size_vint_len body =
     and_then (validate_header_size offset header_size header_size_vint_len) (\<lambda>_.
     and_then (read_common_fields body) (\<lambda>(ty, fl, extra, data, _).
       Inr \<lparr>rh_offset = offset, rh_crc32 = crc, rh_header_size = header_size,
         rh_header_size_vint_len = header_size_vint_len,
         rh_header_type = header_type_from ty, rh_flags = fl, rh_extra_area_size = extra,
         rh_data_area_size = data, rh_body = body\<rparr>))"

definition skip_data_area :: "reader \<Rightarrow> raw_header \<Rightarrow> unit rar_result \<times> reader" where
  "skip_data_area r raw =
     (if rh_data_area_size raw > 0 then
        if rh_data_area_size raw > 0x7FFFFFFFFFFFFFFF
        then (Inl (CorruptArchive (DataAreaNotSeekable (rh_data_area_size raw))), r)
        else seek_forward (unat (rh_data_area_size raw)) r
      else (Inr (), r))"

definition type_specific_offset :: "raw_header \<Rightarrow> nat rar_result" where
  "type_specific_offset raw =
     and_then (read_common_fields (rh_body raw)) (\<lambda>(_, _, _, _, pos). Inr pos)"

definition extra_area_bytes :: "raw_header \<Rightarrow> bytes option" where
  "extra_area_bytes raw =
     (if rh_extra_area_size raw = 0 then None
      else let ea_size = unat (rh_extra_area_size raw); body_len = length (rh_body raw) in
        if ea_size > body_len then None
        else slice_from (body_len - ea_size) (rh_body raw))"

section \<open>Lenient UTF-8\<close>

definition append_lenient_utf8 :: "u32 \<Rightarrow> bytes" where
  "append_lenient_utf8 scalar =
     (if scalar \<le> 0x7F then [ucast scalar]
      else if scalar \<le> 0x7FF
      then [ucast (0xC0 OR (drop_bit 6 scalar AND 0x1F)), ucast (0x80 OR (scalar AND 0x3F))]
      else if scalar \<le> 0xFFFF
      then [ucast (0xE0 OR (drop_bit 12 scalar AND 0x0F)), ucast (0x80 OR (drop_bit 6 scalar AND 0x3F)),
            ucast (0x80 OR (scalar AND 0x3F))]
      else if scalar \<le> 0x10FFFF
      then [ucast (0xF0 OR (drop_bit 18 scalar AND 0x07)), ucast (0x80 OR (drop_bit 12 scalar AND 0x3F)),
            ucast (0x80 OR (drop_bit 6 scalar AND 0x3F)), ucast (0x80 OR (scalar AND 0x3F))]
      else [])"

text \<open>
  One scalar after its first byte: the value and how many continuation bytes it takes, or nothing
  when the sequence is malformed and decoding stops.
\<close>

definition is_continuation :: "u8 \<Rightarrow> bool" where
  "is_continuation b \<longleftrightarrow> b AND 0xC0 = 0x80"

fun lenient_scalar :: "u8 \<Rightarrow> bytes \<Rightarrow> (u32 \<times> nat) option" where
  "lenient_scalar first rest =
     (if first < 0x80 then Some (ucast first, 0)
      else if drop_bit 5 first = 6 then
        (case rest of
           b1 # _ \<Rightarrow> if \<not> is_continuation b1 then None
             else Some (push_bit 6 (ucast (first AND 0x1F)) OR ucast (b1 AND 0x3F), 1)
         | [] \<Rightarrow> None)
      else if drop_bit 4 first = 14 then
        (case rest of
           b1 # b2 # _ \<Rightarrow> if \<not> is_continuation b1 \<or> \<not> is_continuation b2 then None
             else Some (push_bit 12 (ucast (first AND 0x0F)) OR push_bit 6 (ucast (b1 AND 0x3F))
                    OR ucast (b2 AND 0x3F), 2)
         | _ \<Rightarrow> None)
      else if drop_bit 3 first = 30 then
        (case rest of
           b1 # b2 # b3 # _ \<Rightarrow>
             if \<not> is_continuation b1 \<or> \<not> is_continuation b2 \<or> \<not> is_continuation b3 then None
             else Some (push_bit 18 (ucast (first AND 0x07)) OR push_bit 12 (ucast (b1 AND 0x3F))
                    OR push_bit 6 (ucast (b2 AND 0x3F)) OR ucast (b3 AND 0x3F), 3)
         | _ \<Rightarrow> None)
      else None)"

declare lenient_scalar.simps [simp del]

function decode_utf8_prefix_until_nul_with_encoded_bytes :: "bytes \<Rightarrow> rstring \<times> bytes" where
  "decode_utf8_prefix_until_nul_with_encoded_bytes [] = ([], [])"
| "decode_utf8_prefix_until_nul_with_encoded_bytes (first # rest) =
     (if first = 0 then ([], [])
      else case lenient_scalar first rest of
          None \<Rightarrow> ([], [])
        | Some (scalar, n) \<Rightarrow>
            (case decode_utf8_prefix_until_nul_with_encoded_bytes (drop n rest) of
               (decoded, encoded_bytes) \<Rightarrow>
                 if scalar > 0x10FFFF then (decoded, encoded_bytes)
                 else ((if 0xD800 \<le> scalar \<and> scalar \<le> 0xDFFF then 0xFFFD else scalar) # decoded,
                       append_lenient_utf8 scalar @ encoded_bytes)))"
  by pat_completeness auto
termination by (relation "measure length") auto

definition decode_utf8_prefix_until_nul :: "bytes \<Rightarrow> rstring" where
  "decode_utf8_prefix_until_nul bs = fst (decode_utf8_prefix_until_nul_with_encoded_bytes bs)"

section \<open>Facts about the frame\<close>

lemma optional_vint_InrD:
  "optional_vint fl flag body pos = Inr (sz, pos') \<Longrightarrow> pos \<le> length body \<Longrightarrow> pos \<le> pos' \<and> pos' \<le> length body"
  by (auto simp: optional_vint_def result_simps split: if_splits dest!: read_vint_InrD)

lemma read_common_fields_InrD:
  "read_common_fields body = Inr (ty, fl, extra, data, pos) \<Longrightarrow> 2 \<le> pos \<and> pos \<le> length body"
  unfolding read_common_fields_def
  by (auto simp: result_simps dest!: read_vint_InrD optional_vint_InrD)

lemma optional_vint_no_panic: "pos \<le> length body \<Longrightarrow> optional_vint fl flag body pos \<noteq> Inl Panicked"
  by (auto simp: optional_vint_def result_simps dest: read_vint_InlD split: prod.splits)

lemma read_common_fields_no_panic: "read_common_fields body \<noteq> Inl Panicked"
  unfolding read_common_fields_def
  by (auto simp: result_simps optional_vint_no_panic dest: read_vint_InlD optional_vint_InrD
      dest!: read_vint_InrD split: prod.splits)

lemma read_raw_header_eq:
  "read_raw_header r =
     (if r_pos r + 4 \<le> length (r_img r) then
        io_then (read_vint_from (r\<lparr>r_pos := r_pos r + 4\<rparr>)) (\<lambda>(header_size, vint_len) r'.
        io_then (validate_header_size (r_pos r) header_size vint_len, r') (\<lambda>_ r'.
        if r_pos r' + unat header_size \<le> length (r_img r')
        then (map_sum id Some (parse_raw_header_from_parts (r_pos r)
                (from_le_bytes (take 4 (drop (r_pos r) (r_img r)))) header_size vint_len
                (take (unat header_size) (drop (r_pos r') (r_img r')))),
              r'\<lparr>r_pos := r_pos r' + unat header_size\<rparr>)
        else (Inl (TruncatedHeader (r_pos r)), r'\<lparr>r_pos := length (r_img r')\<rparr>)))
      else (Inr None, r\<lparr>r_pos := length (r_img r)\<rparr>))"
  unfolding read_raw_header_def read_exact_def parse_raw_header_from_parts_def
  by (auto simp: Let_def io_then_def and_then_def split: sum.splits prod.splits if_splits
      intro!: ext)

lemma map_sum_Some [result_simps]: "map_sum id Some m = Inr (Some x) \<longleftrightarrow> m = Inr x"
  by (cases m) auto

lemma read_raw_header_InrD:
  assumes "read_raw_header r = (Inr (Some raw), r')"
  shows "rh_offset raw = r_pos r"
    and "1 \<le> rh_header_size_vint_len raw" and "rh_header_size_vint_len raw \<le> 3"
    and "0 < rh_header_size raw" and "rh_header_size raw \<le> MAX_HEADER_BODY"
    and "r' = r\<lparr>r_pos := r_pos r + 4 + rh_header_size_vint_len raw + unat (rh_header_size raw)\<rparr>"
    and "r_pos r' \<le> length (r_img r)"
    and "rh_body raw = take (unat (rh_header_size raw))
           (drop (r_pos r + 4 + rh_header_size_vint_len raw) (r_img r))"
    and "parse_raw_header_from_parts (r_pos r) (rh_crc32 raw) (rh_header_size raw)
           (rh_header_size_vint_len raw) (rh_body raw) = Inr raw"
proof -
  let ?r4 = "r\<lparr>r_pos := r_pos r + 4\<rparr>"
  from assms obtain sz n where
    four: "r_pos r + 4 \<le> length (r_img r)" and
    vint: "read_vint_from ?r4 = (Inr (sz, n), snd (read_vint_from ?r4))" and
    valid: "validate_header_size (r_pos r) sz n = Inr ()" and
    fits: "r_pos (snd (read_vint_from ?r4)) + unat sz \<le> length (r_img (snd (read_vint_from ?r4)))" and
    parse: "parse_raw_header_from_parts (r_pos r)
                (from_le_bytes (take 4 (drop (r_pos r) (r_img r)))) sz n
                (take (unat sz) (drop (r_pos (snd (read_vint_from ?r4))) (r_img (snd (read_vint_from ?r4))))) = Inr raw" and
    r': "r' = (snd (read_vint_from ?r4))\<lparr>r_pos := r_pos (snd (read_vint_from ?r4)) + unat sz\<rparr>"
    by (auto simp: read_raw_header_eq result_simps split: if_splits)
  have fstv: "fst (read_vint_from ?r4) = Inr (sz, n)" using vint by (metis fst_conv)
  have after: "snd (read_vint_from ?r4) = r\<lparr>r_pos := r_pos r + 4 + n\<rparr>"
    using read_vint_from_eq(3) [OF fstv] by simp
  have n1: "1 \<le> n"
    using read_vint_InrD [OF fstv [unfolded read_vint_from_eq(1)]] by simp
  have raw: "rh_offset raw = r_pos r" "rh_header_size raw = sz" "rh_header_size_vint_len raw = n"
    "rh_body raw = take (unat sz) (drop (r_pos r + 4 + n) (r_img r))"
    "rh_crc32 raw = from_le_bytes (take 4 (drop (r_pos r) (r_img r)))"
    using parse unfolding after
    by (auto simp: parse_raw_header_from_parts_def result_simps split: prod.splits)
  have bounds: "0 < sz" "n \<le> 3" "sz \<le> MAX_HEADER_BODY"
    using valid by (auto simp: validate_header_size_def MAX_HEADER_SIZE_VINT_BYTES_def word_neq_0_conv
        split: if_splits)
  show "rh_offset raw = r_pos r" "1 \<le> rh_header_size_vint_len raw" "rh_header_size_vint_len raw \<le> 3"
    "0 < rh_header_size raw" "rh_header_size raw \<le> MAX_HEADER_BODY"
    using raw bounds n1 by simp_all
  show "r' = r\<lparr>r_pos := r_pos r + 4 + rh_header_size_vint_len raw + unat (rh_header_size raw)\<rparr>"
    using r' raw unfolding after by simp
  show "r_pos r' \<le> length (r_img r)"
    using r' fits unfolding after by simp
  show "rh_body raw = take (unat (rh_header_size raw))
           (drop (r_pos r + 4 + rh_header_size_vint_len raw) (r_img r))"
    using raw by simp
  show "parse_raw_header_from_parts (r_pos r) (rh_crc32 raw) (rh_header_size raw)
           (rh_header_size_vint_len raw) (rh_body raw) = Inr raw"
    using parse raw unfolding after by simp
qed

section \<open>A writer for the frame\<close>

text \<open>The layout of RAR 5.0 blocks, as a writer: the specification the readers are compared with.\<close>

definition encode_common_fields :: "u64 \<Rightarrow> u64 \<Rightarrow> u64 \<Rightarrow> u64 \<Rightarrow> bytes" where
  "encode_common_fields ty fl extra data = encode_vint ty @ encode_vint fl @
     (if fl AND EXTRA_AREA \<noteq> 0 then encode_vint extra else []) @
     (if fl AND DATA_AREA \<noteq> 0 then encode_vint data else [])"

definition encode_block :: "u32 \<Rightarrow> bytes \<Rightarrow> bytes" where
  "encode_block crc body = to_le_bytes 4 crc @ encode_vint (of_nat (length body)) @ body"

lemma optional_vint_encode:
  assumes "body = pre @ (if fl AND flag \<noteq> 0 then encode_vint sz else []) @ rest"
    and "pos = length pre" and "fl AND flag = 0 \<Longrightarrow> sz = 0"
  shows "optional_vint fl flag body pos =
    Inr (sz, length (pre @ (if fl AND flag \<noteq> 0 then encode_vint sz else [])))"
  using assms by (simp add: optional_vint_def read_vint_encode)

lemma read_common_fields_encode:
  assumes "fl AND EXTRA_AREA = 0 \<Longrightarrow> extra = 0" "fl AND DATA_AREA = 0 \<Longrightarrow> data = 0"
  shows "read_common_fields (encode_common_fields ty fl extra data @ spec) =
    Inr (ty, fl, extra, data, length (encode_common_fields ty fl extra data))"
proof -
  let ?e = "if fl AND EXTRA_AREA \<noteq> 0 then encode_vint extra else []"
  let ?d = "if fl AND DATA_AREA \<noteq> 0 then encode_vint data else []"
  let ?b = "encode_vint ty @ encode_vint fl @ ?e @ ?d @ spec"
  let ?p = "length (encode_vint ty) + length (encode_vint fl)"
  have e: "optional_vint fl EXTRA_AREA ?b ?p = Inr (extra, length ((encode_vint ty @ encode_vint fl) @ ?e))"
    using assms(1) by (intro optional_vint_encode) simp_all
  have d: "optional_vint fl DATA_AREA ?b (length ((encode_vint ty @ encode_vint fl) @ ?e)) =
      Inr (data, length (((encode_vint ty @ encode_vint fl) @ ?e) @ ?d))"
    using assms(2) by (intro optional_vint_encode) simp_all
  have "read_common_fields ?b = Inr (ty, fl, extra, data, length (((encode_vint ty @ encode_vint fl) @ ?e) @ ?d))"
    unfolding read_common_fields_def using e d by (simp add: read_vint_encode)
  then show ?thesis by (simp add: encode_common_fields_def)
qed

lemma read_raw_header_encode_block:
  assumes fields: "read_common_fields body = Inr (ty, fl, extra, data, pos)"
    and small: "length body < 2 ^ 21"
    and r: "r_img r = pre @ encode_block crc body @ rest" "r_pos r = length pre"
  shows "read_raw_header r =
    (Inr (Some \<lparr>rh_offset = length pre, rh_crc32 = crc, rh_header_size = of_nat (length body),
       rh_header_size_vint_len = length (encode_vint (of_nat (length body))),
       rh_header_type = header_type_from ty, rh_flags = fl, rh_extra_area_size = extra,
       rh_data_area_size = data, rh_body = body\<rparr>),
     r\<lparr>r_pos := length pre + length (encode_block crc body)\<rparr>)"
proof -
  let ?sz = "of_nat (length body) :: u64"
  let ?n = "length (encode_vint ?sz)"
  let ?r4 = "r\<lparr>r_pos := r_pos r + 4\<rparr>"
  have sz: "unat ?sz = length body" using small by (simp add: unat_of_nat)
  have v: "fst (read_vint_from ?r4) = Inr (?sz, ?n)"
    unfolding read_vint_from_eq(1) using r by (simp add: encode_block_def read_vint_encode)
  have vint: "read_vint_from ?r4 = (Inr (?sz, ?n), r\<lparr>r_pos := length pre + 4 + ?n\<rparr>)"
    using v read_vint_from_eq(3) [OF v] r by (cases "read_vint_from ?r4") simp
  have "?n \<le> 3" using sz small by (intro length_encode_vint_le) simp_all
  moreover have "?sz \<noteq> 0" using read_common_fields_InrD [OF fields] sz by (metis le_zero_eq length_0_conv not_numeral_le_zero order.trans unsigned_0)
  moreover have "?sz \<le> MAX_HEADER_BODY"
    using sz small by (simp add: MAX_HEADER_BODY_def RAR5_MAX_HEADER_BODY_def word_le_nat_alt)
  ultimately have valid: "validate_header_size (r_pos r) ?sz ?n = Inr ()"
    by (simp add: validate_header_size_def MAX_HEADER_SIZE_VINT_BYTES_def not_less)
  show ?thesis
    unfolding read_raw_header_eq vint io_then_simps split_conv valid
    using r valid fields sz by (simp add: parse_raw_header_from_parts_def encode_block_def)
qed

section \<open>Facts about lenient UTF-8\<close>

lemma byte_masks:
  "(b :: u8) AND 0x1F = take_bit 5 b" "b AND 0x0F = take_bit 4 b" "b AND 0x07 = take_bit 3 b"
  "b AND 0x3F = take_bit 6 b"
  by (simp_all add: take_bit_eq_mask mask_eq_exp_minus_1)

lemma scalar_masks:
  "(s :: u32) AND 0x1F = take_bit 5 s" "s AND 0x0F = take_bit 4 s" "s AND 0x07 = take_bit 3 s"
  "s AND 0x3F = take_bit 6 s"
  by (simp_all add: take_bit_eq_mask mask_eq_exp_minus_1)

lemma less_8_cases: "(n::nat) < 8 \<longleftrightarrow> n \<in> {0, 1, 2, 3, 4, 5, 6, 7}"
  by auto

lemma continuation_byte:
  "is_continuation (ucast (0x80 OR take_bit 6 (s :: u32)))"
  "take_bit 6 (ucast (0x80 OR take_bit 6 s) :: u8) = ucast (take_bit 6 s)"
  unfolding is_continuation_def
  by (intro bit_word_eqI; simp add: bit_simps less_8_cases; elim disjE; simp add: bit_simps bit_numeral_rec)+

lemma byte_less_0x80: "(b :: u8) < 0x80 \<longleftrightarrow> \<not> bit b 7"
proof -
  have "bit b 7 \<longleftrightarrow> odd (unat b div 128)"
    using bit_iff_odd [of "unat b" 7] by (simp add: bit_unsigned_iff)
  moreover have "unat b div 128 = 0 \<longleftrightarrow> unat b < 128" by (simp add: div_eq_0_iff)
  moreover have "unat b div 128 < 2" using unat_bound [of b] by (simp add: div_less_iff_less_mult)
  ultimately show ?thesis by (auto simp: word_less_nat_alt less_2_cases_iff)
qed

text \<open>The bits of the lead bytes; each of the four forms is recognised and carries its scalar bits.\<close>

lemma lead_byte_2:
  fixes s :: u32
  defines "b \<equiv> (ucast (0xC0 OR take_bit 5 s) :: u8)"
  shows "\<not> b < 0x80" "drop_bit 5 b = 6" "take_bit 5 b = ucast (take_bit 5 s)"
  unfolding byte_less_0x80 b_def
  by (simp add: bit_simps,
      (intro bit_word_eqI; simp add: bit_simps less_8_cases; elim disjE; simp add: bit_simps bit_numeral_rec)+)

lemma lead_byte_3:
  fixes s :: u32
  defines "b \<equiv> (ucast (0xE0 OR take_bit 4 s) :: u8)"
  shows "\<not> b < 0x80" "drop_bit 4 b = 14" "take_bit 4 b = ucast (take_bit 4 s)" "drop_bit 5 b = 7"
  unfolding byte_less_0x80 b_def
  by (simp add: bit_simps,
      (intro bit_word_eqI; simp add: bit_simps less_8_cases; elim disjE; simp add: bit_simps bit_numeral_rec)+)

lemma lead_byte_4:
  fixes s :: u32
  defines "b \<equiv> (ucast (0xF0 OR take_bit 3 s) :: u8)"
  shows "\<not> b < 0x80" "drop_bit 3 b = 30" "take_bit 3 b = ucast (take_bit 3 s)"
    "drop_bit 4 b = 15" "drop_bit 5 b = 7"
  unfolding byte_less_0x80 b_def
  by (simp add: bit_simps,
      (intro bit_word_eqI; simp add: bit_simps less_8_cases; elim disjE; simp add: bit_simps bit_numeral_rec)+)

lemma bit_below: "bit (s :: u32) n \<Longrightarrow> unat s < 2 ^ k \<Longrightarrow> n < k"
proof (rule ccontr)
  assume b: "bit s n" and less: "unat s < 2 ^ k" and "\<not> n < k"
  then have "unat s < 2 ^ n" by (meson not_le order_less_le_trans one_le_numeral power_increasing)
  then have "\<not> bit (unat s) n" by (simp add: bit_iff_odd)
  then show False using b by (simp add: bit_unsigned_iff)
qed

lemma bit_below_scalar:
  "bit (s :: u32) n \<Longrightarrow> s \<le> 0x7FF \<Longrightarrow> n < 11"
  "bit (s :: u32) n \<Longrightarrow> s \<le> 0xFFFF \<Longrightarrow> n < 16"
  "bit (s :: u32) n \<Longrightarrow> s \<le> 0x10FFFF \<Longrightarrow> n < 21"
  using bit_below [of s n 11] bit_below [of s n 16] bit_below [of s n 21]
  by (simp_all add: word_le_nat_alt)

lemma scalar_parts_2:
  "s \<le> 0x7FF \<Longrightarrow> push_bit 6 (take_bit 5 (drop_bit 6 s)) OR take_bit 6 s = (s :: u32)"
  by (rule bit_word_eqI) (auto simp: bit_simps dest: bit_below_scalar(1))

lemma scalar_parts_3:
  "s \<le> 0xFFFF \<Longrightarrow> push_bit 12 (take_bit 4 (drop_bit 12 s)) OR push_bit 6 (take_bit 6 (drop_bit 6 s))
     OR take_bit 6 s = (s :: u32)"
  by (rule bit_word_eqI, case_tac "n < 12") (auto simp: bit_simps dest: bit_below_scalar(2))

lemma scalar_parts_4:
  "s \<le> 0x10FFFF \<Longrightarrow> push_bit 18 (take_bit 3 (drop_bit 18 s)) OR push_bit 12 (take_bit 6 (drop_bit 12 s))
     OR push_bit 6 (take_bit 6 (drop_bit 6 s)) OR take_bit 6 s = (s :: u32)"
  by (rule bit_word_eqI, case_tac "n < 12"; case_tac "n < 18")
    (auto simp: bit_simps dest: bit_below_scalar(3))

lemmas scalar_parts = scalar_parts_2 scalar_parts_3 scalar_parts_4

lemma ucast_parts:
  "m \<le> 8 \<Longrightarrow> ucast (ucast (take_bit m (s :: u32)) :: u8) = take_bit m s"
  by (rule bit_word_eqI) (auto simp: bit_simps)

lemma ascii_byte:
  assumes "(s :: u32) \<le> 0x7F"
  shows "(ucast s :: u8) < 0x80" "ucast (ucast s :: u8) = s"
proof -
  have b: "n < 7" if "bit s n" for n
    using that bit_below [of s n 7] assms by (simp add: word_le_nat_alt)
  show "(ucast s :: u8) < 0x80" using b [of 7] by (auto simp: byte_less_0x80 bit_simps)
  show "ucast (ucast s :: u8) = s" by (rule bit_word_eqI) (use b in \<open>fastforce simp: bit_simps\<close>)
qed

lemma lenient_scalar_append:
  assumes "s \<le> 0x10FFFF"
  obtains b bs where "append_lenient_utf8 s = b # bs" "b = 0 \<longleftrightarrow> s = 0"
    "\<And>rest. lenient_scalar b (bs @ rest) = Some (s, length bs)"
proof -
  note masks = byte_masks scalar_masks
  consider "s \<le> 0x7F" | "\<not> s \<le> 0x7F" "s \<le> 0x7FF" | "\<not> s \<le> 0x7FF" "s \<le> 0xFFFF" | "\<not> s \<le> 0xFFFF"
    by blast
  then show thesis
  proof cases
    case 1
    have "(ucast s :: u8) = 0 \<longleftrightarrow> s = 0" using ascii_byte(2) [OF 1] by (metis ucast_0)
    then show thesis
      using 1 ascii_byte [OF 1] that [of "ucast s" "[]"]
      by (simp add: append_lenient_utf8_def lenient_scalar.simps)
  next
    case 2
    let ?b = "ucast (0xC0 OR take_bit 5 (drop_bit 6 s)) :: u8"
    let ?bs = "[ucast (0x80 OR take_bit 6 s)] :: bytes"
    have "lenient_scalar ?b (?bs @ rest) = Some (s, length ?bs)" for rest
      using 2
      by (simp add: lenient_scalar.simps lead_byte_2 continuation_byte masks ucast_parts scalar_parts)
    moreover have "?b \<noteq> 0" "s \<noteq> 0" using lead_byte_2(1) [of "drop_bit 6 s"] 2 by auto
    ultimately show thesis
      using 2 that [of ?b ?bs] by (simp add: append_lenient_utf8_def masks)
  next
    case 3
    let ?b = "ucast (0xE0 OR take_bit 4 (drop_bit 12 s)) :: u8"
    let ?bs = "[ucast (0x80 OR take_bit 6 (drop_bit 6 s)), ucast (0x80 OR take_bit 6 s)] :: bytes"
    have "lenient_scalar ?b (?bs @ rest) = Some (s, length ?bs)" for rest
      using 3
      by (simp add: lenient_scalar.simps lead_byte_3 continuation_byte masks ucast_parts scalar_parts)
    moreover have "?b \<noteq> 0" "s \<noteq> 0" using lead_byte_3(1) [of "drop_bit 12 s"] 3 by auto
    moreover have "\<not> s \<le> 0x7F" using 3 by (auto simp: word_le_nat_alt)
    ultimately show thesis
      using 3 that [of ?b ?bs] by (simp add: append_lenient_utf8_def masks)
  next
    case 4
    let ?b = "ucast (0xF0 OR take_bit 3 (drop_bit 18 s)) :: u8"
    let ?bs = "[ucast (0x80 OR take_bit 6 (drop_bit 12 s)), ucast (0x80 OR take_bit 6 (drop_bit 6 s)),
      ucast (0x80 OR take_bit 6 s)] :: bytes"
    have "lenient_scalar ?b (?bs @ rest) = Some (s, length ?bs)" for rest
      using assms
      by (simp add: lenient_scalar.simps lead_byte_4 continuation_byte masks ucast_parts scalar_parts)
    moreover have "?b \<noteq> 0" "s \<noteq> 0" using lead_byte_4(1) [of "drop_bit 18 s"] 4 by auto
    moreover have "\<not> s \<le> 0x7F" "\<not> s \<le> 0x7FF" using 4 by (auto simp: word_le_nat_alt)
    ultimately show thesis
      using 4 assms that [of ?b ?bs] by (simp add: append_lenient_utf8_def masks)
  qed
qed

text \<open>What a scalar becomes in a Rust string: a surrogate is replaced.\<close>

definition lenient_char :: "u32 \<Rightarrow> u32" where
  "lenient_char scalar = (if 0xD800 \<le> scalar \<and> scalar \<le> 0xDFFF then 0xFFFD else scalar)"

lemma decode_utf8_append:
  assumes "s \<le> 0x10FFFF" "s \<noteq> 0"
  shows "decode_utf8_prefix_until_nul_with_encoded_bytes (append_lenient_utf8 s @ rest) =
    map_prod ((#) (lenient_char s)) ((@) (append_lenient_utf8 s))
      (decode_utf8_prefix_until_nul_with_encoded_bytes rest)"
proof -
  obtain b bs where "append_lenient_utf8 s = b # bs" "b = 0 \<longleftrightarrow> s = 0"
    "\<And>rest. lenient_scalar b (bs @ rest) = Some (s, length bs)"
    by (rule lenient_scalar_append [OF assms(1)]) (rule that)
  then show ?thesis
    using assms by (auto simp: lenient_char_def not_less split: prod.splits)
qed

lemma decode_utf8_string:
  assumes "\<forall>s\<in>set name. s \<noteq> 0 \<and> s \<le> 0x10FFFF"
  shows "decode_utf8_prefix_until_nul_with_encoded_bytes (concat (map append_lenient_utf8 name) @ rest) =
    map_prod ((@) (map lenient_char name)) ((@) (concat (map append_lenient_utf8 name)))
      (decode_utf8_prefix_until_nul_with_encoded_bytes rest)"
  using assms
proof (induction name)
  case Nil
  then show ?case by (simp add: map_prod_def split: prod.splits)
next
  case (Cons s name)
  then show ?case by (simp add: decode_utf8_append prod.map_comp comp_def)
qed

section \<open>Properties\<close>

lemma validate_header_size_InlD:
  "validate_header_size off sz n = Inl e \<Longrightarrow> \<exists>d. e = CorruptArchive d"
  by (auto simp: validate_header_size_def split: if_splits)

lemma parse_raw_header_from_parts_no_panic:
  "parse_raw_header_from_parts off crc sz n body \<noteq> Inl Panicked"
  using read_common_fields_no_panic [of body]
  by (auto simp: parse_raw_header_from_parts_def result_simps dest: validate_header_size_InlD
      split: prod.splits)

lemma read_raw_header_img: "r_img (snd (read_raw_header r)) = r_img r"
  using read_vint_from_eq(2) [of "r\<lparr>r_pos := r_pos r + 4\<rparr>"]
  by (auto simp: read_raw_header_eq io_then_def split: sum.splits prod.splits)

text \<open>C29: a header that is read is read within bounds: its body is exactly the declared bytes of the
  stream, at most 2 MiB of them behind a size field of at most three bytes; the stream is left right
  after it; parsing the same parts again gives the same header, and the type-specific fields start
  inside the body.\<close>

theorem read_raw_header_frame:
  assumes "read_raw_header r = (Inr (Some raw), r')"
  shows "rh_body raw = take (unat (rh_header_size raw))
           (drop (r_pos r + 4 + rh_header_size_vint_len raw) (r_img r))
    \<and> length (rh_body raw) = unat (rh_header_size raw)
    \<and> unat (rh_header_size raw) \<le> 2 ^ 21 \<and> rh_header_size_vint_len raw \<le> 3
    \<and> r_pos r' = r_pos r + 4 + rh_header_size_vint_len raw + unat (rh_header_size raw)
    \<and> r_pos r' \<le> length (r_img r)
    \<and> parse_raw_header_from_parts (rh_offset raw) (rh_crc32 raw) (rh_header_size raw)
           (rh_header_size_vint_len raw) (rh_body raw) = Inr raw
    \<and> (\<exists>pos. type_specific_offset raw = Inr pos \<and> 2 \<le> pos \<and> pos \<le> length (rh_body raw))"
proof -
  note h = read_raw_header_InrD [OF assms]
  have pos: "\<exists>pos. type_specific_offset raw = Inr pos \<and> 2 \<le> pos \<and> pos \<le> length (rh_body raw)"
    using h(9) read_common_fields_InrD [of "rh_body raw"]
    by (auto simp: parse_raw_header_from_parts_def type_specific_offset_def result_simps)
  have sz: "unat (rh_header_size raw) \<le> 2 ^ 21"
    using h(5) by (simp add: MAX_HEADER_BODY_def RAR5_MAX_HEADER_BODY_def word_le_nat_alt)
  have len: "length (rh_body raw) = unat (rh_header_size raw)"
    using h(6,7) by (subst h(8)) simp
  show ?thesis
    unfolding h(1) by (intro conjI) (rule h(8) len sz h(3) h(7) h(9) pos | simp add: h(6))+
qed

theorem read_raw_header_frame_witness:
  "\<exists>raw r'. read_raw_header \<lparr>r_img = [1, 2, 3, 4, 3, 5, 0, 7], r_pos = 0\<rparr> = (Inr (Some raw), r')
     \<and> rh_body raw = [5, 0, 7] \<and> r_pos r' = 8"
proof -
  let ?r = "\<lparr>r_img = [1, 2, 3, 4, 3, 5, 0, 7], r_pos = 0\<rparr>"
  have h: "read_raw_header ?r =
    (Inr (Some \<lparr>rh_offset = 0, rh_crc32 = 0x04030201, rh_header_size = 3, rh_header_size_vint_len = 1,
       rh_header_type = EndArchive, rh_flags = 0, rh_extra_area_size = 0, rh_data_area_size = 0,
       rh_body = [5, 0, 7]\<rparr>), \<lparr>r_img = [1, 2, 3, 4, 3, 5, 0, 7], r_pos = 8\<rparr>)"
    by code_simp
  show ?thesis using h read_raw_header_frame [OF h] by (intro exI conjI) (rule h, simp_all)
qed

text \<open>C23: a block written in the RAR 5.0 layout, anywhere in a stream and whatever follows it, is
  read back with the type, flags and sizes it was written with, and the stream is left at its end.
  The size field has room for every body under 2 MiB.\<close>

theorem header_block_roundtrip:
  assumes "body = encode_common_fields ty fl extra data @ specific" and "length body < 2 ^ 21"
    and "fl AND EXTRA_AREA = 0 \<longrightarrow> extra = 0" and "fl AND DATA_AREA = 0 \<longrightarrow> data = 0"
  shows "read_raw_header \<lparr>r_img = pre @ encode_block crc body @ rest, r_pos = length pre\<rparr> =
    (Inr (Some \<lparr>rh_offset = length pre, rh_crc32 = crc, rh_header_size = of_nat (length body),
       rh_header_size_vint_len = length (encode_vint (of_nat (length body))),
       rh_header_type = header_type_from ty, rh_flags = fl, rh_extra_area_size = extra,
       rh_data_area_size = data, rh_body = body\<rparr>),
     \<lparr>r_img = pre @ encode_block crc body @ rest,
       r_pos = length pre + length (encode_block crc body)\<rparr>)"
  using read_raw_header_encode_block [where r = "\<lparr>r_img = pre @ encode_block crc body @ rest,
    r_pos = length pre\<rparr>", OF read_common_fields_encode [of fl extra data ty specific,
      folded assms(1)] assms(2)] assms(3,4)
  by simp

theorem header_block_roundtrip_witness:
  "\<exists>body. length body < 2 ^ 21 \<and> body = encode_common_fields 1 0 0 0 @ [7]
     \<and> fst (read_raw_header \<lparr>r_img = [9] @ encode_block 5 body @ [8], r_pos = length [9 :: u8]\<rparr>)
       = Inr (Some \<lparr>rh_offset = 1, rh_crc32 = 5, rh_header_size = 3, rh_header_size_vint_len = 1,
           rh_header_type = MainArchive, rh_flags = 0, rh_extra_area_size = 0, rh_data_area_size = 0,
           rh_body = [1, 0, 7]\<rparr>)"
proof -
  have e: "encode_common_fields 1 0 0 0 @ [7] = [1, 0, 7]" "encode_vint 3 = [3]" by code_simp+
  show ?thesis
    using header_block_roundtrip [of "[1, 0, 7]" 1 0 0 0 "[7]" "[9]" 5 "[8]"] e
    by (intro exI [of _ "[1, 0, 7]"]) (simp add: header_type_from_def)
qed

text \<open>C35: reading a header never panics and never changes the stream's bytes, and the answer that
  there are no more headers is given exactly when fewer than four bytes are left.\<close>

theorem read_raw_header_total:
  "fst (read_raw_header r) \<noteq> Inl Panicked
   \<and> r_img (snd (read_raw_header r)) = r_img r
   \<and> (fst (read_raw_header r) = Inr None \<longleftrightarrow> length (r_img r) < r_pos r + 4)"
proof -
  let ?r4 = "r\<lparr>r_pos := r_pos r + 4\<rparr>"
  have v: "fst (read_vint_from ?r4) \<noteq> Inl Panicked"
    using read_vint_InlD by (auto simp: read_vint_from_eq(1))
  have s: "map_sum id Some m \<noteq> Inr None" "m \<noteq> Inl Panicked \<Longrightarrow> map_sum id Some m \<noteq> Inl Panicked"
    for m :: "raw_header rar_result"
    by (cases m; simp)+
  show ?thesis
    using v read_raw_header_img [of r]
    by (auto simp: read_raw_header_eq io_then_def s parse_raw_header_from_parts_no_panic
        dest: validate_header_size_InlD split: sum.splits prod.splits)
qed

text \<open>C31: decoding gives back every name the writer encodes, up to its terminating NUL: each scalar
  is kept, a surrogate is replaced by U+FFFD, and the second result is the encoded name itself.\<close>

theorem decode_utf8_roundtrip:
  assumes "\<forall>s\<in>set name. s \<noteq> 0 \<and> s \<le> 0x10FFFF"
  shows "decode_utf8_prefix_until_nul_with_encoded_bytes
      (concat (map append_lenient_utf8 name) @ 0 # padding) =
    (map (\<lambda>s. if 0xD800 \<le> s \<and> s \<le> 0xDFFF then 0xFFFD else s) name,
     concat (map append_lenient_utf8 name))"
  by (simp add: decode_utf8_string [OF assms] lenient_char_def [abs_def])

theorem decode_utf8_roundtrip_witness:
  "decode_utf8_prefix_until_nul_with_encoded_bytes
      (concat (map append_lenient_utf8 [0x72, 0x20AC, 0xD800]) @ 0 # [0x41])
    = ([0x72, 0x20AC, 0xFFFD], concat (map append_lenient_utf8 [0x72, 0x20AC, 0xD800]))"
  using decode_utf8_roundtrip [of "[0x72, 0x20AC, 0xD800]" "[0x41]"] by simp

end
