(* ===== verification/Rar5_Kdf.thy ===== *)
theory Rar5_Kdf
  imports Rar5_Common
begin

text \<open>
  Key derivation of RAR5 archives: the HMAC-SHA256 of \<open>unrar-rs/src/crypto/kdf_hmac.rs\<close> with its
  cached key states, the PBKDF2 chain, the password rules and the cache of derivations of
  \<open>crypto/mod.rs\<close>. The SHA-256 compression function of the \<open>sha2\<close> crate is the parameter
  \<open>compress256\<close>: a state of eight words and a block of 64 bytes give the next state.
\<close>

unbundle bit_operations_syntax

type_synonym sha_state = "u32 list"

type_synonym compression = "sha_state \<Rightarrow> bytes \<Rightarrow> sha_state"

definition to_be_bytes :: "nat \<Rightarrow> 'a::len word \<Rightarrow> bytes" where
  "to_be_bytes n w = rev (to_le_bytes n w)"

lemma length_to_be_bytes [simp, bytes_simps]: "length (to_be_bytes n w) = n"
  by (simp add: to_be_bytes_def)

section \<open>HMAC with cached key states\<close>

definition SHA256_IV :: sha_state where
  "SHA256_IV = [0x6a09e667, 0xbb67ae85, 0x3c6ef372, 0xa54ff53a,
     0x510e527f, 0x9b05688c, 0x1f83d9ab, 0x5be0cd19]"

text \<open>A block of pad bytes, the key XORed over as many of them as it has.\<close>

definition primed_state :: "compression \<Rightarrow> u8 \<Rightarrow> bytes \<Rightarrow> sha_state" where
  "primed_state compress256 pad_byte key =
     (let pad = map (\<lambda>i. if i < length key then pad_byte XOR key ! i else pad_byte) [0..<64]
      in compress256 SHA256_IV pad)"

text \<open>\<open>chunks_exact\<close>: compress every whole block; the state and the remainder.\<close>

function absorb_blocks :: "compression \<Rightarrow> sha_state \<Rightarrow> bytes \<Rightarrow> sha_state \<times> bytes" where
  "absorb_blocks compress256 state data =
     (if length data < 64 then (state, data)
      else absorb_blocks compress256 (compress256 state (take 64 data)) (drop 64 data))"
  by pat_completeness auto
termination by (relation "measure (\<lambda>(c, s, d). length d)") auto

declare absorb_blocks.simps [simp del]

definition digest_of :: "sha_state \<Rightarrow> bytes" where
  "digest_of state = zero_filled 32 (concat (map (to_be_bytes 4) state))"

definition absorb_and_finish :: "compression \<Rightarrow> sha_state \<Rightarrow> nat \<Rightarrow> bytes \<Rightarrow> bytes" where
  "absorb_and_finish compress256 state prefix data =
     (let total_bits = (of_nat prefix + of_nat (length data)) * 8 :: u64;
          (state, rest) = absorb_blocks compress256 state data;
          block = rest @ [0x80] @ replicate (63 - length rest) 0
      in if length rest + 1 + 8 \<le> 64
         then digest_of (compress256 state (take 56 block @ to_be_bytes 8 total_bits))
         else let state = compress256 state block;
                  last = replicate 56 0 @ to_be_bytes 8 total_bits
              in digest_of (compress256 state last))"

definition kdf_sha256 :: "compression \<Rightarrow> bytes \<Rightarrow> bytes" where
  "kdf_sha256 compress256 data = absorb_and_finish compress256 SHA256_IV 0 data"

record kdf_hmac_key =
  hk_inner :: sha_state
  hk_outer :: sha_state

definition kdf_hmac_new :: "compression \<Rightarrow> bytes \<Rightarrow> kdf_hmac_key" where
  "kdf_hmac_new compress256 secret =
     (if length secret > 64
      then let hashed = kdf_sha256 compress256 secret
           in \<lparr>hk_inner = primed_state compress256 0x36 hashed,
               hk_outer = primed_state compress256 0x5C hashed\<rparr>
      else \<lparr>hk_inner = primed_state compress256 0x36 secret,
            hk_outer = primed_state compress256 0x5C secret\<rparr>)"

definition kdf_hmac_sign :: "compression \<Rightarrow> kdf_hmac_key \<Rightarrow> bytes \<Rightarrow> bytes" where
  "kdf_hmac_sign compress256 key data =
     (let inner_digest = absorb_and_finish compress256 (hk_inner key) 64 data
      in absorb_and_finish compress256 (hk_outer key) 64 inner_digest)"

section \<open>Passwords\<close>

definition RAR_PASSWORD_MAX_UNITS :: nat where
  "RAR_PASSWORD_MAX_UNITS = 128 - 1"

definition len_utf16 :: "u32 \<Rightarrow> nat" where
  "len_utf16 ch = (if ch < 0x10000 then 1 else 2)"

text \<open>The scan keeps the characters that fit in 127 UTF-16 units and stops at the first that does
  not.\<close>

fun rar_password_scan :: "nat \<Rightarrow> rstring \<Rightarrow> rstring" where
  "rar_password_scan units [] = []"
| "rar_password_scan units (ch # rest) =
     (let nxt = units + len_utf16 ch
      in if nxt > RAR_PASSWORD_MAX_UNITS then [] else ch # rar_password_scan nxt rest)"

definition rar_password_compat :: "rstring \<Rightarrow> rstring" where
  "rar_password_compat password = rar_password_scan 0 password"

text \<open>\<open>str::as_bytes\<close>.\<close>

definition as_bytes :: "rstring \<Rightarrow> bytes" where
  "as_bytes s = concat (map append_lenient_utf8 s)"

section \<open>The derivation\<close>

definition CRYPT5_KDF_LG2_COUNT_MAX :: u8 where
  "CRYPT5_KDF_LG2_COUNT_MAX = 24"

record rar5_key_material =
  km_key :: bytes
  km_hash_key :: bytes
  km_psw_check :: bytes

text \<open>Byte \<open>i\<close> of the value is XORed into byte \<open>i mod 8\<close> of the check.\<close>

definition fold_password_check :: "bytes \<Rightarrow> bytes" where
  "fold_password_check value =
     fold (\<lambda>(index, byte) psw_check. psw_check[index mod 8 := psw_check ! (index mod 8) XOR byte])
       (enumerate 0 value) (replicate 8 0)"

definition xor_into :: "bytes \<Rightarrow> bytes \<Rightarrow> bytes" where
  "xor_into acc nxt = map (\<lambda>i. if i < length nxt then acc ! i XOR nxt ! i else acc ! i) [0..<length acc]"

text \<open>One round of the chain on the pair \<open>(u, fn_value)\<close>, and a run of rounds.\<close>

definition kdf_round :: "(bytes \<Rightarrow> bytes) \<Rightarrow> bytes \<times> bytes \<Rightarrow> bytes \<times> bytes" where
  "kdf_round sign = (\<lambda>(u, fn_value). let u = sign u in (u, xor_into fn_value u))"

definition derive_rar5_material ::
  "compression \<Rightarrow> rstring \<Rightarrow> bytes \<Rightarrow> u8 \<Rightarrow> rar5_key_material rar_result" where
  "derive_rar5_material compress256 password salt kdf_count =
     (if kdf_count > CRYPT5_KDF_LG2_COUNT_MAX
      then Inl (UnsupportedEncryptionKdf kdf_count CRYPT5_KDF_LG2_COUNT_MAX)
      else
        let count = push_bit (unat kdf_count) 1 :: u32;
            sign = kdf_hmac_sign compress256 (kdf_hmac_new compress256 (as_bytes (rar_password_compat password)));
            salt_block = zero_filled 19 salt @ [1];
            u = sign salt_block;
            s1 = (kdf_round sign ^^ (unat count - 1)) (u, u);
            s2 = (kdf_round sign ^^ 16) s1;
            s3 = (kdf_round sign ^^ 16) s2
        in Inr \<lparr>km_key = snd s1, km_hash_key = snd s2, km_psw_check = fold_password_check (snd s3)\<rparr>)"

definition password_check_matches :: "bytes \<Rightarrow> bytes \<Rightarrow> bool" where
  "password_check_matches psw_check check_data \<longleftrightarrow> psw_check = take 8 check_data"

definition verify_password_check :: "compression \<Rightarrow> rstring \<Rightarrow> bytes \<Rightarrow> u8 \<Rightarrow> bytes \<Rightarrow> bool" where
  "verify_password_check compress256 password salt kdf_count check_data =
     (case derive_rar5_material compress256 password salt kdf_count of
        Inr material \<Rightarrow> password_check_matches (km_psw_check material) check_data
      | Inl _ \<Rightarrow> False)"

section \<open>The cache\<close>

definition KDF_CACHE_SLOTS :: nat where
  "KDF_CACHE_SLOTS = 64"

record kdf5_entry =
  ke_password :: rstring
  ke_salt :: bytes
  ke_kdf_count :: u8
  ke_key :: bytes
  ke_hash_key :: bytes
  ke_psw_check :: bytes

record kdf_cache =
  kc_entries :: "kdf5_entry list"
  kc_pos :: nat
  kc_derivations :: u64

definition kdf_cache_new :: kdf_cache where
  "kdf_cache_new = \<lparr>kc_entries = [], kc_pos = 0, kc_derivations = 0\<rparr>"

definition kdf_entry_matches :: "rstring \<Rightarrow> bytes \<Rightarrow> u8 \<Rightarrow> kdf5_entry \<Rightarrow> bool" where
  "kdf_entry_matches password salt kdf_count e \<longleftrightarrow>
     ke_password e = password \<and> ke_salt e = salt \<and> ke_kdf_count e = kdf_count"

definition derive_material_rar5 ::
  "compression \<Rightarrow> kdf_cache \<Rightarrow> rstring \<Rightarrow> bytes \<Rightarrow> u8 \<Rightarrow> rar5_key_material rar_result \<times> kdf_cache" where
  "derive_material_rar5 compress256 cache password salt kdf_count =
     (case find (kdf_entry_matches password salt kdf_count) (kc_entries cache) of
        Some e \<Rightarrow> (Inr \<lparr>km_key = ke_key e, km_hash_key = ke_hash_key e, km_psw_check = ke_psw_check e\<rparr>, cache)
      | None \<Rightarrow>
          (case derive_rar5_material compress256 password salt kdf_count of
             Inl e \<Rightarrow> (Inl e, cache)
           | Inr material \<Rightarrow>
               let entry = \<lparr>ke_password = password, ke_salt = salt, ke_kdf_count = kdf_count,
                     ke_key = km_key material, ke_hash_key = km_hash_key material,
                     ke_psw_check = km_psw_check material\<rparr>;
                   entries = (if length (kc_entries cache) < KDF_CACHE_SLOTS
                              then kc_entries cache @ [entry]
                              else (kc_entries cache)[kc_pos cache := entry])
               in (Inr material, \<lparr>kc_entries = entries, kc_pos = (kc_pos cache + 1) mod KDF_CACHE_SLOTS,
                     kc_derivations = kc_derivations cache + 1\<rparr>)))"

definition derive_key_rar5 ::
  "compression \<Rightarrow> kdf_cache \<Rightarrow> rstring \<Rightarrow> bytes \<Rightarrow> u8 \<Rightarrow> bytes rar_result \<times> kdf_cache" where
  "derive_key_rar5 compress256 cache password salt kdf_count =
     map_prod (\<lambda>r. and_then r (\<lambda>m. Inr (km_key m))) id
       (derive_material_rar5 compress256 cache password salt kdf_count)"

definition derive_hash_key_rar5 ::
  "compression \<Rightarrow> kdf_cache \<Rightarrow> rstring \<Rightarrow> bytes \<Rightarrow> u8 \<Rightarrow> bytes rar_result \<times> kdf_cache" where
  "derive_hash_key_rar5 compress256 cache password salt kdf_count =
     map_prod (\<lambda>r. and_then r (\<lambda>m. Inr (km_hash_key m))) id
       (derive_material_rar5 compress256 cache password salt kdf_count)"

definition verify_password_rar5 ::
  "compression \<Rightarrow> kdf_cache \<Rightarrow> rstring \<Rightarrow> bytes \<Rightarrow> u8 \<Rightarrow> bytes \<Rightarrow> bool \<times> kdf_cache" where
  "verify_password_rar5 compress256 cache password salt kdf_count check_data =
     map_prod (\<lambda>r. case r of Inr m \<Rightarrow> password_check_matches (km_psw_check m) check_data | Inl _ \<Rightarrow> False) id
       (derive_material_rar5 compress256 cache password salt kdf_count)"

datatype password_check = Verified | Wrong | Unverifiable

definition check_member_password ::
  "compression \<Rightarrow> kdf_cache \<Rightarrow> rstring \<Rightarrow> bytes \<Rightarrow> u8 \<Rightarrow> bytes option \<Rightarrow> password_check \<times> kdf_cache" where
  "check_member_password compress256 cache password salt kdf_count_lg2 psw_check =
     (case psw_check of
        None \<Rightarrow> (Unverifiable, cache)
      | Some psw_check \<Rightarrow>
          if kdf_count_lg2 > CRYPT5_KDF_LG2_COUNT_MAX then (Unverifiable, cache)
          else map_prod (\<lambda>r. case r of
                   Inr m \<Rightarrow> if password_check_matches (km_psw_check m) psw_check then Verified else Wrong
                 | Inl _ \<Rightarrow> Unverifiable) id
                 (derive_material_rar5 compress256 cache password salt kdf_count_lg2))"

section \<open>SHA-256 and HMAC as they are specified\<close>

text \<open>FIPS 180-4: pad to a whole number of blocks, fold the compression function over the blocks.
  RFC 2104: two nested hashes under the padded key.\<close>

definition sha_padding :: "nat \<Rightarrow> bytes" where
  "sha_padding n = [0x80] @ replicate ((119 - n mod 64) mod 64) 0 @ to_be_bytes 8 (of_nat (8 * n) :: u64)"

definition sha256_spec :: "compression \<Rightarrow> bytes \<Rightarrow> bytes" where
  "sha256_spec compress256 m =
     digest_of (fst (absorb_blocks compress256 SHA256_IV (m @ sha_padding (length m))))"

definition hmac_spec :: "compression \<Rightarrow> bytes \<Rightarrow> bytes \<Rightarrow> bytes" where
  "hmac_spec compress256 secret data =
     (let key = (if length secret > 64 then sha256_spec compress256 secret else secret);
          padded = key @ replicate (64 - length key) 0
      in sha256_spec compress256 (map (\<lambda>b. 0x5C XOR b) padded @
           sha256_spec compress256 (map (\<lambda>b. 0x36 XOR b) padded @ data)))"

lemma sha_padding_zeros:
  "n mod 64 \<le> 55 \<Longrightarrow> (119 - n mod 64) mod 64 = 55 - n mod (64::nat)"
  "55 < n mod 64 \<Longrightarrow> (119 - n mod 64) mod 64 = 119 - n mod (64::nat)"
  using mod_less_divisor [of 64 n] by (auto simp: le_mod_geq)

lemma absorb_blocks_append:
  "absorb_blocks c s (data @ x) =
     (case absorb_blocks c s data of (s', rest) \<Rightarrow> absorb_blocks c s' (rest @ x))"
proof (induction c s data rule: absorb_blocks.induct)
  case (1 c s data)
  then show ?case
    by (cases "length data < 64") (simp_all add: absorb_blocks.simps [of c s])
qed

lemma absorb_blocks_block: "length b = 64 \<Longrightarrow> absorb_blocks c s (b @ x) = absorb_blocks c (c s b) x"
  by (simp add: absorb_blocks.simps [of c s])

lemma absorb_blocks_rest:
  "length (snd (absorb_blocks c s data)) = length data mod 64"
proof (induction c s data rule: absorb_blocks.induct)
  case (1 c s data)
  then show ?case
    by (cases "length data < 64") (simp_all add: absorb_blocks.simps [of c s] le_mod_geq)
qed

lemma absorb_and_finish_eq:
  assumes "64 dvd prefix"
  shows "absorb_and_finish c s prefix data =
    digest_of (fst (absorb_blocks c s (data @ sha_padding (prefix + length data))))"
proof -
  obtain s' rest where a: "absorb_blocks c s data = (s', rest)" by (cases "absorb_blocks c s data")
  have app: "absorb_blocks c s (data @ x) = absorb_blocks c s' (rest @ x)" for x
    by (subst absorb_blocks_append) (simp add: a)
  let ?n = "prefix + length data"
  let ?bits = "to_be_bytes 8 ((of_nat prefix + of_nat (length data)) * 8 :: u64)"
  have r: "length rest = ?n mod 64"
    using absorb_blocks_rest [of c s data] a assms by (auto elim!: dvdE)
  have bits: "of_nat (8 * ?n) = ((of_nat prefix + of_nat (length data)) * 8 :: u64)" by simp
  have nil: "absorb_blocks c t [] = (t, [])" for t by (simp add: absorb_blocks.simps)
  show ?thesis
  proof (cases "length rest \<le> 55")
    case True
    let ?b = "rest @ [0x80] @ replicate (55 - length rest) 0 @ ?bits"
    have "sha_padding ?n = [0x80] @ replicate (55 - length rest) 0 @ ?bits"
      using True r bits by (simp only: sha_padding_def sha_padding_zeros)
    then have "absorb_blocks c s (data @ sha_padding ?n) = (c s' ?b, [])"
      using absorb_blocks_block [of ?b c s' "[]"] True by (simp add: app nil)
    moreover have "take 56 (rest @ [0x80] @ replicate (63 - length rest) 0) =
        rest @ [0x80] @ replicate (55 - length rest) 0"
      using True by (simp add: take_Cons')
    ultimately show ?thesis using True by (simp add: absorb_and_finish_def a Let_def)
  next
    case False
    let ?b = "rest @ [0x80] @ replicate (63 - length rest) 0"
    let ?l = "replicate 56 0 @ ?bits"
    have "length rest < 64" using r by simp
    then have eq: "119 - length rest = (63 - length rest) + 56" by simp
    have "replicate (119 - length rest) 0 = replicate (63 - length rest) 0 @ replicate 56 (0 :: u8)"
      unfolding eq by (rule replicate_add)
    moreover have "sha_padding ?n = [0x80] @ replicate (119 - length rest) 0 @ ?bits"
      using False r bits by (simp only: sha_padding_def sha_padding_zeros not_le)
    ultimately have pad: "rest @ sha_padding ?n = ?b @ ?l @ []" by (simp only: append_assoc append_Nil2)
    have len: "length ?b = 64" "length ?l = 64"
      using \<open>length rest < 64\<close> by (simp_all only: length_append length_replicate length_to_be_bytes) simp_all
    have "absorb_blocks c s (data @ sha_padding ?n) = (c (c s' ?b) ?l, [])"
      unfolding app pad absorb_blocks_block [OF len(1)] absorb_blocks_block [OF len(2)] nil ..
    then show ?thesis using False by (simp add: absorb_and_finish_def a Let_def)
  qed
qed

lemma kdf_sha256_eq: "kdf_sha256 c data = sha256_spec c data"
  by (simp add: kdf_sha256_def sha256_spec_def absorb_and_finish_eq)

lemma length_sha256_spec: "length (sha256_spec c data) = 32"
  by (simp add: sha256_spec_def digest_of_def)

lemma primed_state_eq:
  assumes "length key \<le> 64"
  shows "absorb_and_finish c (primed_state c p key) 64 data =
    sha256_spec c (map (\<lambda>b. p XOR b) (key @ replicate (64 - length key) 0) @ data)"
proof -
  let ?k = "map (\<lambda>b. p XOR b) (key @ replicate (64 - length key) 0)"
  have "map (\<lambda>i. if i < length key then p XOR key ! i else p) [0..<64] = ?k"
    using assms by (intro nth_equalityI) (auto simp: nth_append)
  then have "primed_state c p key = c SHA256_IV ?k" by (simp add: primed_state_def)
  moreover have "length ?k = 64" using assms by simp
  ultimately show ?thesis
    using absorb_blocks_block [of ?k c SHA256_IV] unfolding sha256_spec_def
    by (simp add: absorb_and_finish_eq del: map_append)
qed

lemma kdf_hmac_rfc2104:
  "kdf_hmac_sign c (kdf_hmac_new c secret) data = hmac_spec c secret data"
  by (simp add: kdf_hmac_sign_def kdf_hmac_new_def hmac_spec_def Let_def primed_state_eq
      kdf_sha256_eq length_sha256_spec)

section \<open>PBKDF2 as it is specified\<close>

text \<open>The chain of pseudorandom values, and the XOR of the first \<open>c\<close> of them.\<close>

primrec pbkdf2_u :: "(bytes \<Rightarrow> bytes) \<Rightarrow> bytes \<Rightarrow> nat \<Rightarrow> bytes" where
  "pbkdf2_u prf salt_block 0 = prf salt_block"
| "pbkdf2_u prf salt_block (Suc i) = prf (pbkdf2_u prf salt_block i)"

definition pbkdf2 :: "(bytes \<Rightarrow> bytes) \<Rightarrow> bytes \<Rightarrow> nat \<Rightarrow> bytes" where
  "pbkdf2 prf salt_block c =
     fold (\<lambda>i acc. xor_into acc (pbkdf2_u prf salt_block i)) [1..<c] (pbkdf2_u prf salt_block 0)"

lemma kdf_rounds:
  "(kdf_round prf ^^ n) (prf sb, prf sb) = (pbkdf2_u prf sb n, pbkdf2 prf sb (Suc n))"
  by (induction n) (simp_all add: pbkdf2_def kdf_round_def Let_def)

lemma kdf_rounds_from:
  "(kdf_round prf ^^ j) (pbkdf2_u prf sb m, pbkdf2 prf sb (Suc m)) =
     (pbkdf2_u prf sb (j + m), pbkdf2 prf sb (Suc (j + m)))"
  unfolding kdf_rounds [symmetric] by (simp only: funpow_add comp_apply)

section \<open>The cache holds only what the derivation gives\<close>

definition entry_material :: "kdf5_entry \<Rightarrow> rar5_key_material" where
  "entry_material e = \<lparr>km_key = ke_key e, km_hash_key = ke_hash_key e, km_psw_check = ke_psw_check e\<rparr>"

definition kdf_cache_ok :: "compression \<Rightarrow> kdf_cache \<Rightarrow> bool" where
  "kdf_cache_ok c cache \<longleftrightarrow>
     length (kc_entries cache) \<le> KDF_CACHE_SLOTS \<and> kc_pos cache < KDF_CACHE_SLOTS
     \<and> (\<forall>e\<in>set (kc_entries cache).
          derive_rar5_material c (ke_password e) (ke_salt e) (ke_kdf_count e) = Inr (entry_material e))"

text \<open>The states a cache goes through: it starts empty and answers any sequence of requests.\<close>

inductive kdf_reachable :: "compression \<Rightarrow> kdf_cache \<Rightarrow> bool" for c where
  new: "kdf_reachable c kdf_cache_new"
| derive: "kdf_reachable c cache \<Longrightarrow>
    kdf_reachable c (snd (derive_material_rar5 c cache password salt kdf_count))"

lemma find_entry_matches:
  "find (kdf_entry_matches pw salt k) es = Some e \<Longrightarrow>
     e \<in> set es \<and> ke_password e = pw \<and> ke_salt e = salt \<and> ke_kdf_count e = k"
  by (auto simp: find_Some_iff kdf_entry_matches_def)

lemma derive_material_miss:
  "find (kdf_entry_matches pw salt k) (kc_entries cache) = None \<Longrightarrow>
     fst (derive_material_rar5 c cache pw salt k) = derive_rar5_material c pw salt k"
  by (simp add: derive_material_rar5_def Let_def split: sum.splits)

lemma derive_material_found:
  "find (kdf_entry_matches pw salt k) (kc_entries cache) = Some e \<Longrightarrow>
     derive_material_rar5 c cache pw salt k = (Inr (entry_material e), cache)"
  by (simp add: derive_material_rar5_def entry_material_def)

lemma derive_material_transparent:
  assumes "kdf_cache_ok c cache"
  shows "fst (derive_material_rar5 c cache pw salt k) = derive_rar5_material c pw salt k"
proof (cases "find (kdf_entry_matches pw salt k) (kc_entries cache)")
  case None
  then show ?thesis by (rule derive_material_miss)
next
  case (Some e)
  then show ?thesis
    using assms find_entry_matches [OF Some] by (auto simp: derive_material_found kdf_cache_ok_def)
qed

lemma derive_material_ok:
  assumes "kdf_cache_ok c cache"
  shows "kdf_cache_ok c (snd (derive_material_rar5 c cache pw salt k))"
  using assms unfolding derive_material_rar5_def kdf_cache_ok_def
  by (auto simp: entry_material_def Let_def KDF_CACHE_SLOTS_def split: option.splits sum.splits
      dest!: set_update_subset_insert [THEN subsetD])

lemma kdf_reachable_ok: "kdf_reachable c cache \<Longrightarrow> kdf_cache_ok c cache"
proof (induction rule: kdf_reachable.induct)
  case new
  show ?case by (simp add: kdf_cache_ok_def kdf_cache_new_def KDF_CACHE_SLOTS_def)
next
  case (derive cache password salt kdf_count)
  then show ?case by (blast intro: derive_material_ok)
qed

text \<open>A request that succeeded is in the cache afterwards.\<close>

lemma derive_material_cached:
  assumes "kdf_cache_ok c cache" and "fst (derive_material_rar5 c cache pw salt k) = Inr m"
  shows "find (kdf_entry_matches pw salt k)
    (kc_entries (snd (derive_material_rar5 c cache pw salt k))) \<noteq> None"
proof (cases "find (kdf_entry_matches pw salt k) (kc_entries cache)")
  case None
  then have "derive_rar5_material c pw salt k = Inr m" using assms(2) by (simp add: derive_material_miss)
  then have "\<exists>e\<in>set (kc_entries (snd (derive_material_rar5 c cache pw salt k))). kdf_entry_matches pw salt k e"
    using None assms(1)
    by (auto simp: derive_material_rar5_def Let_def kdf_entry_matches_def kdf_cache_ok_def
        intro!: bexI set_update_memI)
  then show ?thesis by (auto simp: find_None_iff)
next
  case (Some e)
  then show ?thesis by (simp add: derive_material_found)
qed

section \<open>Properties\<close>

text \<open>C24: the derivation's HMAC, which resumes from two cached states instead of hashing the padded
  key for every tag, is HMAC-SHA256 as RFC 2104 defines it, for keys and messages of every length
  and whatever the compression function computes.\<close>

theorem kdf_hmac_is_rfc2104:
  "kdf_hmac_sign compress256 (kdf_hmac_new compress256 secret) data = hmac_spec compress256 secret data"
  by (rule kdf_hmac_rfc2104)

text \<open>C32: the key, the hash key and the password check value are PBKDF2 of the truncated password
  and the salt with \<open>2^k\<close>, \<open>2^k + 16\<close> and \<open>2^k + 32\<close> iterations, the last one folded to eight
  bytes; an exponent above 24 is refused.\<close>

theorem derive_rar5_material_pbkdf2:
  assumes "length salt = 16"
  shows "derive_rar5_material compress256 password salt k =
    (if 24 < k then Inl (UnsupportedEncryptionKdf k 24)
     else let prf = hmac_spec compress256 (as_bytes (rar_password_compat password));
              T = pbkdf2 prf (salt @ [0, 0, 0, 1])
          in Inr \<lparr>km_key = T (2 ^ unat k), km_hash_key = T (2 ^ unat k + 16),
               km_psw_check = fold_password_check (T (2 ^ unat k + 32))\<rparr>)"
proof (cases "24 < k")
  case False
  let ?sb = "salt @ [0, 0, 0, 1]"
  have "unat k \<le> 24" using False by (simp add: word_less_nat_alt not_less)
  moreover from this have "(2 :: nat) ^ unat k < 2 ^ 32" by (intro power_strict_increasing) simp_all
  ultimately have count: "unat (push_bit (unat k) 1 :: u32) = 2 ^ unat k"
    unfolding unsigned_push_bit_eq by (simp add: push_bit_eq_mult take_bit_nat_eq_self)
  obtain n where n: "(2 :: nat) ^ unat k = Suc n" using not0_implies_Suc [of "2 ^ unat k"] by auto
  have sb: "zero_filled 19 salt @ [1] = ?sb"
    using assms by (simp add: zero_filled_def numeral_3_eq_3)
  have mac: "kdf_hmac_sign compress256 (kdf_hmac_new compress256 secret) = hmac_spec compress256 secret"
    for secret
    by (rule ext) (rule kdf_hmac_rfc2104)
  have n1: "Suc (16 + n) = 2 ^ unat k + 16" "Suc (16 + (16 + n)) = 2 ^ unat k + 32" using n by simp_all
  show ?thesis
    using False
    by (simp only: derive_rar5_material_def CRYPT5_KDF_LG2_COUNT_MAX_def Let_def count sb mac if_False
        n diff_Suc_1 kdf_rounds kdf_rounds_from snd_conv n1 [unfolded n])
qed (simp add: derive_rar5_material_def CRYPT5_KDF_LG2_COUNT_MAX_def)

theorem derive_rar5_material_pbkdf2_witness:
  "length (replicate 16 7 :: bytes) = 16
   \<and> derive_rar5_material (\<lambda>s b. s) [0x61] (replicate 16 7) 0 =
      (let T = pbkdf2 (hmac_spec (\<lambda>s b. s) (as_bytes (rar_password_compat [0x61])))
             (replicate 16 7 @ [0, 0, 0, 1])
       in Inr \<lparr>km_key = T 1, km_hash_key = T 17, km_psw_check = fold_password_check (T 33)\<rparr>)"
  using derive_rar5_material_pbkdf2 [of "replicate 16 7" "\<lambda>s b. s" "[0x61]" 0]
  by (simp add: Let_def)

text \<open>C28: the cache is transparent: in every state it can reach it answers a request with exactly what
  the derivation gives, whether or not it runs it, and it never holds more than 64 entries.\<close>

theorem kdf_cache_transparent:
  assumes "kdf_reachable compress256 cache"
  shows "fst (derive_material_rar5 compress256 cache password salt k) =
      derive_rar5_material compress256 password salt k
    \<and> fst (verify_password_rar5 compress256 cache password salt k check_data) =
      verify_password_check compress256 password salt k check_data
    \<and> length (kc_entries cache) \<le> 64"
  using kdf_reachable_ok [OF assms]
  by (simp add: derive_material_transparent verify_password_rar5_def verify_password_check_def
      kdf_cache_ok_def KDF_CACHE_SLOTS_def)

theorem kdf_cache_transparent_witness:
  "kdf_reachable (\<lambda>s b. s) kdf_cache_new
   \<and> fst (derive_material_rar5 (\<lambda>s b. s) kdf_cache_new [0x61] [] 25) = Inl (UnsupportedEncryptionKdf 25 24)"
  using kdf_cache_transparent [OF kdf_reachable.new, of "\<lambda>s b. s" "[0x61]" "[]" 25 "[]"]
  by (simp add: kdf_reachable.new derive_rar5_material_def CRYPT5_KDF_LG2_COUNT_MAX_def)

text \<open>a key that was derived once is not derived again: repeating a successful request at once
  gives the same answer and leaves the cache, and so the count of derivations, as it is.\<close>

theorem kdf_cache_hit:
  assumes "kdf_reachable compress256 cache"
    and "derive_material_rar5 compress256 cache password salt k = (Inr material, cache')"
  shows "derive_material_rar5 compress256 cache' password salt k = (Inr material, cache')"
proof -
  have ok: "kdf_cache_ok compress256 cache" by (rule kdf_reachable_ok [OF assms(1)])
  have ok': "kdf_cache_ok compress256 cache'" using derive_material_ok [OF ok] assms(2) by (metis snd_conv)
  have "find (kdf_entry_matches password salt k) (kc_entries cache') \<noteq> None"
    using derive_material_cached [OF ok, of password salt k] assms(2) by simp
  then have "snd (derive_material_rar5 compress256 cache' password salt k) = cache'"
    by (auto simp: derive_material_rar5_def)
  moreover have "fst (derive_material_rar5 compress256 cache' password salt k) = Inr material"
    using derive_material_transparent [OF ok] derive_material_transparent [OF ok'] assms(2) by (metis fst_conv)
  ultimately show ?thesis by (metis prod.collapse)
qed

theorem kdf_cache_hit_witness:
  "\<exists>material cache'. derive_material_rar5 (\<lambda>s b. s) kdf_cache_new [0x61] [] 0 = (Inr material, cache')
     \<and> derive_material_rar5 (\<lambda>s b. s) cache' [0x61] [] 0 = (Inr material, cache')"
proof -
  have "\<exists>m. derive_rar5_material (\<lambda>s b. s) [0x61] [] 0 = Inr m"
    by (simp add: derive_rar5_material_def Let_def CRYPT5_KDF_LG2_COUNT_MAX_def)
  then obtain m c where "derive_material_rar5 (\<lambda>s b. s) kdf_cache_new [0x61] [] 0 = (Inr m, c)"
    by (auto simp: derive_material_rar5_def kdf_cache_new_def Let_def)
  then show ?thesis using kdf_cache_hit [OF kdf_reachable.new] by blast
qed

end
