(* ===== verification/Rar5_Fields.thy ===== *)
theory Rar5_Fields
  imports Vint
begin

text \<open>
  The readers the RAR5 header parsers share for fields that may be cut short
  (\<open>read_raw_u32_lossy\<close> and its siblings, repeated in \<open>header/extra.rs\<close>, \<open>file.rs\<close>,
  \<open>main_archive.rs\<close> and \<open>encryption.rs\<close>), file times, the bit-packed compression information of
  \<open>header/compression_info.rs\<close>, and the parts of Rust's string library they use.
\<close>

unbundle bit_operations_syntax

section \<open>Lossy readers\<close>

text \<open>A reader takes the position and returns the value and the position after it.\<close>

definition read_raw_u32_lossy :: "bytes \<Rightarrow> nat \<Rightarrow> u32 \<times> nat" where
  "read_raw_u32_lossy data pos =
     (if pos + 4 \<le> length data then (from_le_bytes (take 4 (drop pos data)), pos + 4) else (0, pos))"

definition read_raw_u64_lossy :: "bytes \<Rightarrow> nat \<Rightarrow> u64 \<times> nat" where
  "read_raw_u64_lossy data pos =
     (let (low, pos) = read_raw_u32_lossy data pos; (high, pos) = read_raw_u32_lossy data pos
      in (ucast low OR push_bit 32 (ucast high), pos))"

text \<open>The variant of \<open>encryption.rs\<close>, which joins the groups with \<open>|=\<close> instead of \<open>+=\<close>.\<close>

fun read_vint_lossy_loop :: "nat list \<Rightarrow> u64 \<Rightarrow> nat \<Rightarrow> bytes \<Rightarrow> u64 \<times> nat" where
  "read_vint_lossy_loop [] result read data = (0, read)"
| "read_vint_lossy_loop (shift # shifts) result read data =
     (case data of
        [] \<Rightarrow> (0, read)
      | byte # rest \<Rightarrow>
          (let result' = result OR push_bit shift (ucast (byte AND 0x7F))
           in if byte AND 0x80 = 0 then (result', read + 1)
              else read_vint_lossy_loop shifts result' (read + 1) rest))"

definition read_vint_lossy :: "bytes \<Rightarrow> u64 \<times> nat" where
  "read_vint_lossy data = read_vint_lossy_loop vint_shifts 0 0 data"

definition read_byte_lossy :: "bytes \<Rightarrow> nat \<Rightarrow> u8 \<times> nat" where
  "read_byte_lossy data pos =
     (if pos < length data then (data ! pos, pos + 1) else (0, pos))"

definition read_bytes_lossy :: "nat \<Rightarrow> bytes \<Rightarrow> nat \<Rightarrow> bytes \<times> nat" where
  "read_bytes_lossy n data pos =
     (let available = drop pos data; copied = min (length available) n
      in (zero_filled n available, min (pos + copied) (length data)))"

section \<open>File times\<close>

text \<open>\<open>SystemTime\<close> as nanoseconds since the Unix epoch; its seconds are an \<open>i64\<close>.\<close>

type_synonym system_time = int

definition system_time_checked :: "int \<Rightarrow> system_time option" where
  "system_time_checked t =
     (if - (2 ^ 63) \<le> t div 1000000000 \<and> t div 1000000000 < 2 ^ 63 then Some t else None)"

definition duration :: "nat \<Rightarrow> nat \<Rightarrow> int" where
  "duration seconds nanos = int seconds * 1000000000 + int nanos"

definition system_time_from_unix :: "u32 \<Rightarrow> u32 \<Rightarrow> system_time option" where
  "system_time_from_unix seconds nanos = system_time_checked (duration (unat seconds) (unat nanos))"

definition WINDOWS_TICKS_PER_SECOND :: u64 where
  "WINDOWS_TICKS_PER_SECOND = 10000000"

definition WINDOWS_TO_UNIX_SECONDS :: u64 where
  "WINDOWS_TO_UNIX_SECONDS = 11644473600"

definition system_time_from_windows :: "u64 \<Rightarrow> system_time option" where
  "system_time_from_windows filetime =
     (let seconds = filetime div WINDOWS_TICKS_PER_SECOND;
          nanos = (ucast ((filetime mod WINDOWS_TICKS_PER_SECOND) * 100) :: u32)
      in if seconds \<ge> WINDOWS_TO_UNIX_SECONDS
         then system_time_checked (duration (unat (seconds - WINDOWS_TO_UNIX_SECONDS)) (unat nanos))
         else system_time_checked (- duration (unat (WINDOWS_TO_UNIX_SECONDS - seconds)) (unat nanos)))"

definition system_time_from_unix_nanos :: "u64 \<Rightarrow> system_time option" where
  "system_time_from_unix_nanos nanos_since_epoch =
     (let seconds = nanos_since_epoch div 1000000000;
          nanos = (ucast (nanos_since_epoch mod 1000000000) :: u32)
      in system_time_checked (duration (unat seconds) (unat nanos)))"

section \<open>Compression information\<close>

definition RAR5_DICT_BASE :: u64 where
  "RAR5_DICT_BASE = 128 * 1024"

definition FCI_RAR5_COMPAT :: u64 where
  "FCI_RAR5_COMPAT = 0x00100000"

definition rar5_dict_size :: "u8 \<Rightarrow> u64 rar_result" where
  "rar5_dict_size dict_code =
     (if unat dict_code < 64 then Inr (push_bit (unat dict_code) RAR5_DICT_BASE)
      else Inl (CorruptArchive (DictionaryCodeOverflow dict_code)))"

definition rar7_dict_size :: "u64 \<Rightarrow> u64 rar_result" where
  "rar7_dict_size raw =
     (let dict_code = ucast (drop_bit 10 raw AND 0x1F); fraction = drop_bit 15 raw AND 0x1F
      in and_then (rar5_dict_size dict_code) (\<lambda>base. Inr (base + (base div 32) * fraction)))"

definition decode_compression_info_for_file :: "u64 \<Rightarrow> bool \<Rightarrow> compression_info rar_result" where
  "decode_compression_info_for_file raw is_directory =
     (let raw_version = (ucast (raw AND 0x3F) :: u8);
          solid = (drop_bit 6 raw AND 1 \<noteq> 0);
          method_code = (ucast (drop_bit 7 raw AND 0x07) :: u8)
      in and_then
           (if raw_version = 0 then
              if is_directory then Inr (0, 0)
              else and_then (rar5_dict_size (ucast (drop_bit 10 raw AND 0x0F))) (\<lambda>d. Inr (0, d))
            else if raw_version = 1 then
              if is_directory then Inr (1, 0)
              else and_then (rar7_dict_size raw) (\<lambda>d.
                     Inr (if raw AND FCI_RAR5_COMPAT \<noteq> 0 then 0 else 1, d))
            else if method_code = 0 then Inr (raw_version, 0)
            else Inl (UnsupportedCompression method_code raw_version))
           (\<lambda>(version, dict_size).
              if dict_size > RAR_UNPACK_MAX_DICT_SIZE
              then Inl (DictionaryTooLarge dict_size RAR_UNPACK_MAX_DICT_SIZE)
              else Inr \<lparr>ci_format = Rar5, ci_version = version, ci_solid = solid,
                     ci_method = compression_method_from_code method_code,
                     ci_dict_size = dict_size\<rparr>))"

definition decode_compression_info :: "u64 \<Rightarrow> compression_info rar_result" where
  "decode_compression_info raw = decode_compression_info_for_file raw False"

section \<open>Strings\<close>

text \<open>
  \<open>std::str\<close>'s UTF-8: one step of its decoder takes a lead byte and what follows it, and gives the
  scalar, or nothing for an ill-formed sequence, with the number of continuation bytes taken.
\<close>

definition byte_at :: "bytes \<Rightarrow> nat \<Rightarrow> u8" where
  "byte_at bs i = (if i < length bs then bs ! i else 0)"

definition is_cont :: "u8 \<Rightarrow> bool" where
  "is_cont b \<longleftrightarrow> b AND 0xC0 = 0x80"

definition cont_bits :: "u8 \<Rightarrow> u32" where
  "cont_bits b = ucast (b AND 0x3F)"

definition second_ok :: "u8 \<Rightarrow> u8 \<Rightarrow> bool" where
  "second_ok b b1 \<longleftrightarrow>
     (if b = 0xE0 then 0xA0 \<le> b1 \<and> b1 \<le> 0xBF
      else if b = 0xED then 0x80 \<le> b1 \<and> b1 \<le> 0x9F
      else if b = 0xF0 then 0x90 \<le> b1 \<and> b1 \<le> 0xBF
      else if b = 0xF4 then 0x80 \<le> b1 \<and> b1 \<le> 0x8F
      else 0x80 \<le> b1 \<and> b1 \<le> 0xBF)"

definition utf8_step :: "u8 \<Rightarrow> bytes \<Rightarrow> u32 option \<times> nat" where
  "utf8_step b rest =
     (let b1 = byte_at rest 0; b2 = byte_at rest 1; b3 = byte_at rest 2 in
      if b < 0x80 then (Some (ucast b), 0)
      else if 0xC2 \<le> b \<and> b \<le> 0xDF then
        if is_cont b1 then (Some (push_bit 6 (ucast (b AND 0x1F)) OR cont_bits b1), 1) else (None, 0)
      else if 0xE0 \<le> b \<and> b \<le> 0xEF then
        if \<not> second_ok b b1 then (None, 0) else if \<not> is_cont b2 then (None, 1)
        else (Some (push_bit 12 (ucast (b AND 0x0F)) OR push_bit 6 (cont_bits b1) OR cont_bits b2), 2)
      else if 0xF0 \<le> b \<and> b \<le> 0xF4 then
        if \<not> second_ok b b1 then (None, 0) else if \<not> is_cont b2 then (None, 1)
        else if \<not> is_cont b3 then (None, 2)
        else (Some (push_bit 18 (ucast (b AND 0x07)) OR push_bit 12 (cont_bits b1)
                OR push_bit 6 (cont_bits b2) OR cont_bits b3), 3)
      else (None, 0))"

function from_utf8_lossy :: "bytes \<Rightarrow> rstring" where
  "from_utf8_lossy [] = []"
| "from_utf8_lossy (b # rest) =
     (case utf8_step b rest of
        (Some c, n) \<Rightarrow> c # from_utf8_lossy (drop n rest)
      | (None, n) \<Rightarrow> 0xFFFD # from_utf8_lossy (drop n rest))"
  by pat_completeness auto
termination by (relation "measure length") auto

function from_utf8 :: "bytes \<Rightarrow> rstring option" where
  "from_utf8 [] = Some []"
| "from_utf8 (b # rest) =
     (case utf8_step b rest of
        (Some c, n) \<Rightarrow> map_option ((#) c) (from_utf8 (drop n rest))
      | (None, _) \<Rightarrow> None)"
  by pat_completeness auto
termination by (relation "measure length") auto

text \<open>\<open>to_string\<close> of an unsigned integer.\<close>

fun decimal :: "nat \<Rightarrow> rstring" where
  "decimal n = (if n < 10 then [0x30 + of_nat n] else decimal (n div 10) @ [0x30 + of_nat (n mod 10)])"

declare decimal.simps [simp del]

section \<open>Facts\<close>

lemma read_raw_u32_lossy_pos: "pos \<le> length data \<Longrightarrow> snd (read_raw_u32_lossy data pos) \<le> length data"
  by (simp add: read_raw_u32_lossy_def)

lemma read_vint_lossy_loop_eq:
  assumes "shifts = map (\<lambda>k. 7 * k) [i..<10]" and "\<And>n. 7 * i \<le> n \<Longrightarrow> \<not> bit (res :: u64) n"
  shows "read_vint_lossy_loop shifts res i data = read_raw_vint_lossy_loop shifts res i data"
  using assms
proof (induction shifts arbitrary: i res data)
  case Nil
  then show ?case by simp
next
  case (Cons shift shifts)
  then have i: "i < 10" "shift = 7 * i" "shifts = map (\<lambda>k. 7 * k) [Suc i..<10]"
    by (auto simp: upt_rec [of i] split: if_splits)
  show ?case
  proof (cases data)
    case Nil
    then show ?thesis by simp
  next
    case (Cons b rest)
    let ?v = "push_bit shift (ucast (b AND 0x7F)) :: u64"
    have v: "bit ?v n \<longleftrightarrow> 7 * i \<le> n \<and> n < 64 \<and> n - 7 * i < 7 \<and> bit b (n - 7 * i)" for n
      by (auto simp: i(2) bit_simps and_0x7F)
    have "\<not> (bit res n \<and> bit ?v n)" for n using Cons.prems(2) v by blast
    then have disj: "res AND ?v = 0"
      by (intro bit_word_eqI) (simp only: bit_and_iff bit_0_eq bot_fun_def bot_bool_def)
    then have add: "res + ?v = res OR ?v" by (simp add: disjunctive_add_eq_or)
    have "read_vint_lossy_loop shifts (res OR ?v) (Suc i) rest =
        read_raw_vint_lossy_loop shifts (res OR ?v) (Suc i) rest"
      using Cons.prems(2) v by (intro Cons.IH i(3)) (auto simp: bit_or_iff)
    then show ?thesis by (simp add: Cons Let_def add)
  qed
qed

lemma unat_masked:
  "unat (drop_bit k raw AND 0x1F :: u64) < 32" "unat (drop_bit k raw AND 0x0F :: u64) < 16"
  "unat (drop_bit k raw AND 0x07 :: u64) < 8"
proof -
  have m: "drop_bit k raw AND 0x1F = take_bit 5 (drop_bit k raw)"
    "drop_bit k raw AND 0x0F = take_bit 4 (drop_bit k raw)"
    "drop_bit k raw AND 0x07 = take_bit 3 (drop_bit k raw)"
    by (simp_all add: take_bit_eq_mask mask_eq_exp_minus_1)
  have less: "unat (take_bit n x) < 2 ^ n" for n and x :: u64
    by (simp add: unsigned_take_bit_eq take_bit_nat_less_exp)
  show "unat (drop_bit k raw AND 0x1F :: u64) < 32" "unat (drop_bit k raw AND 0x0F :: u64) < 16"
    "unat (drop_bit k raw AND 0x07 :: u64) < 8"
    unfolding m using less [of 5] less [of 4] less [of 3] by simp_all
qed

lemma unat_ucast_fits: "unat (w :: 'a::len word) < 2 ^ LENGTH('b) \<Longrightarrow> unat (ucast w :: 'b::len word) = unat w"
  by (simp add: unsigned_ucast_eq take_bit_nat_eq_self)

lemma unat_push_base: "c < 47 \<Longrightarrow> unat (push_bit c RAR5_DICT_BASE) = 2 ^ (17 + c)"
proof -
  assume c: "c < 47"
  have "(2 :: nat) ^ (17 + c) < 2 ^ 64" using c by (intro power_strict_increasing) simp_all
  then show ?thesis
    unfolding unsigned_push_bit_eq RAR5_DICT_BASE_def
    by (simp add: push_bit_eq_mult power_add take_bit_nat_eq_self)
qed

lemma rar5_dict_size_eq:
  "unat code < 47 \<Longrightarrow> \<exists>d. rar5_dict_size code = Inr d \<and> unat d = 2 ^ (17 + unat code)"
  by (simp add: rar5_dict_size_def unat_push_base)

lemma rar7_dict_size_eq:
  fixes raw :: u64
  defines "c \<equiv> unat (drop_bit 10 raw AND 0x1F)" and "f \<equiv> unat (drop_bit 15 raw AND 0x1F)"
  shows "\<exists>d. rar7_dict_size raw = Inr d \<and> unat d = 2 ^ (12 + c) * (32 + f)"
proof -
  have c: "c < 32" and f: "f < 32" by (simp_all add: c_def f_def unat_masked)
  have "unat (ucast (drop_bit 10 raw AND 0x1F) :: u8) = c"
    unfolding c_def by (rule unat_ucast_fits) (use unat_masked(1) [of 10 raw] in simp)
  with c obtain base where base: "rar5_dict_size (ucast (drop_bit 10 raw AND 0x1F)) = Inr base"
    "unat base = 2 ^ (17 + c)"
    using rar5_dict_size_eq [of "ucast (drop_bit 10 raw AND 0x1F)"] by auto
  have q: "unat (base div 32) = 2 ^ (12 + c)" by (simp add: unat_div base power_add)
  have "(2 :: nat) ^ (12 + c) \<le> 2 ^ 43" using c by (intro power_increasing) simp_all
  moreover have "2 ^ (12 + c) * f \<le> (2 :: nat) ^ 43 * 31"
    using f calculation by (intro mult_mono) simp_all
  ultimately have "unat (base div 32 * (drop_bit 15 raw AND 0x1F)) = 2 ^ (12 + c) * f"
    unfolding q [symmetric] f_def by (intro unat_mult_no_overflow) simp
  moreover have "(2 :: nat) ^ (17 + c) \<le> 2 ^ 48" using c by (intro power_increasing) simp_all
  ultimately have "unat (base + base div 32 * (drop_bit 15 raw AND 0x1F)) = 2 ^ (17 + c) + 2 ^ (12 + c) * f"
    using \<open>2 ^ (12 + c) * f \<le> (2 :: nat) ^ 43 * 31\<close> base(2)
    by (subst unat_plus_no_overflow) simp_all
  also have "\<dots> = 2 ^ (12 + c) * (32 + f)" by (simp add: power_add algebra_simps)
  finally show ?thesis by (simp add: rar7_dict_size_def Let_def base(1))
qed

lemma dict_limit: "RAR_UNPACK_MAX_DICT_SIZE < d \<longleftrightarrow> 2 ^ 36 < unat d"
  by (simp add: RAR_UNPACK_MAX_DICT_SIZE_def word_less_nat_alt)

section \<open>Properties\<close>

text \<open>the two lossy readers of variable-length integers, one that adds the groups of bits and
  one that joins them bitwise, agree on every input.\<close>

theorem read_vint_lossy_agrees: "read_vint_lossy data = read_raw_vint_lossy data"
  unfolding read_vint_lossy_def read_raw_vint_lossy_def
  by (rule read_vint_lossy_loop_eq) (simp_all add: vint_shifts_def)

text \<open>C33: the dictionary size of a RAR7 file is decoded without wrap-around: with exponent \<open>c\<close> and
  fraction \<open>f\<close> it is exactly 128 KiB shifted by \<open>c\<close> plus \<open>f\<close> thirty-seconds of that, and the
  information is refused, with that size, exactly when it exceeds 64 GiB.\<close>

theorem rar7_dictionary_exact:
  fixes raw :: u64
  assumes "(ucast (raw AND 0x3F) :: u8) = 1"
  defines "c \<equiv> unat (drop_bit 10 raw AND 0x1F)" and "f \<equiv> unat (drop_bit 15 raw AND 0x1F)"
  shows "if 2 ^ (12 + c) * (32 + f) \<le> 2 ^ 36
    then \<exists>ci. decode_compression_info raw = Inr ci \<and> unat (ci_dict_size ci) = 2 ^ (12 + c) * (32 + f)
      \<and> ci_version ci = (if bit raw 20 then 0 else 1)
    else \<exists>d. decode_compression_info raw = Inl (DictionaryTooLarge d RAR_UNPACK_MAX_DICT_SIZE)
      \<and> unat d = 2 ^ (12 + c) * (32 + f)"
proof -
  obtain d where d: "rar7_dict_size raw = Inr d" "unat d = 2 ^ (12 + c) * (32 + f)"
    using rar7_dict_size_eq [of raw] unfolding c_def f_def by blast
  have compat: "raw AND FCI_RAR5_COMPAT \<noteq> 0 \<longleftrightarrow> bit raw 20"
    using and_exp_eq_0_iff_not_bit [of raw 20] by (simp add: FCI_RAR5_COMPAT_def)
  show ?thesis
    using assms(1) d(2)
    by (simp add: decode_compression_info_def decode_compression_info_for_file_def Let_def d(1)
        dict_limit compat not_less)
qed

theorem rar7_dictionary_exact_witness:
  "(ucast (0x8C01 AND 0x3F :: u64) :: u8) = 1
   \<and> (\<exists>ci. decode_compression_info 0x8C01 = Inr ci \<and> unat (ci_dict_size ci) = 2 ^ 15 * 33)"
proof -
  have "(ucast (0x8C01 AND 0x3F :: u64) :: u8) = 1" "unat (drop_bit 10 0x8C01 AND 0x1F :: u64) = 3"
    "unat (drop_bit 15 0x8C01 AND 0x1F :: u64) = 1"
    by code_simp+
  then show ?thesis using rar7_dictionary_exact [where raw = "0x8C01"] by auto
qed

text \<open>C34: a Windows file time is converted exactly from the Unix epoch on. Before it the fraction of
  a second is taken off instead of added: the result is early by twice the fraction.\<close>

theorem system_time_from_windows_exact:
  fixes filetime :: u64
  defines "exact \<equiv> int (unat filetime) * 100 - 11644473600 * 1000000000"
    and "fraction \<equiv> int (unat filetime mod 10000000) * 100"
  shows "system_time_from_windows filetime =
    Some (if 11644473600 \<le> unat filetime div 10000000 then exact else exact - 2 * fraction)"
proof -
  define n where "n = unat filetime"
  note n [simp] = n_def [symmetric]
  let ?s = "n div 10000000" and ?m = "n mod 10000000"
  have ft: "int n = int ?s * 10000000 + int ?m" 
    using div_mult_mod_eq [of n 10000000] by (metis of_nat_add of_nat_mult of_nat_numeral)
  have "n < 18446744073709551616" using unat_bound [of filetime] by simp
  then have s: "?s \<le> 1844674407370" by (simp add: less_mult_imp_div_less less_Suc_eq_le [symmetric])
  have us: "unat (filetime div WINDOWS_TICKS_PER_SECOND) = ?s"
    by (simp add: WINDOWS_TICKS_PER_SECOND_def unat_div)
  have "unat (filetime mod WINDOWS_TICKS_PER_SECOND) = ?m"
    by (simp add: WINDOWS_TICKS_PER_SECOND_def unat_mod)
  moreover have m: "?m < 10000000" by simp
  ultimately have "unat (filetime mod WINDOWS_TICKS_PER_SECOND * 100) = ?m * 100"
    by (subst unat_mult_no_overflow) simp_all
  then have um: "unat (ucast (filetime mod WINDOWS_TICKS_PER_SECOND * 100) :: u32) = ?m * 100"
    using m by (subst unat_ucast_fits) simp_all
  have ge: "WINDOWS_TO_UNIX_SECONDS \<le> filetime div WINDOWS_TICKS_PER_SECOND \<longleftrightarrow> 11644473600 \<le> ?s"
    using us by (simp add: word_le_nat_alt WINDOWS_TO_UNIX_SECONDS_def)
  have w: "unat WINDOWS_TO_UNIX_SECONDS = 11644473600" by (simp add: WINDOWS_TO_UNIX_SECONDS_def)
  show ?thesis
  proof (cases "11644473600 \<le> ?s")
    case True
    have d: "unat (filetime div WINDOWS_TICKS_PER_SECOND - WINDOWS_TO_UNIX_SECONDS) = ?s - 11644473600"
      using True ge by (simp add: unat_sub us w)
    have "duration (?s - 11644473600) (?m * 100) = exact"
      using True ft by (simp add: duration_def exact_def of_nat_diff del: of_nat_unat)
    moreover have "0 \<le> exact div 1000000000" "exact div 1000000000 < 2 ^ 63"
      using calculation True s m by (simp_all add: duration_def)
    ultimately show ?thesis
      using True ge by (simp add: system_time_from_windows_def Let_def d um system_time_checked_def)
  next
    case False
    have d: "unat (WINDOWS_TO_UNIX_SECONDS - filetime div WINDOWS_TICKS_PER_SECOND) = 11644473600 - ?s"
      using False ge by (simp add: unat_sub us w)
    have e: "- duration (11644473600 - ?s) (?m * 100) = exact - 2 * fraction"
      using False ft by (simp add: duration_def exact_def fraction_def of_nat_diff del: of_nat_unat)
    have "- (2 ^ 63) \<le> (exact - 2 * fraction) div 1000000000" "(exact - 2 * fraction) div 1000000000 < 2 ^ 63"
      unfolding e [symmetric] using False m by (simp_all add: duration_def)
    then show ?thesis
      using False ge by (simp add: system_time_from_windows_def Let_def d um e system_time_checked_def)
  qed
qed

end
