(* ===== verification/Rar5_Extra.thy ===== *)
theory Rar5_Extra
  imports Rar5_Kdf Rar5_Fields
begin

text \<open>
  The extra area of file and service headers, \<open>unrar-rs/src/header/extra.rs\<close>: a sequence of sized,
  typed records. SHA-256, which validates a password check value, is the parameter \<open>sha256\<close>.
\<close>

unbundle bit_operations_syntax

section \<open>Records\<close>

definition FHEXTRA_CRYPT_PSWCHECK :: u64 where "FHEXTRA_CRYPT_PSWCHECK = 0x01"

definition MAXPATHSIZE :: u64 where "MAXPATHSIZE = 0x10000"

definition UNIX_OWNER_NAME_MAX :: nat where "UNIX_OWNER_NAME_MAX = 255"

datatype extra_area_owner = OwnerFile | OwnerService

record file_encryption_record =
  fe_version :: u64
  fe_enc_flags :: u64
  fe_kdf_count :: u8
  fe_salt :: bytes
  fe_iv :: bytes
  fe_check_data :: "bytes option"

datatype extra_record =
    FileEncryption file_encryption_record
  | FileHash file_hash
  | FileTime "system_time option" "system_time option" "system_time option"
  | FileVersion u64
  | RedirectionRecord u64 rstring bytes bool
  | UnixOwner unix_owner_info
  | ServiceData bytes
  | UnknownRecord u64

definition validated_password_check :: "(bytes \<Rightarrow> bytes) \<Rightarrow> bytes \<Rightarrow> bytes option" where
  "validated_password_check sha256 check_data =
     (let digest = sha256 (take 8 check_data)
      in if take 4 digest = take 4 (drop 8 check_data) then Some check_data else None)"

definition parse_file_hash :: "bytes \<Rightarrow> extra_record" where
  "parse_file_hash data =
     (let (hash_type, n) = read_raw_vint_lossy data
      in if hash_type = 0 then FileHash (Blake2sp (zero_filled 32 (drop n data)))
         else UnknownRecord 2)"

text \<open>One of the three times, in seconds or as a Windows file time, when its flag is set.\<close>

definition read_file_time :: "u64 \<Rightarrow> u64 \<Rightarrow> bytes \<Rightarrow> nat \<Rightarrow> system_time option \<times> nat" where
  "read_file_time flags flag data pos =
     (if flags AND flag \<noteq> 0 then
        if flags AND 0x01 \<noteq> 0
        then let (t, pos) = read_raw_u32_lossy data pos in (system_time_from_unix t 0, pos)
        else let (t, pos) = read_raw_u64_lossy data pos in (system_time_from_windows t, pos)
      else (None, pos))"

definition add_file_time_nanos ::
  "u64 \<Rightarrow> u64 \<Rightarrow> bytes \<Rightarrow> nat \<Rightarrow> system_time option \<Rightarrow> system_time option \<times> nat" where
  "add_file_time_nanos flags flag data pos time =
     (if flags AND flag \<noteq> 0 then
        let (raw, pos) = read_raw_u32_lossy data pos; ns = raw AND 0x3FFFFFFF
        in (if ns < 1000000000
            then (case time of None \<Rightarrow> None | Some t \<Rightarrow> system_time_checked (t + int (unat ns)))
            else time, pos)
      else (time, pos))"

definition parse_file_time :: "bytes \<Rightarrow> extra_record" where
  "parse_file_time data =
     (if length data < 5 then FileTime None None None
      else
        let (flags, pos) = read_raw_vint_lossy data;
            (mtime, pos) = read_file_time flags 0x02 data pos;
            (ctime, pos) = read_file_time flags 0x04 data pos;
            (atime, pos) = read_file_time flags 0x08 data pos
        in if flags AND 0x01 \<noteq> 0 \<and> flags AND 0x10 \<noteq> 0 then
             let (mtime, pos) = add_file_time_nanos flags 0x02 data pos mtime;
                 (ctime, pos) = add_file_time_nanos flags 0x04 data pos ctime;
                 (atime, pos) = add_file_time_nanos flags 0x08 data pos atime
             in FileTime mtime ctime atime
           else FileTime mtime ctime atime)"

definition parse_file_version :: "bytes \<Rightarrow> extra_record" where
  "parse_file_version data =
     (if data = [] then FileVersion 0
      else let (_, n) = read_raw_vint_lossy data; (version, _) = read_raw_vint_lossy (drop n data)
           in FileVersion version)"

definition invalid_redirection_record :: extra_record where
  "invalid_redirection_record = UnknownRecord 5"

definition parse_redirection :: "bytes \<Rightarrow> extra_record" where
  "parse_redirection data =
     (let (redir_type, n) = read_raw_vint_lossy data; rest = drop n data;
          (flags, m) = read_raw_vint_lossy rest; rest = drop m rest;
          (name_len, k) = read_raw_vint_lossy rest
      in if name_len = 0 \<or> name_len \<ge> MAXPATHSIZE then invalid_redirection_record
         else let target_bytes = zero_filled (unat name_len) (drop k rest);
                  (target, target_raw) = decode_utf8_prefix_until_nul_with_encoded_bytes target_bytes
              in RedirectionRecord redir_type target target_raw (flags AND 0x01 \<noteq> 0))"

definition read_unix_owner_name :: "bytes \<Rightarrow> nat \<Rightarrow> bytes option \<times> nat" where
  "read_unix_owner_name data pos =
     (let (name_len, n) = read_raw_vint_lossy (drop pos data);
          pos = min (pos + n) (length data);
          copy_len = min (unat name_len) UNIX_OWNER_NAME_MAX;
          available = drop pos data;
          bs = zero_filled copy_len available;
          copied = min (length available) copy_len
      in (Some (until_nul bs), min (pos + copied) (length data)))"

definition parse_unix_owner :: "bytes \<Rightarrow> extra_record" where
  "parse_unix_owner data =
     (let (flags, pos) = read_raw_vint_lossy data;
          owner = unix_owner_default;
          (owner, pos) =
            (if flags AND 0x01 \<noteq> 0 then
               (case read_unix_owner_name data pos of
                  (Some name, pos) \<Rightarrow> (owner\<lparr>uo_user_name := Some (from_utf8_lossy name),
                                        uo_user_name_raw := Some name\<rparr>, pos)
                | (None, pos) \<Rightarrow> (owner, pos))
             else (owner, pos));
          (owner, pos) =
            (if flags AND 0x02 \<noteq> 0 then
               (case read_unix_owner_name data pos of
                  (Some name, pos) \<Rightarrow> (owner\<lparr>uo_group_name := Some (from_utf8_lossy name),
                                        uo_group_name_raw := Some name\<rparr>, pos)
                | (None, pos) \<Rightarrow> (owner, pos))
             else (owner, pos));
          (owner, pos) =
            (if flags AND 0x04 \<noteq> 0 then
               (let (uid, n) = read_raw_vint_lossy (drop pos data)
                in (owner\<lparr>uo_uid := Some uid\<rparr>, min (pos + n) (length data)))
             else (owner, pos));
          owner =
            (if flags AND 0x08 \<noteq> 0
             then owner\<lparr>uo_gid := Some (fst (read_raw_vint_lossy (drop pos data)))\<rparr>
             else owner)
      in UnixOwner owner)"

definition parse_file_encryption :: "(bytes \<Rightarrow> bytes) \<Rightarrow> bytes \<Rightarrow> extra_area_owner \<Rightarrow> extra_record" where
  "parse_file_encryption sha256 data owner =
     (let (version, n) = read_raw_vint_lossy data; rest = drop n data;
          (enc_flags, n) = read_raw_vint_lossy rest; rest = drop n rest;
          kdf_count = (case rest of [] \<Rightarrow> 0 | b # _ \<Rightarrow> b);
          salt = zero_filled 16 (drop 1 rest);
          iv = zero_filled 16 (drop 17 rest);
          check_data =
            (if kdf_count \<le> CRYPT5_KDF_LG2_COUNT_MAX \<and> enc_flags AND FHEXTRA_CRYPT_PSWCHECK \<noteq> 0
             then (case (owner, validated_password_check sha256 (zero_filled 12 (drop 33 rest))) of
                     (OwnerService, Some data) \<Rightarrow>
                       if take 8 data = replicate 8 0 then None else Some data
                   | (_, value) \<Rightarrow> value)
             else None)
      in FileEncryption \<lparr>fe_version = version, fe_enc_flags = enc_flags, fe_kdf_count = kdf_count,
           fe_salt = salt, fe_iv = iv, fe_check_data = check_data\<rparr>)"

section \<open>The area\<close>

definition parse_record ::
  "(bytes \<Rightarrow> bytes) \<Rightarrow> extra_area_owner \<Rightarrow> u64 \<Rightarrow> bytes \<Rightarrow> extra_record" where
  "parse_record sha256 owner record_type record_body =
     (if record_type = 1 then parse_file_encryption sha256 record_body owner
      else if record_type = 2 then parse_file_hash record_body
      else if record_type = 3 then parse_file_time record_body
      else if record_type = 4 then parse_file_version record_body
      else if record_type = 5 then parse_redirection record_body
      else if record_type = 6 then parse_unix_owner record_body
      else if record_type = 7 then ServiceData record_body
      else UnknownRecord record_type)"

function parse_extra_area_from ::
  "(bytes \<Rightarrow> bytes) \<Rightarrow> extra_area_owner \<Rightarrow> bytes \<Rightarrow> nat \<Rightarrow> extra_record list" where
  "parse_extra_area_from sha256 owner data pos =
     (if length data - pos < 2 then []
      else
        let (record_size, size_n) = read_raw_vint_lossy (drop pos data);
            pos' = pos + size_n
        in if record_size = 0 \<or> pos' = length data then []
           else if pos' + unat record_size > length data then []
           else
             let record_end = pos' + unat record_size;
                 record_data = take (unat record_size) (drop pos' data);
                 (record_type, type_n) = read_raw_vint_lossy record_data;
                 record_end' = (if owner = OwnerService \<and> record_type = 7 \<and> record_end + 1 = length data
                                then record_end + 1 else record_end);
                 record_body = drop type_n (take (record_end' - pos') (drop pos' data))
             in parse_record sha256 owner record_type record_body
                  # parse_extra_area_from sha256 owner data record_end')"
  by pat_completeness auto
termination
  by (relation "measure (\<lambda>(sha256, owner, data, pos). length data - pos)")
    (auto simp: unat_gt_0 intro!: diff_less_mono2 split: if_splits)

declare parse_extra_area_from.simps [simp del]

definition parse_extra_area ::
  "(bytes \<Rightarrow> bytes) \<Rightarrow> bytes \<Rightarrow> extra_area_owner \<Rightarrow> extra_record list rar_result" where
  "parse_extra_area sha256 data owner = Inr (parse_extra_area_from sha256 owner data 0)"

definition is_encrypted :: "extra_record list \<Rightarrow> bool" where
  "is_encrypted records = list_ex (\<lambda>record. case record of FileEncryption _ \<Rightarrow> True | _ \<Rightarrow> False) records"

fun blake2_hash :: "extra_record list \<Rightarrow> file_hash option" where
  "blake2_hash [] = None"
| "blake2_hash (FileHash h # records) = Some h"
| "blake2_hash (_ # records) = blake2_hash records"

section \<open>A writer\<close>

definition encode_record :: "u64 \<times> bytes \<Rightarrow> bytes" where
  "encode_record = (\<lambda>(ty, body). encode_vint (of_nat (length (encode_vint ty @ body))) @ encode_vint ty @ body)"

lemma read_raw_vint_lossy_encode:
  "read_raw_vint_lossy (encode_vint v @ rest) = (v, length (encode_vint v))"
  by (simp add: read_raw_vint_lossy_eq read_vint_encode)

lemma length_encode_vint_pos: "0 < length (encode_vint v)"
  using length_encode_vint(1) [of v] by linarith

lemma length_encode_record: "2 \<le> length (encode_record rec)"
proof -
  have "length (encode_vint v) + (length (encode_vint w) + n) \<ge> 2" for v w n
    using length_encode_vint(1) [of v] length_encode_vint(1) [of w] by linarith
  then show ?thesis by (simp add: encode_record_def split: prod.splits)
qed

text \<open>One turn of the loop at a written record that is followed by \<open>rest\<close>.\<close>

lemma parse_extra_area_from_record:
  assumes "drop pos data = encode_record (ty, body) @ rest" and "length (encode_vint ty @ body) < 2 ^ 64"
    and "pos \<le> length data"
    and k: "k = (if owner = OwnerService \<and> ty = 7 \<and> length rest = 1 then 1 else 0)"
  shows "parse_extra_area_from sha256 owner data pos =
    parse_record sha256 owner ty (body @ take k rest)
      # parse_extra_area_from sha256 owner data (pos + length (encode_record (ty, body)) + k)"
proof -
  have "unat (of_nat (length (encode_vint ty @ body)) :: u64) = length (encode_vint ty) + length body"
    using assms(2) by (simp add: unat_of_nat take_bit_nat_eq_self del: of_nat_add)
  then obtain sz :: u64 where enc: "encode_record (ty, body) = encode_vint sz @ encode_vint ty @ body"
    and sz: "unat sz = length (encode_vint ty) + length body"
    unfolding encode_record_def prod.case by blast
  let ?n = "length (encode_vint sz)"
  have pos1: "0 < length (encode_vint ty)" by (rule length_encode_vint_pos)
  have data: "drop pos data = encode_vint sz @ encode_vint ty @ body @ rest"
    using assms(1) by (simp add: enc)
  have len: "length data = pos + ?n + length (encode_vint ty) + length body + length rest"
    using arg_cong [OF data, of length] assms(3) by simp
  have d1: "drop (pos + ?n) data = encode_vint ty @ body @ rest"
    using arg_cong [OF data, of "drop ?n"] by (simp add: add.commute)
  have two: "\<not> ?n + (length (encode_vint ty) + (length body + length rest)) < 2"
    using pos1 length_encode_vint_pos [of sz] by linarith
  have "sz \<noteq> 0" using sz pos1 by (metis add_is_0 less_numeral_extra(3) unsigned_0)
  then show ?thesis
    using pos1 length_encode_vint_pos [of sz]
    by (subst parse_extra_area_from.simps)
      (auto simp: data d1 len sz k two read_raw_vint_lossy_encode enc Let_def add.assoc)
qed

lemma parse_extra_area_from_records:
  assumes "drop pos data = concat (map encode_record recs)" and "pos \<le> length data"
    and "\<forall>(ty, body)\<in>set recs. length (encode_vint ty @ body) < 2 ^ 64"
  shows "parse_extra_area_from sha256 owner data pos =
    map (\<lambda>(ty, body). parse_record sha256 owner ty body) recs"
  using assms
proof (induction recs arbitrary: pos)
  case Nil
  then show ?case by (subst parse_extra_area_from.simps) simp
next
  case (Cons rec recs)
  obtain ty body where rec: "rec = (ty, body)" by (cases rec)
  let ?rest = "concat (map encode_record recs)"
  have "length ?rest \<noteq> 1"
    using length_encode_record [of "hd recs"] by (cases recs) auto
  moreover have "drop (pos + length (encode_record rec)) data = ?rest"
    using arg_cong [OF Cons.prems(1), of "drop (length (encode_record rec))"] by (simp add: add.commute)
  moreover have "pos + length (encode_record rec) \<le> length data"
    using arg_cong [OF Cons.prems(1), of length] Cons.prems(2) by simp
  ultimately show ?case
    using Cons.prems Cons.IH [of "pos + length (encode_record rec)"]
      parse_extra_area_from_record [of pos data ty body ?rest 0 owner sha256]
    by (simp add: rec)
qed

section \<open>Properties\<close>

text \<open>C27: an extra area written record by record is parsed into exactly those records, in order,
  each by the parser of its type: no record is lost, merged or read past its end.\<close>

theorem extra_area_roundtrip:
  assumes "\<forall>(ty, body)\<in>set recs. length (encode_vint ty @ body) < 2 ^ 64"
  shows "parse_extra_area sha256 (concat (map encode_record recs)) owner =
    Inr (map (\<lambda>(ty, body). parse_record sha256 owner ty body) recs)"
  using parse_extra_area_from_records [of 0 "concat (map encode_record recs)" recs] assms
  by (simp add: parse_extra_area_def)

theorem extra_area_roundtrip_witness:
  "parse_extra_area (\<lambda>_. []) (concat (map encode_record [(4, [0, 9]), (99, [1])])) OwnerFile =
     Inr [FileVersion 9, UnknownRecord 99]"
proof -
  have l: "encode_vint 4 = [4]" "encode_vint 99 = [99]" by code_simp+
  have v: "parse_file_version [0, 9] = FileVersion 9" by code_simp
  show ?thesis
    using extra_area_roundtrip [of "[(4, [0, 9]), (99, [1])]" "\<lambda>_. []" OwnerFile]
    by (simp add: l v parse_record_def)
qed

text \<open>service data written by RAR 5.21 and earlier, with a size one byte too small, is recovered
  whole in a service header's extra area; in a file header's the trailing byte is left out.\<close>

theorem old_service_data_recovered:
  assumes "length (encode_vint 7 @ body) < 2 ^ 64"
  shows "parse_extra_area sha256 (encode_record (7, body) @ [b]) owner =
    Inr [ServiceData (if owner = OwnerService then body @ [b] else body)]"
proof -
  let ?d = "encode_record (7, body) @ [b]"
  have e: "parse_extra_area_from sha256 owner ?d n = []" if "length ?d - n < 2" for n
    using that by (subst parse_extra_area_from.simps) simp
  show ?thesis
    using assms parse_extra_area_from_record [of 0 ?d 7 body "[b]" _ owner sha256, OF _ _ _ refl]
    by (auto simp: parse_extra_area_def parse_record_def e)
qed

theorem old_service_data_recovered_witness:
  "length (encode_vint 7 @ [1, 2]) < 2 ^ 64
   \<and> parse_extra_area (\<lambda>_. []) (encode_record (7, [1, 2]) @ [3]) OwnerService = Inr [ServiceData [1, 2, 3]]"
proof -
  have l: "encode_vint 7 = [7]" by code_simp
  show ?thesis using old_service_data_recovered [of "[1, 2]" "\<lambda>_. []" 3 OwnerService] by (simp add: l)
qed

end
