(* ===== verification/Rar5_Blocks.thy ===== *)
theory Rar5_Blocks
  imports Rar5_Extra
begin

text \<open>
  The typed blocks of a RAR5 archive: main archive (\<open>unrar-rs/src/header/main_archive.rs\<close>), file
  (\<open>file.rs\<close>), service (\<open>service.rs\<close>), archive encryption (\<open>encryption.rs\<close>) and end of archive
  (\<open>end_archive.rs\<close>), each parsed from the raw header of \<open>Rar5_Common\<close>. Slices of the body are
  written \<open>drop\<close>: every position they start at is within the body, because the readers never
  count more bytes than there are.
\<close>

unbundle bit_operations_syntax

section \<open>Main archive header\<close>

record main_archive_header =
  ma_is_volume :: bool
  ma_volume_number :: "u64 option"
  ma_is_solid :: bool
  ma_has_recovery_record :: bool
  ma_is_locked :: bool
  ma_archive_flags :: u64
  ma_has_locator :: bool
  ma_quick_open_offset :: "nat option"
  ma_recovery_record_offset :: "nat option"
  ma_original_name :: "rstring option"
  ma_original_name_raw :: "bytes option"
  ma_original_creation_time :: "system_time option"

record main_extra_metadata =
  mx_has_locator :: bool
  mx_quick_open_offset :: "nat option"
  mx_recovery_record_offset :: "nat option"
  mx_original_name :: "rstring option"
  mx_original_name_raw :: "bytes option"
  mx_original_creation_time :: "system_time option"

definition main_extra_default :: main_extra_metadata where
  "main_extra_default = \<lparr>mx_has_locator = False, mx_quick_open_offset = None,
     mx_recovery_record_offset = None, mx_original_name = None, mx_original_name_raw = None,
     mx_original_creation_time = None\<rparr>"

text \<open>\<open>checked_add\<close> on stream offsets, which are \<open>u64\<close>.\<close>

definition offset_checked_add :: "nat \<Rightarrow> u64 \<Rightarrow> nat option" where
  "offset_checked_add base off = (if base + unat off < 2 ^ 64 then Some (base + unat off) else None)"

definition parse_locator_extra :: "bytes \<Rightarrow> nat \<Rightarrow> main_extra_metadata \<Rightarrow> main_extra_metadata" where
  "parse_locator_extra data block_offset metadata =
     (let metadata = metadata\<lparr>mx_has_locator := True\<rparr>;
          (locator_flags, pos) = read_raw_vint_lossy data;
          (metadata, pos) =
            (if locator_flags AND 0x01 \<noteq> 0 then
               (let (off, n) = read_raw_vint_lossy (drop pos data);
                    pos = min (pos + n) (length data)
                in (if off \<noteq> 0
                    then metadata\<lparr>mx_quick_open_offset := offset_checked_add block_offset off\<rparr>
                    else metadata, pos))
             else (metadata, pos))
      in if locator_flags AND 0x02 \<noteq> 0 then
           (let (off, _) = read_raw_vint_lossy (drop pos data)
            in if off \<noteq> 0
               then metadata\<lparr>mx_recovery_record_offset := offset_checked_add block_offset off\<rparr>
               else metadata)
         else metadata)"

definition parse_metadata_extra :: "bytes \<Rightarrow> main_extra_metadata \<Rightarrow> main_extra_metadata" where
  "parse_metadata_extra data metadata =
     (let (metadata_flags, pos) = read_raw_vint_lossy data;
          (metadata, pos) =
            (if metadata_flags AND 0x01 \<noteq> 0 then
               (let (name_size, n) = read_raw_vint_lossy (drop pos data);
                    pos = min (pos + n) (length data)
                in if name_size > 0 \<and> name_size < MAXPATHSIZE then
                     (let available = drop pos data;
                          name_bytes = zero_filled (unat name_size) available;
                          copied = min (length available) (unat name_size);
                          pos = min (pos + copied) (length data)
                      in if (case name_bytes of [] \<Rightarrow> 0 | b # _ \<Rightarrow> b) \<noteq> 0
                         then (metadata\<lparr>mx_original_name := Some (decode_utf8_prefix_until_nul name_bytes),
                                 mx_original_name_raw := Some name_bytes\<rparr>, pos)
                         else (metadata, pos))
                   else (metadata, pos))
             else (metadata, pos))
      in if metadata_flags AND 0x02 \<noteq> 0 then
           metadata\<lparr>mx_original_creation_time :=
             (if metadata_flags AND 0x04 \<noteq> 0 then
                if metadata_flags AND 0x08 \<noteq> 0
                then system_time_from_unix_nanos (fst (read_raw_u64_lossy data pos))
                else system_time_from_unix (fst (read_raw_u32_lossy data pos)) 0
              else system_time_from_windows (fst (read_raw_u64_lossy data pos)))\<rparr>
         else metadata)"

function parse_main_extra_from ::
  "nat \<Rightarrow> bytes \<Rightarrow> nat \<Rightarrow> main_extra_metadata \<Rightarrow> main_extra_metadata" where
  "parse_main_extra_from block_offset data pos metadata =
     (if pos < length data then
        case read_vint (drop pos data) of
          Inl _ \<Rightarrow> metadata
        | Inr (record_size, size_n) \<Rightarrow>
            let pos = pos + size_n; record_end = pos + unat record_size in
            if record_size = 0 then metadata
            else if record_end > length data then metadata
            else
              let record_data = take (unat record_size) (drop pos data) in
              case read_vint record_data of
                Inl _ \<Rightarrow> metadata
              | Inr (record_type, type_n) \<Rightarrow>
                  let record_body = drop type_n record_data in
                  parse_main_extra_from block_offset data record_end
                    (if record_type = 0x01 then parse_locator_extra record_body block_offset metadata
                     else if record_type = 0x02 then parse_metadata_extra record_body metadata
                     else metadata)
      else metadata)"
  by pat_completeness auto
termination
  by (relation "measure (\<lambda>(off, data, pos, m). length data - pos)")
    (auto simp: unat_gt_0 intro!: diff_less_mono2)

declare parse_main_extra_from.simps [simp del]

definition parse_main_extra_records :: "raw_header \<Rightarrow> main_extra_metadata" where
  "parse_main_extra_records raw =
     (case extra_area_bytes raw of
        None \<Rightarrow> main_extra_default
      | Some data \<Rightarrow> parse_main_extra_from (rh_offset raw) data 0 main_extra_default)"

definition main_archive_parse :: "raw_header \<Rightarrow> main_archive_header rar_result" where
  "main_archive_parse raw =
     and_then (type_specific_offset raw) (\<lambda>offset.
     and_then (index_from offset (rh_body raw)) (\<lambda>body.
     and_then (read_vint body) (\<lambda>(archive_flags, pos).
     and_then
       (if archive_flags AND 0x0002 \<noteq> 0
        then and_then (index_from pos body) (\<lambda>rest.
               and_then (read_vint rest) (\<lambda>(vn, _). Inr (Some vn)))
        else Inr None)
       (\<lambda>volume_number.
          let extras = parse_main_extra_records raw in
          Inr \<lparr>ma_is_volume = (archive_flags AND 0x0001 \<noteq> 0), ma_volume_number = volume_number,
            ma_is_solid = (archive_flags AND 0x0004 \<noteq> 0),
            ma_has_recovery_record = (archive_flags AND 0x0008 \<noteq> 0),
            ma_is_locked = (archive_flags AND 0x0010 \<noteq> 0), ma_archive_flags = archive_flags,
            ma_has_locator = mx_has_locator extras, ma_quick_open_offset = mx_quick_open_offset extras,
            ma_recovery_record_offset = mx_recovery_record_offset extras,
            ma_original_name = mx_original_name extras, ma_original_name_raw = mx_original_name_raw extras,
            ma_original_creation_time = mx_original_creation_time extras\<rparr>))))"

section \<open>File and service headers\<close>

definition DIRECTORY :: u64 where "DIRECTORY = 0x0001"

definition TIME_PRESENT :: u64 where "TIME_PRESENT = 0x0002"

definition CRC32_PRESENT :: u64 where "CRC32_PRESENT = 0x0004"

definition UNPACKED_SIZE_UNKNOWN :: u64 where "UNPACKED_SIZE_UNKNOWN = 0x0008"

text \<open>The bytes a repaired name suffix stands for, and whether one of them was in the private-use
  range; nothing when a character is neither that nor ASCII.\<close>

fun private_use_bytes :: "rstring \<Rightarrow> (bytes \<times> bool) option" where
  "private_use_bytes [] = Some ([], False)"
| "private_use_bytes (ch # rest) =
     (if 0xE000 \<le> ch \<and> ch - 0xE000 \<le> 0xFF
      then map_option (\<lambda>(bs, _). (ucast (ch - 0xE000) # bs, True)) (private_use_bytes rest)
      else if ch < 0x80 then map_option (\<lambda>(bs, saw). (ucast ch # bs, saw)) (private_use_bytes rest)
      else None)"

definition repair_private_use_utf8_name :: "rstring \<Rightarrow> rstring option" where
  "repair_private_use_utf8_name name =
     (case position (\<lambda>c. c = 0xFFFE) name of
        None \<Rightarrow> None
      | Some marker \<Rightarrow>
          (case private_use_bytes (drop (marker + 1) name) of
             None \<Rightarrow> None
           | Some (repaired_bytes, saw_encoded_byte) \<Rightarrow>
               if \<not> saw_encoded_byte then None
               else map_option (\<lambda>decoded. take marker name @ decoded) (from_utf8 repaired_bytes)))"

definition decode_rar5_name :: "bytes \<Rightarrow> rstring" where
  "decode_rar5_name name_bytes =
     (let decoded = decode_utf8_prefix_until_nul name_bytes
      in case repair_private_use_utf8_name decoded of Some n \<Rightarrow> n | None \<Rightarrow> decoded)"

record file_header =
  fh_name :: rstring
  fh_name_raw :: "bytes option"
  fh_unpacked_size :: "u64 option"
  fh_attributes :: u64
  fh_mtime :: "system_time option"
  fh_ctime :: "system_time option"
  fh_atime :: "system_time option"
  fh_data_crc32 :: "u32 option"
  fh_data_hash :: "data_hash option"
  fh_compression :: compression_info
  fh_host_os :: host_os
  fh_is_directory :: bool
  fh_file_flags :: u64
  fh_data_size :: u64
  fh_split_before :: bool
  fh_split_after :: bool
  fh_data_offset :: nat
  fh_is_encrypted :: bool
  fh_version :: "u64 option"
  fh_service_subdata :: "bytes option"

definition file_parse :: "raw_header \<Rightarrow> nat \<Rightarrow> file_header rar_result" where
  "file_parse raw data_offset =
     and_then (type_specific_offset raw) (\<lambda>offset.
     and_then (index_from offset (rh_body raw)) (\<lambda>body.
       let ea_size = unat (rh_extra_area_size raw) in
       if ea_size > length body then Inl (TruncatedHeader (rh_offset raw))
       else
         let type_fields = take (length body - ea_size) body;
             (file_flags, n) = read_raw_vint_lossy type_fields; pos = n;
             is_directory = (file_flags AND DIRECTORY \<noteq> 0);
             size_unknown = (file_flags AND UNPACKED_SIZE_UNKNOWN \<noteq> 0);
             (raw_unpacked_size, n) = read_raw_vint_lossy (drop pos type_fields); pos = pos + n;
             unpacked_size = (if size_unknown then None else Some raw_unpacked_size);
             (attrs, n) = read_raw_vint_lossy (drop pos type_fields); pos = pos + n;
             (mtime, pos) =
               (if file_flags AND TIME_PRESENT \<noteq> 0
                then let (ts, pos) = read_raw_u32_lossy type_fields pos in (Some (duration (unat ts) 0), pos)
                else (None, pos));
             (data_crc32, pos) =
               (if file_flags AND CRC32_PRESENT \<noteq> 0
                then let (crc, pos) = read_raw_u32_lossy type_fields pos in (Some crc, pos)
                else (None, pos));
             (comp_raw, n) = read_raw_vint_lossy (drop pos type_fields); pos = pos + n
         in and_then (decode_compression_info_for_file comp_raw is_directory) (\<lambda>compression.
              let (os_val, n) = read_raw_vint_lossy (drop pos type_fields); pos = pos + n;
                  (name_len, n) = read_raw_vint_lossy (drop pos type_fields); pos = pos + n;
                  read_name_len = unat (min name_len MAXPATHSIZE);
                  name_bytes = zero_filled read_name_len (drop pos type_fields)
              in Inr \<lparr>fh_name = decode_rar5_name name_bytes, fh_name_raw = Some name_bytes,
                   fh_unpacked_size = unpacked_size, fh_attributes = attrs, fh_mtime = mtime,
                   fh_ctime = None, fh_atime = None, fh_data_crc32 = data_crc32,
                   fh_data_hash = map_option HashCrc32 data_crc32, fh_compression = compression,
                   fh_host_os = host_os_from os_val, fh_is_directory = is_directory,
                   fh_file_flags = file_flags, fh_data_size = rh_data_area_size raw,
                   fh_split_before = is_split_before raw, fh_split_after = is_split_after raw,
                   fh_data_offset = data_offset, fh_is_encrypted = False, fh_version = None,
                   fh_service_subdata = None\<rparr>)))"

record service_header =
  sh_inner :: file_header
  sh_header_offset :: nat
  sh_is_child :: bool
  sh_is_inherited :: bool

definition service_name :: "service_header \<Rightarrow> rstring" where
  "service_name svc = fh_name (sh_inner svc)"

definition service_parse :: "raw_header \<Rightarrow> nat \<Rightarrow> service_header rar_result" where
  "service_parse raw data_offset =
     and_then (file_parse raw data_offset) (\<lambda>inner.
       Inr \<lparr>sh_inner = inner, sh_header_offset = rh_offset raw,
         sh_is_child = (rh_flags raw AND CHILD \<noteq> 0),
         sh_is_inherited = (rh_flags raw AND INHERITED \<noteq> 0)\<rparr>)"

section \<open>Archive encryption and end of archive\<close>

record encryption_header =
  eh_version :: u64
  eh_enc_flags :: u64
  eh_kdf_count :: u8
  eh_salt :: bytes
  eh_has_password_check :: bool
  eh_check_data :: "bytes option"

definition CRYPT_VERSION :: u64 where "CRYPT_VERSION = 0"

definition encryption_parse :: "(bytes \<Rightarrow> bytes) \<Rightarrow> raw_header \<Rightarrow> encryption_header rar_result" where
  "encryption_parse sha256 raw =
     and_then (type_specific_offset raw) (\<lambda>offset.
     and_then (index_from offset (rh_body raw)) (\<lambda>body.
       let (version, pos) = read_vint_lossy body in
       if version > CRYPT_VERSION then Inl (UnsupportedEncryption version)
       else
         let (enc_flags, n) = read_vint_lossy (drop pos body); pos = pos + n;
             (kdf_count, pos) = read_byte_lossy body pos
         in if kdf_count > CRYPT5_KDF_LG2_COUNT_MAX
            then Inl (UnsupportedEncryptionKdf kdf_count CRYPT5_KDF_LG2_COUNT_MAX)
            else
              let (salt, pos) = read_bytes_lossy 16 body pos;
                  has_password_check = (enc_flags AND 0x0001 \<noteq> 0);
                  check_data =
                    (if has_password_check then
                       let (check_data, pos) = read_bytes_lossy 12 body pos;
                           digest = sha256 (take 8 check_data)
                       in if take 4 digest = take 4 (drop 8 check_data) then Some check_data else None
                     else None)
              in Inr \<lparr>eh_version = version, eh_enc_flags = enc_flags, eh_kdf_count = kdf_count,
                   eh_salt = salt, eh_has_password_check = has_password_check,
                   eh_check_data = check_data\<rparr>))"

record end_archive_header =
  ea_more_volumes :: bool
  ea_end_flags :: u64

definition end_archive_parse :: "raw_header \<Rightarrow> end_archive_header rar_result" where
  "end_archive_parse raw =
     and_then (type_specific_offset raw) (\<lambda>offset.
     and_then (index_from offset (rh_body raw)) (\<lambda>body.
       let (end_flags, _) = read_raw_vint_lossy body
       in Inr \<lparr>ea_more_volumes = (end_flags AND 0x0001 \<noteq> 0), ea_end_flags = end_flags\<rparr>))"

section \<open>A writer for file headers\<close>

definition encode_file_fields ::
  "u64 \<Rightarrow> u64 \<Rightarrow> u64 \<Rightarrow> u32 \<Rightarrow> u32 \<Rightarrow> u64 \<Rightarrow> u64 \<Rightarrow> bytes \<Rightarrow> bytes" where
  "encode_file_fields flags unpacked attrs mtime crc cinfo os name =
     encode_vint flags @ encode_vint unpacked @ encode_vint attrs @
     (if flags AND TIME_PRESENT \<noteq> 0 then to_le_bytes 4 mtime else []) @
     (if flags AND CRC32_PRESENT \<noteq> 0 then to_le_bytes 4 crc else []) @
     encode_vint cinfo @ encode_vint os @ encode_vint (of_nat (length name)) @ name"

lemma read_vint_lossy_at:
  "data = pre @ encode_vint v @ rest \<Longrightarrow> pos = length pre \<Longrightarrow>
     read_raw_vint_lossy (drop pos data) = (v, length (encode_vint v))"
  by (simp add: read_raw_vint_lossy_encode)

lemma read_u32_lossy_at:
  "data = pre @ to_le_bytes 4 v @ rest \<Longrightarrow> pos = length pre \<Longrightarrow>
     read_raw_u32_lossy data pos = (v, length pre + 4)"
  by (simp add: read_raw_u32_lossy_def)

lemma type_specific_offset_encode:
  assumes "rh_body raw = encode_common_fields ty fl extra data @ spec"
    and "fl AND EXTRA_AREA = 0 \<longrightarrow> extra = 0" "fl AND DATA_AREA = 0 \<longrightarrow> data = 0"
  shows "and_then (type_specific_offset raw) (\<lambda>offset. and_then (index_from offset (rh_body raw)) f) = f spec"
  using assms by (simp add: type_specific_offset_def read_common_fields_encode)

lemma file_parse_fields:
  assumes body: "rh_body raw = encode_common_fields ty fl extra data @
      encode_file_fields flags unpacked attrs mtime crc cinfo os name @ ea"
    and present: "fl AND EXTRA_AREA = 0 \<longrightarrow> extra = 0" "fl AND DATA_AREA = 0 \<longrightarrow> data = 0"
    and ea: "unat (rh_extra_area_size raw) = length ea"
    and name: "length name \<le> 0x10000"
    and comp: "decode_compression_info_for_file cinfo (flags AND DIRECTORY \<noteq> 0) = Inr ci"
  shows "file_parse raw off = Inr
    \<lparr>fh_name = decode_rar5_name name, fh_name_raw = Some name,
     fh_unpacked_size = (if flags AND UNPACKED_SIZE_UNKNOWN \<noteq> 0 then None else Some unpacked),
     fh_attributes = attrs,
     fh_mtime = (if flags AND TIME_PRESENT \<noteq> 0 then Some (int (unat mtime) * 1000000000) else None),
     fh_ctime = None, fh_atime = None,
     fh_data_crc32 = (if flags AND CRC32_PRESENT \<noteq> 0 then Some crc else None),
     fh_data_hash = (if flags AND CRC32_PRESENT \<noteq> 0 then Some (HashCrc32 crc) else None),
     fh_compression = ci, fh_host_os = host_os_from os, fh_is_directory = (flags AND DIRECTORY \<noteq> 0),
     fh_file_flags = flags, fh_data_size = rh_data_area_size raw,
     fh_split_before = is_split_before raw, fh_split_after = is_split_after raw,
     fh_data_offset = off, fh_is_encrypted = False, fh_version = None, fh_service_subdata = None\<rparr>"
proof -
  define F where "F = encode_file_fields flags unpacked attrs mtime crc cinfo os name"
  let ?a = "encode_vint flags" let ?b = "?a @ encode_vint unpacked" let ?c = "?b @ encode_vint attrs"
  let ?d = "?c @ (if flags AND TIME_PRESENT \<noteq> 0 then to_le_bytes 4 mtime else [])"
  let ?e = "?d @ (if flags AND CRC32_PRESENT \<noteq> 0 then to_le_bytes 4 crc else [])"
  let ?f = "?e @ encode_vint cinfo" let ?g = "?f @ encode_vint os"
  let ?h = "?g @ encode_vint (of_nat (length name))"
  note F = F_def [unfolded encode_file_fields_def]
  have r1: "read_raw_vint_lossy F = (flags, length ?a)"
    unfolding F by (rule read_raw_vint_lossy_encode)
  have r2: "read_raw_vint_lossy (drop (length ?a) F) = (unpacked, length (encode_vint unpacked))"
    by (rule read_vint_lossy_at [OF F refl])
  have r3: "read_raw_vint_lossy (drop (length ?b) F) = (attrs, length (encode_vint attrs))"
    by (rule read_vint_lossy_at [of _ ?b]) (simp_all add: F)
  have r4: "read_raw_u32_lossy F (length ?c) = (mtime, length ?d)" if "flags AND TIME_PRESENT \<noteq> 0"
    using that by (subst read_u32_lossy_at [of _ ?c]) (simp_all add: F)
  have r5: "read_raw_u32_lossy F (length ?d) = (crc, length ?e)" if "flags AND CRC32_PRESENT \<noteq> 0"
    using that by (subst read_u32_lossy_at [of _ ?d]) (simp_all add: F)
  have r6: "read_raw_vint_lossy (drop (length ?e) F) = (cinfo, length (encode_vint cinfo))"
    by (rule read_vint_lossy_at [of _ ?e]) (simp_all add: F)
  have r7: "read_raw_vint_lossy (drop (length ?f) F) = (os, length (encode_vint os))"
    by (rule read_vint_lossy_at [of _ ?f]) (simp_all add: F)
  have r8: "read_raw_vint_lossy (drop (length ?g) F) =
      (of_nat (length name), length (encode_vint (of_nat (length name))))"
    by (rule read_vint_lossy_at [of _ ?g]) (simp_all add: F)
  have r9: "drop (length ?h) F = name" by (simp add: F)
  have nl: "unat (min (of_nat (length name)) MAXPATHSIZE :: u64) = length name"
    using name by (simp add: MAXPATHSIZE_def min_def word_le_nat_alt unat_of_nat take_bit_nat_eq_self)
  have mt: "(if flags AND TIME_PRESENT \<noteq> 0
      then (case read_raw_u32_lossy F (length ?c) of (ts, pos) \<Rightarrow> (Some (duration (unat ts) 0), pos))
      else (None, length ?c)) =
      (if flags AND TIME_PRESENT \<noteq> 0 then Some (int (unat mtime) * 1000000000) else None, length ?d)"
    using r4 by (cases "flags AND TIME_PRESENT = 0") (simp_all add: duration_def)
  have dc: "(if flags AND CRC32_PRESENT \<noteq> 0
      then (case read_raw_u32_lossy F (length ?d) of (crc, pos) \<Rightarrow> (Some crc, pos))
      else (None, length ?d)) =
      (if flags AND CRC32_PRESENT \<noteq> 0 then Some crc else None, length ?e)"
    using r5 by (cases "flags AND CRC32_PRESENT = 0") simp_all
  have ls: "length ?a + length (encode_vint unpacked) = length ?b"
    "length ?b + length (encode_vint attrs) = length ?c"
    "length ?e + length (encode_vint cinfo) = length ?f" "length ?f + length (encode_vint os) = length ?g"
    "length ?g + length (encode_vint (of_nat (length name))) = length ?h"
    by simp_all
  have take: "take (length (F @ ea) - length ea) (F @ ea) = F" by simp
  show ?thesis
    unfolding file_parse_def type_specific_offset_encode [OF body present] F_def [symmetric] ea
    by (simp only: Let_def take r1 r2 r3 r6 r7 r8 r9 nl ls split_conv mt dc) (simp add: comp)
qed

lemma zero_filled_read: "length (fst (read_bytes_lossy n data pos)) = n"
  by (simp add: read_bytes_lossy_def Let_def)

section \<open>Properties\<close>

text \<open>C10: a file header written in the RAR 5.0 layout, with any combination of its optional fields and
  followed by any extra area, is parsed into exactly the values it was written with.\<close>

theorem file_header_roundtrip:
  assumes "rh_body raw = encode_common_fields ty fl extra data @
      encode_file_fields flags unpacked attrs mtime crc cinfo os name @ area"
    and "fl AND EXTRA_AREA = 0 \<longrightarrow> extra = 0" and "fl AND DATA_AREA = 0 \<longrightarrow> data = 0"
    and "unat (rh_extra_area_size raw) = length area" and "length name \<le> 0x10000"
    and "decode_compression_info_for_file cinfo (flags AND DIRECTORY \<noteq> 0) = Inr ci"
  shows "\<exists>h. file_parse raw off = Inr h \<and> fh_name h = decode_rar5_name name \<and> fh_name_raw h = Some name
    \<and> fh_file_flags h = flags \<and> fh_attributes h = attrs \<and> fh_compression h = ci
    \<and> fh_host_os h = host_os_from os \<and> fh_data_offset h = off \<and> fh_data_size h = rh_data_area_size raw
    \<and> fh_unpacked_size h = (if flags AND UNPACKED_SIZE_UNKNOWN \<noteq> 0 then None else Some unpacked)
    \<and> fh_mtime h = (if flags AND TIME_PRESENT \<noteq> 0 then Some (int (unat mtime) * 1000000000) else None)
    \<and> fh_data_crc32 h = (if flags AND CRC32_PRESENT \<noteq> 0 then Some crc else None)"
  unfolding file_parse_fields [OF assms] by simp

theorem file_header_roundtrip_witness:
  "\<exists>raw h. rh_body raw = encode_common_fields 2 0 0 0 @ encode_file_fields 0 7 0 0 0 0 1 [0x61] @ []
     \<and> file_parse raw 9 = Inr h \<and> fh_name_raw h = Some [0x61] \<and> fh_unpacked_size h = Some 7"
proof -
  let ?raw = "\<lparr>rh_offset = 0, rh_crc32 = 0, rh_header_size = 0, rh_header_size_vint_len = 1,
    rh_header_type = File, rh_flags = 0, rh_extra_area_size = 0, rh_data_area_size = 0,
    rh_body = encode_common_fields 2 0 0 0 @ encode_file_fields 0 7 0 0 0 0 1 [0x61] @ []\<rparr>"
  have c: "\<exists>ci. decode_compression_info_for_file 0 False = Inr ci"
    by (simp add: decode_compression_info_for_file_def rar5_dict_size_def Let_def RAR5_DICT_BASE_def
        RAR_UNPACK_MAX_DICT_SIZE_def)
  then obtain ci where c: "decode_compression_info_for_file 0 False = Inr ci" by blast
  show ?thesis
    using file_header_roundtrip [where raw = ?raw and ty = 2 and fl = 0 and extra = 0 and data = 0
      and flags = 0 and unpacked = 7 and attrs = 0 and mtime = 0 and crc = 0 and cinfo = 0 and os = 1
      and name = "[0x61]" and area = "[]" and ci = ci and off = 9] c
    by (intro exI [of _ ?raw]) (auto simp: UNPACKED_SIZE_UNKNOWN_def)
qed

text \<open>C21: an archive encryption header that is accepted is one the derivation can use: version 0, an
  exponent of at most 24, a salt of 16 bytes, and check data, when there is any, of 12 bytes whose
  last four are the start of the SHA-256 of the first eight.\<close>

theorem encryption_header_wellformed:
  assumes "encryption_parse sha256 raw = Inr eh"
  shows "eh_version eh = 0 \<and> unat (eh_kdf_count eh) \<le> 24 \<and> length (eh_salt eh) = 16
    \<and> (case eh_check_data eh of None \<Rightarrow> True
       | Some check \<Rightarrow> eh_has_password_check eh \<and> length check = 12
           \<and> take 4 (sha256 (take 8 check)) = drop 8 check)"
proof -
  obtain offset body where body: "type_specific_offset raw = Inr offset" "index_from offset (rh_body raw) = Inr body"
    using assms by (auto simp: encryption_parse_def and_then_eq_Inr)
  obtain version p0 where v: "read_vint_lossy body = (version, p0)" by fastforce
  obtain fl n where f: "read_vint_lossy (drop p0 body) = (fl, n)" by fastforce
  obtain kdf p1 where k: "read_byte_lossy body (p0 + n) = (kdf, p1)" by fastforce
  obtain salt p2 where s: "read_bytes_lossy 16 body p1 = (salt, p2)" by fastforce
  obtain check p3 where c: "read_bytes_lossy 12 body p2 = (check, p3)" by fastforce
  have len: "length salt = 16" "length check = 12"
    using zero_filled_read [of 16 body p1] zero_filled_read [of 12 body p2] s c by simp_all
  have nz: "\<not> 0 < version" "\<not> 24 < kdf"
    using assms by (simp_all add: encryption_parse_def body v f k CRYPT_VERSION_def
        CRYPT5_KDF_LG2_COUNT_MAX_def split: if_splits)
  then have "version = 0" "unat kdf \<le> 24" by (simp add: word_gt_0, simp add: word_less_nat_alt not_less)
  then show ?thesis
    using assms len nz
    by (auto simp: encryption_parse_def body v f k s c Let_def CRYPT_VERSION_def
        CRYPT5_KDF_LG2_COUNT_MAX_def split: if_splits)
qed

theorem encryption_header_wellformed_witness:
  "\<exists>raw eh. encryption_parse (\<lambda>_. []) raw = Inr eh \<and> length (eh_salt eh) = 16"
proof -
  let ?raw = "\<lparr>rh_offset = 0, rh_crc32 = 0, rh_header_size = 5, rh_header_size_vint_len = 1,
    rh_header_type = Encryption, rh_flags = 0, rh_extra_area_size = 0, rh_data_area_size = 0,
    rh_body = [4, 0, 0, 0, 3]\<rparr>"
  have "\<exists>eh. encryption_parse (\<lambda>_. []) ?raw = Inr eh"
  proof -
    have o: "type_specific_offset ?raw = Inr 2" by code_simp
    have v: "read_vint_lossy [0, 0, 3] = (0, 1)" "read_vint_lossy [0, 3] = (0, 1)" by code_simp+
    show ?thesis
      unfolding encryption_parse_def o
      by (simp add: v index_from_def slice_from_def Let_def read_byte_lossy_def
          read_bytes_lossy_def CRYPT_VERSION_def CRYPT5_KDF_LG2_COUNT_MAX_def)
  qed
  then show ?thesis using encryption_header_wellformed by blast
qed

end
