(* ===== verification/Rar5_Cipher.thy ===== *)
theory Rar5_Cipher
  imports Rar5_Kdf
begin

text \<open>
  AES-256-CBC as the RAR5 code drives it: the stateful decryptor of
  \<open>unrar-rs/src/crypto/backend/host.rs\<close>, which carries the last ciphertext block from call to call,
  and the whole-buffer and random-access operations of \<open>crypto/mod.rs\<close>. One call into the cipher
  library is a parameter: \<open>cbc_dec key iv data\<close> and \<open>cbc_enc key iv data\<close>.
\<close>

type_synonym cipher = "bytes \<Rightarrow> bytes \<Rightarrow> bytes \<Rightarrow> bytes"

record cbc_decryptor =
  cd_key :: bytes
  cd_iv :: bytes

definition cbc_decryptor_new :: "bytes \<Rightarrow> bytes \<Rightarrow> cbc_decryptor" where
  "cbc_decryptor_new key iv = \<lparr>cd_key = key, cd_iv = iv\<rparr>"

text \<open>\<open>decrypt_cbc_chained\<close>: the last block of the input is the IV of the next call.\<close>

definition decrypt_blocks :: "cipher \<Rightarrow> cbc_decryptor \<Rightarrow> bytes \<Rightarrow> bytes \<times> cbc_decryptor" where
  "decrypt_blocks cbc_dec d data =
     (if data = [] then ([], d)
      else let next_iv = drop (length data - 16) data
           in (cbc_dec (cd_key d) (cd_iv d) data, d\<lparr>cd_iv := next_iv\<rparr>))"

definition decrypt_data :: "cipher \<Rightarrow> bytes \<Rightarrow> bytes \<Rightarrow> bytes \<Rightarrow> bytes rar_result" where
  "decrypt_data cbc_dec key iv data =
     (if data = [] then Inr []
      else if length data mod 16 \<noteq> 0 then Inl (CorruptArchive OtherDetail)
      else Inr (fst (decrypt_blocks cbc_dec (cbc_decryptor_new key iv) data)))"

definition decrypt_cipher_range :: "cipher \<Rightarrow> bytes \<Rightarrow> bytes \<Rightarrow> bytes \<Rightarrow> bytes rar_result" where
  "decrypt_cipher_range cbc_dec key preceding_block cipher =
     (if cipher = [] then Inr cipher
      else if length cipher mod 16 \<noteq> 0 then Inl (CorruptArchive OtherDetail)
      else Inr (fst (decrypt_blocks cbc_dec (cbc_decryptor_new key preceding_block) cipher)))"

text \<open>The backend may refuse to encrypt.\<close>

definition encrypt_cipher_range ::
  "(bytes \<Rightarrow> bytes \<Rightarrow> bytes \<Rightarrow> bytes option) \<Rightarrow> bytes \<Rightarrow> bytes \<Rightarrow> bytes \<Rightarrow> bytes rar_result" where
  "encrypt_cipher_range cbc_enc key preceding_block plain =
     (if plain = [] then Inr plain
      else if length plain mod 16 \<noteq> 0 then Inl (CorruptArchive OtherDetail)
      else case cbc_enc key preceding_block plain of
             Some cipher \<Rightarrow> Inr cipher
           | None \<Rightarrow> Inl (CorruptArchive OtherDetail))"

text \<open>A run of calls on one decryptor.\<close>

fun decrypt_chunks :: "cipher \<Rightarrow> cbc_decryptor \<Rightarrow> bytes list \<Rightarrow> bytes" where
  "decrypt_chunks cbc_dec d [] = []"
| "decrypt_chunks cbc_dec d (c # cs) =
     (let (p, d) = decrypt_blocks cbc_dec d c in p @ decrypt_chunks cbc_dec d cs)"

section \<open>The contract of the cipher library\<close>

text \<open>CBC decryption keeps the length, and a buffer cut at a block boundary decrypts piece by piece
  when the second piece starts from the last ciphertext block of the first.\<close>

definition cbc_chains :: "cipher \<Rightarrow> bool" where
  "cbc_chains cbc_dec \<longleftrightarrow>
     (\<forall>key iv data. length (cbc_dec key iv data) = length data) \<and>
     (\<forall>key iv a b. a \<noteq> [] \<longrightarrow> length a mod 16 = 0 \<longrightarrow> length b mod 16 = 0 \<longrightarrow>
        cbc_dec key iv (a @ b) = cbc_dec key iv a @ cbc_dec key (drop (length a - 16) a) b)"

lemma cbc_chains_length: "cbc_chains f \<Longrightarrow> length (f key iv data) = length data"
  by (simp add: cbc_chains_def)

lemma cbc_chains_append:
  "cbc_chains f \<Longrightarrow> a \<noteq> [] \<Longrightarrow> length a mod 16 = 0 \<Longrightarrow> length b mod 16 = 0 \<Longrightarrow>
     f key iv (a @ b) = f key iv a @ f key (drop (length a - 16) a) b"
  by (simp add: cbc_chains_def)

lemma drop_last_block:
  "length a mod 16 = 0 \<Longrightarrow> b \<noteq> [] \<Longrightarrow> length b mod 16 = 0 \<Longrightarrow>
     drop (length (a @ b) - 16) (a @ b) = drop (length b - 16) (b :: bytes)"
proof -
  assume "b \<noteq> []" "length b mod 16 = 0"
  then have "16 \<le> length b" by (auto simp: mod_eq_0_iff_dvd dest: dvd_imp_le)
  then show ?thesis by simp
qed

lemma decrypt_blocks_append:
  assumes "cbc_chains f" "length a mod 16 = 0" "length b mod 16 = 0"
  shows "decrypt_blocks f d (a @ b) =
    (let (p, d) = decrypt_blocks f d a; (q, d) = decrypt_blocks f d b in (p @ q, d))"
proof (cases "a = [] \<or> b = []")
  case False
  then show ?thesis
    using cbc_chains_append [OF assms(1) _ assms(2,3)] drop_last_block [OF assms(2) _ assms(3)]
    by (simp add: decrypt_blocks_def Let_def)
qed (auto simp: decrypt_blocks_def)

lemma decrypt_chunks_concat:
  assumes "cbc_chains f" "\<forall>c\<in>set cs. length c mod 16 = 0"
  shows "decrypt_chunks f d cs = fst (decrypt_blocks f d (concat cs))"
  using assms(2)
proof (induction cs arbitrary: d)
  case Nil
  then show ?case by (simp add: decrypt_blocks_def)
next
  case (Cons c cs)
  have "length (concat cs) mod 16 = 0"
    using Cons.prems by (induction cs) (auto simp: mod_eq_0_iff_dvd)
  then show ?case
    using Cons assms(1) by (simp add: decrypt_blocks_append Let_def split: prod.splits)
qed

text \<open>The contract holds of CBC over a trivial block cipher.\<close>

definition xor_cbc :: cipher where
  "xor_cbc key iv data = map2 (XOR) data (take 16 (iv @ replicate 16 0) @ data)"

lemma xor_cbc_chains: "cbc_chains xor_cbc"
proof -
  have "xor_cbc key iv (a @ b) = xor_cbc key iv a @ xor_cbc key (drop (length a - 16) a) b"
    if "a \<noteq> []" "length a mod 16 = 0" for key iv and a b :: bytes
  proof -
    have len: "16 \<le> length a" using that by (auto simp: mod_eq_0_iff_dvd dest: dvd_imp_le)
    let ?p = "take 16 (iv @ replicate 16 0)"
    have p: "length ?p = 16" by simp
    then have prev: "drop (length a) (?p @ a) = drop (length a - 16) a" using len by simp
    then have "?p @ a @ b = take (length a) (?p @ a) @ (drop (length a - 16) a @ b)"
      by (metis append.assoc append_take_drop_id)
    moreover have "length (take (length a) (?p @ a)) = length a" by simp
    ultimately have "zip (a @ b) (?p @ a @ b) =
        zip a (take (length a) (?p @ a)) @ zip b (drop (length a - 16) a @ b)"
      by (simp only: zip_append)
    moreover have "zip a (take (length a) (?p @ a)) = zip a (?p @ a)"
      using take_zip [of "length a" a "?p @ a"] by simp
    ultimately show ?thesis using len by (simp add: xor_cbc_def)
  qed
  moreover have "length (xor_cbc key iv data) = length data" for key iv data by (simp add: xor_cbc_def)
  ultimately show ?thesis by (simp add: cbc_chains_def)
qed

section \<open>Properties\<close>

text \<open>C17: random access is exact: decrypting any block-aligned range of a cipher stream from the 16
  cipher bytes before it gives the same plaintext as decrypting the whole stream, and so does
  decrypting the stream in any block-aligned pieces on one decryptor.\<close>

theorem cipher_range_random_access:
  assumes "cbc_chains cbc_dec" and "length before mod 16 = 0" and "before \<noteq> []"
    and "length mid mod 16 = 0" and "length after mod 16 = 0"
  shows "\<exists>plain. decrypt_data cbc_dec key iv (before @ mid @ after) = Inr plain
    \<and> decrypt_cipher_range cbc_dec key (drop (length before - 16) before) mid =
        Inr (take (length mid) (drop (length before) plain))
    \<and> decrypt_chunks cbc_dec (cbc_decryptor_new key iv) [before, mid, after] = plain"
proof -
  let ?s = "before @ mid @ after"
  let ?p = "fst (decrypt_blocks cbc_dec (cbc_decryptor_new key iv) ?s)"
  have m: "length (mid @ after) mod 16 = 0" "length ?s mod 16 = 0"
    using assms(2,4,5) by (auto simp: mod_eq_0_iff_dvd)
  have whole: "decrypt_data cbc_dec key iv ?s = Inr ?p"
    using assms(3) m(2) by (simp add: decrypt_data_def)
  have chunks: "decrypt_chunks cbc_dec (cbc_decryptor_new key iv) [before, mid, after] = ?p"
    using decrypt_chunks_concat [of cbc_dec "[before, mid, after]"] assms by simp
  let ?b = "drop (length before - 16) before"
  have p: "?p = cbc_dec key iv before @ cbc_dec key ?b (mid @ after)"
    using assms(3) cbc_chains_append [OF assms(1,3,2) m(1)]
    by (simp add: decrypt_blocks_def cbc_decryptor_new_def Let_def)
  have "take (length mid) (drop (length before) ?p) = take (length mid) (cbc_dec key ?b (mid @ after))"
    by (simp add: p cbc_chains_length [OF assms(1)])
  also have "\<dots> = (if mid = [] then [] else cbc_dec key ?b mid)"
    using cbc_chains_append [OF assms(1) _ assms(4,5), of key ?b]
    by (auto simp: cbc_chains_length [OF assms(1)])
  finally have "decrypt_cipher_range cbc_dec key ?b mid =
      Inr (take (length mid) (drop (length before) ?p))"
    using assms(4) by (simp add: decrypt_cipher_range_def decrypt_blocks_def cbc_decryptor_new_def Let_def)
  then show ?thesis using whole chunks by blast
qed

theorem cipher_range_random_access_witness:
  "cbc_chains xor_cbc
   \<and> decrypt_cipher_range xor_cbc [] (replicate 16 1) (replicate 16 2) = Inr (replicate 16 3)
   \<and> decrypt_data xor_cbc [] (replicate 16 0) (replicate 16 1 @ replicate 16 2) =
       Inr (replicate 16 1 @ replicate 16 3)"
proof -
  have "length (replicate 16 (n :: u8)) mod 16 = 0" for n by simp
  moreover have "decrypt_cipher_range xor_cbc [] (replicate 16 1) (replicate 16 2) = Inr (replicate 16 3)"
    "decrypt_data xor_cbc [] (replicate 16 0) (replicate 16 1 @ replicate 16 2) =
       Inr (replicate 16 1 @ replicate 16 3)"
    by code_simp+
  ultimately show ?thesis
    using xor_cbc_chains cipher_range_random_access [OF xor_cbc_chains, of "replicate 16 1" "replicate 16 2" "[]"
        "[]" "replicate 16 0"]
    by auto
qed

end
