(* ===== verification/Rar5_Dispatch.thy ===== *)
theory Rar5_Dispatch
  imports Rar5_Blocks Rar5_Cipher
begin

text \<open>
  What the RAR5 header walk collects and how it takes one header (\<open>dispatch_header\<close> and
  \<open>apply_extra_records\<close> of \<open>unrar-rs/src/header/mod.rs\<close>), and the Quick Open cache: the records of a
  \<open>QO\<close> service block, each a cached copy of a header.

  The cryptographic code outside this development is one record of parameters: SHA-256, CRC-32, the
  compression function of the key derivation and AES-256-CBC decryption.
\<close>

unbundle bit_operations_syntax

record crypto =
  cr_sha256 :: "bytes \<Rightarrow> bytes"
  cr_crc32 :: "bytes \<Rightarrow> u32"
  cr_compress256 :: compression
  cr_cbc_dec :: cipher

section \<open>What the walk collects\<close>

record file_encryption_params =
  fp_version :: u64
  fp_kdf_count :: u8
  fp_salt :: bytes
  fp_iv :: bytes
  fp_check_data :: "bytes option"
  fp_psw_check_present :: bool
  fp_use_hash_mac :: bool

datatype redirection_type =
  UnixSymlink | WindowsSymlink | WindowsJunction | Hardlink | FileCopy | UnknownRedirection u64

definition redirection_type_from :: "u64 \<Rightarrow> redirection_type" where
  "redirection_type_from value =
     (if value = 1 then UnixSymlink else if value = 2 then WindowsSymlink
      else if value = 3 then WindowsJunction else if value = 4 then Hardlink
      else if value = 5 then FileCopy else UnknownRedirection value)"

record redirection =
  rd_redir_type :: redirection_type
  rd_target :: rstring
  rd_target_raw :: "bytes option"
  rd_target_is_directory :: bool

record parsed_file =
  pf_header :: file_header
  pf_is_encrypted :: bool
  pf_file_encryption :: "file_encryption_params option"
  pf_hash :: "file_hash option"
  pf_redirection :: "redirection option"
  pf_owner :: "unix_owner_info option"

record parsed_service =
  ps_header :: service_header
  ps_is_encrypted :: bool
  ps_file_encryption :: "file_encryption_params option"
  ps_hash :: "file_hash option"

record parsed_headers =
  ph_main :: "main_archive_header option"
  ph_files :: "parsed_file list"
  ph_services :: "parsed_service list"
  ph_encryption :: "encryption_header option"
  ph_end :: "end_archive_header option"
  ph_is_encrypted :: bool
  ph_headers_from_quick_open :: bool

definition empty_parsed_headers :: parsed_headers where
  "empty_parsed_headers = \<lparr>ph_main = None, ph_files = [], ph_services = [], ph_encryption = None,
     ph_end = None, ph_is_encrypted = False, ph_headers_from_quick_open = False\<rparr>"

section \<open>Extra records of one header\<close>

text \<open>The header under construction and what the extra records say besides.\<close>

record applied_extras =
  ae_header :: file_header
  ae_is_encrypted :: bool
  ae_file_encryption :: "file_encryption_params option"
  ae_hash :: "file_hash option"
  ae_redirection :: "redirection option"
  ae_owner :: "unix_owner_info option"

definition no_extras :: "file_header \<Rightarrow> applied_extras" where
  "no_extras header = \<lparr>ae_header = header, ae_is_encrypted = False, ae_file_encryption = None,
     ae_hash = None, ae_redirection = None, ae_owner = None\<rparr>"

definition or_else :: "'a option \<Rightarrow> 'a option \<Rightarrow> 'a option" where
  "or_else new old = (case new of Some v \<Rightarrow> Some v | None \<Rightarrow> old)"

fun apply_extra_record :: "extra_record \<Rightarrow> applied_extras \<Rightarrow> applied_extras" where
  "apply_extra_record (FileEncryption r) st =
     st\<lparr>ae_is_encrypted := True, ae_file_encryption := Some
       \<lparr>fp_version = fe_version r, fp_kdf_count = fe_kdf_count r, fp_salt = fe_salt r, fp_iv = fe_iv r,
        fp_check_data = fe_check_data r,
        fp_psw_check_present = (fe_enc_flags r AND FHEXTRA_CRYPT_PSWCHECK \<noteq> 0),
        fp_use_hash_mac = (fe_enc_flags r AND 0x0002 \<noteq> 0)\<rparr>\<rparr>"
| "apply_extra_record (FileHash h) st = st\<lparr>ae_hash := Some h\<rparr>"
| "apply_extra_record (FileTime m c a) st =
     st\<lparr>ae_header := (ae_header st)\<lparr>fh_mtime := or_else m (fh_mtime (ae_header st)),
        fh_ctime := or_else c (fh_ctime (ae_header st)),
        fh_atime := or_else a (fh_atime (ae_header st))\<rparr>\<rparr>"
| "apply_extra_record (FileVersion version) st =
     (if version \<noteq> 0
      then st\<lparr>ae_header := (ae_header st)\<lparr>fh_version := Some version,
             fh_name := fh_name (ae_header st) @ [0x3B] @ decimal (unat version)\<rparr>\<rparr>
      else st)"
| "apply_extra_record (RedirectionRecord redir_type target target_raw is_dir) st =
     st\<lparr>ae_redirection := Some \<lparr>rd_redir_type = redirection_type_from redir_type, rd_target = target,
        rd_target_raw = Some target_raw, rd_target_is_directory = is_dir\<rparr>\<rparr>"
| "apply_extra_record (UnixOwner owner) st = st\<lparr>ae_owner := Some owner\<rparr>"
| "apply_extra_record (ServiceData data) st =
     st\<lparr>ae_header := (ae_header st)\<lparr>fh_service_subdata := Some data\<rparr>\<rparr>"
| "apply_extra_record (UnknownRecord _) st = st"

definition apply_extra_records ::
  "crypto \<Rightarrow> raw_header \<Rightarrow> extra_area_owner \<Rightarrow> file_header \<Rightarrow> applied_extras" where
  "apply_extra_records cr raw owner header =
     (case extra_area_bytes raw of
        None \<Rightarrow> no_extras header
      | Some ea_bytes \<Rightarrow>
          (case parse_extra_area (cr_sha256 cr) ea_bytes owner of
             Inl _ \<Rightarrow> no_extras header
           | Inr records \<Rightarrow> fold apply_extra_record records (no_extras header)))"

definition parse_file_extra_records :: "crypto \<Rightarrow> raw_header \<Rightarrow> extra_record list rar_result" where
  "parse_file_extra_records cr raw =
     (case extra_area_bytes raw of
        Some ea_bytes \<Rightarrow> parse_extra_area (cr_sha256 cr) ea_bytes
          (if rh_header_type raw = Service then OwnerService else OwnerFile)
      | None \<Rightarrow> Inr [])"

definition parse_service_from_raw :: "crypto \<Rightarrow> raw_header \<Rightarrow> nat \<Rightarrow> parsed_service rar_result" where
  "parse_service_from_raw cr raw data_offset =
     and_then (service_parse raw data_offset) (\<lambda>svc.
       let st = apply_extra_records cr raw OwnerService (sh_inner svc)
       in Inr \<lparr>ps_header = svc\<lparr>sh_inner := ae_header st\<rparr>, ps_is_encrypted = ae_is_encrypted st,
            ps_file_encryption = ae_file_encryption st, ps_hash = ae_hash st\<rparr>)"

definition dispatch_header ::
  "crypto \<Rightarrow> raw_header \<Rightarrow> nat \<Rightarrow> parsed_headers \<Rightarrow> parsed_headers rar_result" where
  "dispatch_header cr raw data_offset result =
     (case rh_header_type raw of
        MainArchive \<Rightarrow> and_then (main_archive_parse raw) (\<lambda>main. Inr (result\<lparr>ph_main := Some main\<rparr>))
      | File \<Rightarrow>
          and_then (file_parse raw data_offset) (\<lambda>file_hdr.
            let st = apply_extra_records cr raw OwnerFile file_hdr
            in Inr (result\<lparr>ph_files := ph_files result @
                 [\<lparr>pf_header = ae_header st, pf_is_encrypted = ae_is_encrypted st,
                   pf_file_encryption = ae_file_encryption st, pf_hash = ae_hash st,
                   pf_redirection = ae_redirection st, pf_owner = ae_owner st\<rparr>]\<rparr>))
      | Service \<Rightarrow>
          and_then (parse_service_from_raw cr raw data_offset) (\<lambda>svc.
            Inr (result\<lparr>ph_services := ph_services result @ [svc]\<rparr>))
      | UnknownHeader type_val \<Rightarrow>
          if rh_flags raw AND SKIP_IF_UNKNOWN = 0
          then Inl (CorruptArchive (UnknownHeaderType type_val (rh_offset raw)))
          else Inr result
      | _ \<Rightarrow> Inr result)"

section \<open>The Quick Open cache\<close>

text \<open>
  What the cache's records are read from: the plaintext still to come, and what a read past its end
  says. For a plain service block that is the rest of the stream; for an encrypted one the whole
  blocks of its data area, decrypted, with a complaint about a last incomplete block.
\<close>

record qo_source =
  qs_bytes :: bytes
  qs_past_end :: rar_error

definition read_quick_open_exact :: "nat \<Rightarrow> qo_source \<times> nat \<Rightarrow> bytes rar_result \<times> qo_source \<times> nat" where
  "read_quick_open_exact n = (\<lambda>(src, remaining).
     if n > remaining then (Inl (CorruptArchive QuickOpenExceedsPayload), src, remaining)
     else if n \<le> length (qs_bytes src)
     then (Inr (take n (qs_bytes src)), src\<lparr>qs_bytes := drop n (qs_bytes src)\<rparr>, remaining - n)
     else (Inl (if qs_past_end src = Io UnexpectedEof then CorruptArchive QuickOpenTruncatedPayload
                else qs_past_end src), src\<lparr>qs_bytes := []\<rparr>, remaining))"

text \<open>At most ten bytes, the last one without the continuation bit; \<open>k\<close> counts those still allowed.\<close>

fun read_quick_open_vint_loop ::
  "nat \<Rightarrow> bytes \<Rightarrow> qo_source \<times> nat \<Rightarrow> bytes rar_result \<times> qo_source \<times> nat" where
  "read_quick_open_vint_loop 0 bs st = (Inl (CorruptArchive QuickOpenTruncatedVint), st)"
| "read_quick_open_vint_loop (Suc k) bs st =
     (if snd st = 0 then (Inl (CorruptArchive QuickOpenTruncatedVint), st)
      else io_then (read_quick_open_exact 1 st) (\<lambda>byte st.
             if hd byte AND 0x80 = 0 then (Inr (bs @ byte), st)
             else read_quick_open_vint_loop k (bs @ byte) st))"

definition read_quick_open_vint :: "qo_source \<times> nat \<Rightarrow> bytes rar_result \<times> qo_source \<times> nat" where
  "read_quick_open_vint st = read_quick_open_vint_loop 10 [] st"

definition parse_quick_open_cached_header :: "bytes \<Rightarrow> nat \<Rightarrow> raw_header rar_result" where
  "parse_quick_open_cached_header bs offset =
     (if length bs < 5 then Inl (CorruptArchive QuickOpenCachedTooShort)
      else
        let stored_crc = from_le_bytes (take 4 bs) in
        and_then (read_vint (drop 4 bs)) (\<lambda>(header_size, header_size_vint_len).
          if header_size = 0 then Inl (CorruptArchive (QuickOpenCachedInvalidSize header_size))
          else
            and_then (validate_header_size offset header_size header_size_vint_len) (\<lambda>_.
              let body_start = 4 + header_size_vint_len;
                  body_end = body_start + unat header_size
              in if body_end \<noteq> length bs then Inl (CorruptArchive QuickOpenCachedSizeMismatch)
                 else parse_raw_header_from_parts offset stored_crc header_size header_size_vint_len
                        (take (body_end - body_start) (drop body_start bs)))))"

text \<open>The fields of a record's body after its checksum has been verified.\<close>

definition parse_quick_open_body :: "bytes \<Rightarrow> nat \<Rightarrow> raw_header rar_result" where
  "parse_quick_open_body body qopen_header_offset =
     and_then (read_vint body) (\<lambda>(_, pos).
     and_then (read_vint (drop pos body)) (\<lambda>(offset_from_qopen, n).
     and_then (read_vint (drop (pos + n) body)) (\<lambda>(cached_header_size, m).
       let pos = pos + n + m; cached_end = pos + unat cached_header_size in
       if cached_header_size > MAX_HEADER_BODY
       then Inl (CorruptArchive (QuickOpenCachedTooLarge cached_header_size))
       else if cached_end > length body then Inl (CorruptArchive QuickOpenCachedBeyondBody)
       else if unat offset_from_qopen > qopen_header_offset
       then Inl (CorruptArchive (QuickOpenOffsetBeyondHeader offset_from_qopen qopen_header_offset))
       else parse_quick_open_cached_header (take (cached_end - pos) (drop pos body))
              (qopen_header_offset - unat offset_from_qopen))))"

definition read_quick_open_record ::
  "crypto \<Rightarrow> qo_source \<times> nat \<Rightarrow> nat \<Rightarrow> raw_header option rar_result \<times> qo_source \<times> nat" where
  "read_quick_open_record cr st qopen_header_offset =
     (if snd st = 0 then (Inr None, st)
      else if snd st < 5 then (Inl (CorruptArchive QuickOpenTooShort), st)
      else
        io_then (read_quick_open_exact 4 st) (\<lambda>stored_crc_bytes st.
        io_then (read_quick_open_vint st) (\<lambda>size_vint st.
        io_then (read_vint size_vint, st) (\<lambda>(body_size, body_size_vint_len) st.
          if body_size_vint_len \<noteq> length size_vint \<or> body_size = 0
          then (Inl (CorruptArchive QuickOpenInvalidBodySize), st)
          else
            io_then (validate_header_size qopen_header_offset body_size body_size_vint_len, st) (\<lambda>_ st.
              if body_size > MAX_HEADER_BODY
              then (Inl (CorruptArchive OtherDetail), st)
              else if unat body_size > snd st
              then (Inl (CorruptArchive (QuickOpenBodyExceedsRemaining body_size (of_nat (snd st)))), st)
              else
                io_then (read_quick_open_exact (unat body_size) st) (\<lambda>body st.
                  let stored_crc = from_le_bytes stored_crc_bytes;
                      computed_crc = cr_crc32 cr (size_vint @ body)
                  in if computed_crc \<noteq> stored_crc
                     then (Inl (HeaderCrcMismatch stored_crc computed_crc), st)
                     else (map_sum id Some (parse_quick_open_body body qopen_header_offset), st)))))))"

text \<open>Every record takes bytes off the payload, so the loop over them ends.\<close>

lemma read_quick_open_exact_InrD:
  "read_quick_open_exact n st = (Inr bs, st') \<Longrightarrow>
     n \<le> snd st \<and> snd st' = snd st - n \<and> length bs = n \<and> qs_past_end (fst st') = qs_past_end (fst st)"
  by (auto simp: read_quick_open_exact_def split: prod.splits if_splits)

lemma read_quick_open_vint_loop_InrD:
  "read_quick_open_vint_loop k bs st = (Inr v, st') \<Longrightarrow> snd st' \<le> snd st"
proof (induction k arbitrary: bs st)
  case 0
  then show ?case by simp
next
  case (Suc k)
  then show ?case
    by (auto simp: io_then_eq_Inr split: if_splits dest!: read_quick_open_exact_InrD)
      (meson diff_le_self le_trans)
qed

lemma read_quick_open_record_SomeD:
  "read_quick_open_record cr st off = (Inr (Some raw), st') \<Longrightarrow> snd st' < snd st"
  unfolding read_quick_open_record_def read_quick_open_vint_def
  by (auto simp: io_then_eq_Inr Let_def split: if_splits
      dest!: read_quick_open_exact_InrD read_quick_open_vint_loop_InrD)

function parse_quick_open_records_loop ::
  "crypto \<Rightarrow> nat \<Rightarrow> parsed_headers \<Rightarrow> qo_source \<times> nat \<Rightarrow> parsed_headers option rar_result" where
  "parse_quick_open_records_loop cr qopen_header_offset result st =
     (case read_quick_open_record cr st qopen_header_offset of
        (Inl e, _) \<Rightarrow> Inl e
      | (Inr None, _) \<Rightarrow> Inr None
      | (Inr (Some raw), st) \<Rightarrow>
          let data_offset = rh_offset raw + 4 + rh_header_size_vint_len raw + unat (rh_header_size raw) in
          case rh_header_type raw of
            Encryption \<Rightarrow> Inr None
          | EndArchive \<Rightarrow>
              and_then (end_archive_parse raw) (\<lambda>end_hdr. Inr (Some (result\<lparr>ph_end := Some end_hdr\<rparr>)))
          | _ \<Rightarrow>
              (case dispatch_header cr raw data_offset result of
                 Inl e \<Rightarrow> Inl e
               | Inr result \<Rightarrow> parse_quick_open_records_loop cr qopen_header_offset result st))"
  by pat_completeness auto
termination
  by (relation "measure (\<lambda>(cr, off, result, st). snd st)") (auto dest!: read_quick_open_record_SomeD [OF sym])

declare parse_quick_open_records_loop.simps [simp del]

definition parse_quick_open_records ::
  "crypto \<Rightarrow> qo_source \<Rightarrow> nat \<Rightarrow> nat \<Rightarrow> main_archive_header \<Rightarrow> parsed_headers option rar_result" where
  "parse_quick_open_records cr src remaining qopen_header_offset main =
     parse_quick_open_records_loop cr qopen_header_offset
       (empty_parsed_headers\<lparr>ph_main := Some main, ph_headers_from_quick_open := True\<rparr>) (src, remaining)"

text \<open>\<open>DecryptingReader\<close> over the data area of an encrypted cache.\<close>

definition decrypting_source :: "crypto \<Rightarrow> bytes \<Rightarrow> bytes \<Rightarrow> bytes \<Rightarrow> qo_source" where
  "decrypting_source cr key iv cipher =
     (let whole = take (length cipher - length cipher mod 16) cipher
      in \<lparr>qs_bytes = fst (decrypt_blocks (cr_cbc_dec cr) (cbc_decryptor_new key iv) whole),
          qs_past_end = (if length cipher mod 16 = 0 then Io UnexpectedEof else CorruptArchive OtherDetail)\<rparr>)"

definition parse_encrypted_quick_open_records ::
  "crypto \<Rightarrow> reader \<Rightarrow> raw_header \<Rightarrow> parsed_service \<Rightarrow> rstring option \<Rightarrow> main_archive_header \<Rightarrow>
     parsed_headers option rar_result" where
  "parse_encrypted_quick_open_records cr r qopen_raw qopen_service password main =
     (case password of
        None \<Rightarrow> Inr None
      | Some password \<Rightarrow>
          (case ps_file_encryption qopen_service of
             None \<Rightarrow> Inr None
           | Some encryption \<Rightarrow>
               if fp_version encryption \<noteq> 0 then Inr None
               else if (case fp_check_data encryption of
                          None \<Rightarrow> False
                        | Some check_data \<Rightarrow> \<not> verify_password_check (cr_compress256 cr) password
                            (fp_salt encryption) (fp_kdf_count encryption) check_data)
               then Inr None
               else
                 let unpacked_size = (case fh_unpacked_size (sh_inner (ps_header qopen_service)) of
                        Some n \<Rightarrow> n | None \<Rightarrow> rh_data_area_size qopen_raw)
                 in if unat (rh_data_area_size qopen_raw) mod 16 \<noteq> 0 then Inr None
                    else
                      and_then (derive_rar5_material (cr_compress256 cr) password (fp_salt encryption)
                                  (fp_kdf_count encryption)) (\<lambda>material.
                        parse_quick_open_records cr
                          (decrypting_source cr (km_key material) (fp_iv encryption)
                             (take (unat (rh_data_area_size qopen_raw)) (drop (r_pos r) (r_img r))))
                          (unat unpacked_size) (rh_offset qopen_raw) main)))"

definition parse_quick_open_headers_at ::
  "crypto \<Rightarrow> reader \<Rightarrow> nat \<Rightarrow> main_archive_header \<Rightarrow> rstring option \<Rightarrow> parsed_headers option rar_result" where
  "parse_quick_open_headers_at cr r quick_open_offset main password =
     (case read_raw_header (seek_start quick_open_offset r) of
        (Inl e, _) \<Rightarrow> Inl e
      | (Inr None, _) \<Rightarrow> Inr None
      | (Inr (Some qopen_raw), r) \<Rightarrow>
          if rh_header_type qopen_raw \<noteq> Service then Inr None
          else
            let qopen_data_offset = rh_offset qopen_raw + 4 + rh_header_size_vint_len qopen_raw
                  + unat (rh_header_size qopen_raw)
            in and_then (parse_service_from_raw cr qopen_raw qopen_data_offset) (\<lambda>qopen_service.
                 if service_name (ps_header qopen_service) \<noteq> [0x51, 0x4F] then Inr None
                 else if ci_method (fh_compression (sh_inner (ps_header qopen_service))) \<noteq> Store then Inr None
                 else if ps_is_encrypted qopen_service
                 then parse_encrypted_quick_open_records cr r qopen_raw qopen_service password main
                 else
                   let unpacked_size = (case fh_unpacked_size (sh_inner (ps_header qopen_service)) of
                          Some n \<Rightarrow> n | None \<Rightarrow> rh_data_area_size qopen_raw)
                   in parse_quick_open_records cr
                        \<lparr>qs_bytes = drop (r_pos r) (r_img r), qs_past_end = Io UnexpectedEof\<rparr>
                        (unat unpacked_size) (rh_offset qopen_raw) main))"

text \<open>An attempt that fails leaves the physical walk to go on: the reader is put back either way.\<close>

definition try_parse_quick_open_headers ::
  "crypto \<Rightarrow> reader \<Rightarrow> parsed_headers \<Rightarrow> rstring option \<Rightarrow> parsed_headers option rar_result" where
  "try_parse_quick_open_headers cr r parsed password =
     (case ph_main parsed of
        None \<Rightarrow> Inr None
      | Some main \<Rightarrow>
          (case ma_quick_open_offset main of
             None \<Rightarrow> Inr None
           | Some quick_open_offset \<Rightarrow>
               (case parse_quick_open_headers_at cr r quick_open_offset main password of
                  Inr parsed \<Rightarrow> Inr parsed
                | Inl _ \<Rightarrow> Inr None)))"

end
