(* ===== verification/Rar5_Walk.thy ===== *)
theory Rar5_Walk
  imports Rar5_Dispatch
begin

text \<open>
  The walk over the headers of a RAR5 volume: \<open>unrar-rs/src/header/mod.rs\<close> from the entry points to
  the plaintext and the encrypted loop, and \<open>short_read.rs\<close>, which says what a walk over a volume
  that is still arriving reports. Each loop is a step function and its iteration. The derivation
  cache the source hands down is left out: \<open>Rar5_Kdf\<close> proves that it answers what the derivation
  gives.
\<close>

unbundle bit_operations_syntax

section \<open>Short reads\<close>

datatype header_scan = ForDecode | ForFacts | ThroughFile nat

definition reached_file_limit :: "header_scan \<Rightarrow> nat \<Rightarrow> bool" where
  "reached_file_limit scan files = (case scan of ThroughFile limit \<Rightarrow> files \<ge> limit | _ \<Rightarrow> False)"

record short_read =
  sr_at :: nat
  sr_strict_error :: "rar_error option"

definition at_boundary :: "nat \<Rightarrow> short_read" where
  "at_boundary at = \<lparr>sr_at = at, sr_strict_error = None\<rparr>"

definition truncated :: "nat \<Rightarrow> rar_error \<Rightarrow> short_read" where
  "truncated at strict_error = \<lparr>sr_at = at, sr_strict_error = Some strict_error\<rparr>"

fun is_short_read :: "rar_error \<Rightarrow> bool" where
  "is_short_read (TruncatedHeader _) = True"
| "is_short_read (Io kind) = (kind = UnexpectedEof)"
| "is_short_read _ = False"

definition next_needed :: "reader \<Rightarrow> nat \<Rightarrow> nat" where
  "next_needed r floor = max floor (min (r_pos r + 1) (2 ^ 64 - 1))"

text \<open>The answer, and the short read on record afterwards.\<close>

definition absorb_short_read ::
  "'a rar_result \<Rightarrow> header_scan \<Rightarrow> reader \<Rightarrow> nat \<Rightarrow> short_read option \<Rightarrow>
     'a option rar_result \<times> short_read option" where
  "absorb_short_read result scan r floor short =
     (case result of
        Inr value \<Rightarrow> (Inr (Some value), short)
      | Inl error \<Rightarrow>
          if scan = ForFacts \<and> is_short_read error
          then (Inr None, Some (truncated (next_needed r floor) error))
          else (Inl error, short))"

section \<open>The state of a walk\<close>

definition MIN_RAR5_HEADER_BYTES :: nat where "MIN_RAR5_HEADER_BYTES = 6"

definition MIN_RAR5_ENCRYPTED_HEADER_BYTES :: nat where "MIN_RAR5_ENCRYPTED_HEADER_BYTES = 32"

datatype header_walk = Parsed parsed_headers | HeaderEncrypted encryption_header

text \<open>What a walk changes besides its result: the reader, the short read on record, and where the
  header it stopped at starts.\<close>

record walk_state =
  ws_reader :: reader
  ws_short :: "short_read option"
  ws_stop :: nat

datatype 'a walk_step = Continue walk_state parsed_headers | Done "'a rar_result" walk_state

text \<open>Reading in stages: an error or a clean stop ends it, anything else goes on to the next stage.\<close>

definition fetch_then ::
  "'a option rar_result \<times> walk_state \<Rightarrow> ('a \<Rightarrow> walk_state \<Rightarrow> 'b option rar_result \<times> walk_state) \<Rightarrow>
     'b option rar_result \<times> walk_state" where
  "fetch_then m f =
     (case m of (Inl e, ws) \<Rightarrow> (Inl e, ws) | (Inr None, ws) \<Rightarrow> (Inr None, ws) | (Inr (Some x), ws) \<Rightarrow> f x ws)"

lemma fetch_then_simps [simp, result_simps]:
  "fetch_then (Inl e, ws) f = (Inl e, ws)" "fetch_then (Inr None, ws) f = (Inr None, ws)"
  "fetch_then (Inr (Some x), ws) f = f x ws"
  by (simp_all add: fetch_then_def)

lemma fetch_then_eq_Some [result_simps]:
  "fetch_then m f = (Inr (Some y), ws') \<longleftrightarrow> (\<exists>x ws. m = (Inr (Some x), ws) \<and> f x ws = (Inr (Some y), ws'))"
  by (cases m) (auto simp: fetch_then_def split: sum.splits option.splits)

definition absorb_read :: "nat \<Rightarrow> header_scan \<Rightarrow> nat \<Rightarrow> walk_state \<Rightarrow> bytes option rar_result \<times> walk_state" where
  "absorb_read n scan floor ws =
     (let (m, r) = read_exact n (ws_reader ws);
          (answer, short) = absorb_short_read m scan r floor (ws_short ws)
      in (answer, ws\<lparr>ws_reader := r, ws_short := short\<rparr>))"

section \<open>The encrypted walk\<close>

definition read_header_iv :: "nat \<Rightarrow> walk_state \<Rightarrow> bytes option rar_result \<times> walk_state" where
  "read_header_iv floor ws =
     (case read_exact 16 (ws_reader ws) of
        (Inl e, r) \<Rightarrow>
          if e = Io UnexpectedEof
          then (Inr None, ws\<lparr>ws_reader := r, ws_short := Some (at_boundary floor)\<rparr>)
          else (Inl e, ws\<lparr>ws_reader := r\<rparr>)
      | (Inr iv, r) \<Rightarrow> (Inr (Some iv), ws\<lparr>ws_reader := r\<rparr>))"

text \<open>The decrypted bytes of a header against its checksum, and the raw header they make.\<close>

definition check_encrypted_header ::
  "crypto \<Rightarrow> nat \<Rightarrow> u64 \<Rightarrow> nat \<Rightarrow> bytes \<Rightarrow> raw_header rar_result" where
  "check_encrypted_header cr header_start header_size vint_len decrypted =
     (let stored_crc = from_le_bytes (take 4 decrypted);
          body_start = 4 + vint_len; body_end = body_start + unat header_size
      in if body_end > length decrypted
         then Inl (CorruptArchive (EncryptedBodyBeyondData body_end (length decrypted)))
         else
           let body = take (body_end - body_start) (drop body_start decrypted);
               computed_crc = cr_crc32 cr (vint_encode_for_crc header_size vint_len @ body)
           in if computed_crc \<noteq> stored_crc then Inl (HeaderCrcMismatch stored_crc computed_crc)
              else parse_raw_header_from_parts header_start stored_crc header_size vint_len body)"

text \<open>One encrypted header and the offset of its data area, or nothing where the walk ends.\<close>

definition read_encrypted_header ::
  "crypto \<Rightarrow> bytes \<Rightarrow> header_scan \<Rightarrow> walk_state \<Rightarrow> (raw_header \<times> nat) option rar_result \<times> walk_state" where
  "read_encrypted_header cr key scan ws =
     (let header_start = r_pos (ws_reader ws); floor = header_start + MIN_RAR5_ENCRYPTED_HEADER_BYTES in
      fetch_then (read_header_iv floor (ws\<lparr>ws_stop := header_start\<rparr>)) (\<lambda>iv ws.
      fetch_then (absorb_read 16 scan floor ws) (\<lambda>block0 ws.
      let (dec0, decryptor) = decrypt_blocks (cr_cbc_dec cr) (cbc_decryptor_new key iv) block0 in
      case read_vint (drop 4 dec0) of
        Inl _ \<Rightarrow> (Inr None, ws)
      | Inr (header_size, vint_len) \<Rightarrow>
          if header_size = 0 then (Inr None, ws)
          else
            case validate_header_size header_start header_size vint_len of
              Inl e \<Rightarrow> (Inl e, ws)
            | Inr _ \<Rightarrow>
                let total = 4 + vint_len + unat header_size; aligned = (total + 15) div 16 * 16 in
                fetch_then (if aligned > 16 then absorb_read (aligned - 16) scan floor ws
                            else (Inr (Some []), ws)) (\<lambda>more ws.
                  (and_then (check_encrypted_header cr header_start header_size vint_len
                      (dec0 @ fst (decrypt_blocks (cr_cbc_dec cr) decryptor more)))
                     (\<lambda>raw. Inr (Some (raw, header_start + 16 + aligned))), ws)))))"

definition encrypted_step ::
  "crypto \<Rightarrow> bytes \<Rightarrow> header_scan \<Rightarrow> walk_state \<Rightarrow> parsed_headers \<Rightarrow> parsed_headers walk_step" where
  "encrypted_step cr key scan ws result =
     (case read_encrypted_header cr key scan ws of
        (Inl e, ws) \<Rightarrow> Done (Inl e) ws
      | (Inr None, ws) \<Rightarrow> Done (Inr result) ws
      | (Inr (Some (raw, data_offset)), ws) \<Rightarrow>
          if rh_header_type raw = EndArchive
          then Done (and_then (end_archive_parse raw) (\<lambda>end_hdr. Inr (result\<lparr>ph_end := Some end_hdr\<rparr>))) ws
          else case dispatch_header cr raw data_offset result of
                 Inl e \<Rightarrow> Done (Inl e) ws
               | Inr result \<Rightarrow>
                   if reached_file_limit scan (length (ph_files result)) then Done (Inr result) ws
                   else case skip_data_area (ws_reader ws) raw of
                          (Inl e, r) \<Rightarrow> Done (Inl e) (ws\<lparr>ws_reader := r\<rparr>)
                        | (Inr _, r) \<Rightarrow> Continue (ws\<lparr>ws_reader := r\<rparr>) result)"

text \<open>A step that goes on has read at least the IV and a block, so the walk ends.\<close>

lemma skip_data_area_InrD:
  "skip_data_area r raw = (Inr u, r') \<Longrightarrow> r_img r' = r_img r \<and> r_pos r \<le> r_pos r'"
  by (auto simp: skip_data_area_def seek_forward_def split: if_splits)

lemma absorb_read_SomeD:
  "absorb_read n scan floor ws = (Inr (Some bs), ws') \<Longrightarrow>
     r_pos (ws_reader ws) + n \<le> length (r_img (ws_reader ws))
     \<and> ws' = ws\<lparr>ws_reader := (ws_reader ws)\<lparr>r_pos := r_pos (ws_reader ws) + n\<rparr>\<rparr>
     \<and> bs = take n (drop (r_pos (ws_reader ws)) (r_img (ws_reader ws)))"
  by (auto simp: absorb_read_def absorb_short_read_def Let_def read_exact_eq_Inr
      split: prod.splits sum.splits if_splits)

lemma read_header_iv_SomeD:
  "read_header_iv floor ws = (Inr (Some bs), ws') \<Longrightarrow>
     r_pos (ws_reader ws) + 16 \<le> length (r_img (ws_reader ws))
     \<and> ws' = ws\<lparr>ws_reader := (ws_reader ws)\<lparr>r_pos := r_pos (ws_reader ws) + 16\<rparr>\<rparr>
     \<and> bs = take 16 (drop (r_pos (ws_reader ws)) (r_img (ws_reader ws)))"
  by (auto simp: read_header_iv_def read_exact_eq_Inr split: prod.splits sum.splits if_splits)

lemma read_encrypted_header_SomeD:
  assumes "read_encrypted_header cr key scan ws = (Inr (Some x), ws')"
  shows "r_img (ws_reader ws') = r_img (ws_reader ws)
    \<and> r_pos (ws_reader ws) + 32 \<le> r_pos (ws_reader ws')
    \<and> r_pos (ws_reader ws') \<le> length (r_img (ws_reader ws))"
proof -
  let ?s = "r_pos (ws_reader ws)" let ?f = "?s + MIN_RAR5_ENCRYPTED_HEADER_BYTES"
  obtain iv ws1 block0 ws2 where
    1: "read_header_iv ?f (ws\<lparr>ws_stop := ?s\<rparr>) = (Inr (Some iv), ws1)" and
    2: "absorb_read 16 scan ?f ws1 = (Inr (Some block0), ws2)" and
    3: "(let (dec0, decryptor) = decrypt_blocks (cr_cbc_dec cr) (cbc_decryptor_new key iv) block0 in
      case read_vint (drop 4 dec0) of
        Inl _ \<Rightarrow> (Inr None, ws2)
      | Inr (header_size, vint_len) \<Rightarrow>
          if header_size = 0 then (Inr None, ws2)
          else
            case validate_header_size ?s header_size vint_len of
              Inl e \<Rightarrow> (Inl e, ws2)
            | Inr _ \<Rightarrow>
                let total = 4 + vint_len + unat header_size; aligned = (total + 15) div 16 * 16 in
                fetch_then (if aligned > 16 then absorb_read (aligned - 16) scan ?f ws2
                            else (Inr (Some []), ws2)) (\<lambda>more ws.
                  (and_then (check_encrypted_header cr ?s header_size vint_len
                      (dec0 @ fst (decrypt_blocks (cr_cbc_dec cr) decryptor more)))
                     (\<lambda>raw. Inr (Some (raw, ?s + 16 + aligned))), ws))) = (Inr (Some x), ws')"
    using assms unfolding read_encrypted_header_def Let_def fetch_then_eq_Some by blast
  have "ws' = ws2 \<or> (\<exists>n more. absorb_read n scan ?f ws2 = (Inr (Some more), ws'))"
    using 3 by (auto simp: Let_def fetch_then_eq_Some split: prod.splits sum.splits if_splits)
  then show ?thesis
    using read_header_iv_SomeD [OF 1] absorb_read_SomeD [OF 2] by (auto dest!: absorb_read_SomeD)
qed

lemma encrypted_step_ContinueD:
  "encrypted_step cr key scan ws result = Continue ws' result' \<Longrightarrow>
     r_img (ws_reader ws') = r_img (ws_reader ws) \<and> r_pos (ws_reader ws) < r_pos (ws_reader ws')
     \<and> r_pos (ws_reader ws) < length (r_img (ws_reader ws))"
  unfolding encrypted_step_def
  by (auto split: prod.splits sum.splits option.splits if_splits
      dest!: skip_data_area_InrD read_encrypted_header_SomeD)

function parse_encrypted_headers ::
  "crypto \<Rightarrow> bytes \<Rightarrow> header_scan \<Rightarrow> walk_state \<Rightarrow> parsed_headers \<Rightarrow> parsed_headers rar_result \<times> walk_state" where
  "parse_encrypted_headers cr key scan ws result =
     (case encrypted_step cr key scan ws result of
        Done answer ws \<Rightarrow> (answer, ws)
      | Continue ws result \<Rightarrow> parse_encrypted_headers cr key scan ws result)"
  by pat_completeness auto
termination
  by (relation "measure (\<lambda>(cr, key, scan, ws, result). length (r_img (ws_reader ws)) - r_pos (ws_reader ws))")
    (auto dest!: encrypted_step_ContinueD intro: diff_less_mono2)

declare parse_encrypted_headers.simps [simp del]

section \<open>The plaintext walk\<close>

text \<open>The next raw header, or nothing where the walk ends; the stop is where it starts.\<close>

definition next_raw_header :: "header_scan \<Rightarrow> walk_state \<Rightarrow> raw_header option rar_result \<times> walk_state" where
  "next_raw_header scan ws =
     (let header_start = r_pos (ws_reader ws); floor = header_start + MIN_RAR5_HEADER_BYTES;
          (m, r) = read_raw_header (ws_reader ws);
          (answer, short) = absorb_short_read m scan r floor (ws_short ws);
          ws = ws\<lparr>ws_stop := header_start, ws_reader := r, ws_short := short\<rparr>
      in case answer of
           Inl e \<Rightarrow> (Inl e, ws)
         | Inr (Some (Some raw)) \<Rightarrow> (Inr (Some raw), ws)
         | Inr (Some None) \<Rightarrow> (Inr None, ws\<lparr>ws_short := Some (at_boundary floor)\<rparr>)
         | Inr None \<Rightarrow> (Inr None, ws))"

definition data_offset_of :: "raw_header \<Rightarrow> nat" where
  "data_offset_of raw = rh_offset raw + 4 + rh_header_size_vint_len raw + unat (rh_header_size raw)"

text \<open>An archive encryption header: everything after it is encrypted.\<close>

definition enter_encrypted ::
  "crypto \<Rightarrow> rstring option \<Rightarrow> header_scan \<Rightarrow> raw_header \<Rightarrow> walk_state \<Rightarrow> parsed_headers \<Rightarrow>
     header_walk rar_result \<times> walk_state" where
  "enter_encrypted cr password scan raw ws result =
     (case encryption_parse (cr_sha256 cr) raw of
        Inl e \<Rightarrow> (Inl e, ws)
      | Inr enc \<Rightarrow>
          let result = result\<lparr>ph_encryption := Some enc, ph_is_encrypted := True\<rparr> in
          case password of
            None \<Rightarrow> (Inr (HeaderEncrypted enc), ws)
          | Some pwd \<Rightarrow>
              if (case eh_check_data enc of
                    None \<Rightarrow> False
                  | Some check_data \<Rightarrow> \<not> verify_password_check (cr_compress256 cr) pwd (eh_salt enc)
                      (eh_kdf_count enc) check_data)
              then (Inl InvalidPassword, ws)
              else
                case derive_rar5_material (cr_compress256 cr) pwd (eh_salt enc) (eh_kdf_count enc) of
                  Inl e \<Rightarrow> (Inl e, ws)
                | Inr material \<Rightarrow>
                    map_prod (\<lambda>answer. and_then answer (\<lambda>result. Inr (Parsed result))) id
                      (parse_encrypted_headers cr (km_key material) scan ws result))"

text \<open>After a header was taken: past its data area to the next.\<close>

definition skip_to_next :: "raw_header \<Rightarrow> walk_state \<Rightarrow> parsed_headers \<Rightarrow> 'a walk_step" where
  "skip_to_next raw ws result =
     (case skip_data_area (ws_reader ws) raw of
        (Inl e, r) \<Rightarrow> Done (Inl e) (ws\<lparr>ws_reader := r\<rparr>)
      | (Inr _, r) \<Rightarrow> Continue (ws\<lparr>ws_reader := r\<rparr>) result)"

definition walk_step_of ::
  "crypto \<Rightarrow> rstring option \<Rightarrow> bool \<Rightarrow> header_scan \<Rightarrow> raw_header \<Rightarrow> walk_state \<Rightarrow> parsed_headers \<Rightarrow>
     header_walk walk_step" where
  "walk_step_of cr password allow_quick_open scan raw ws result =
     (if rh_header_type raw = Encryption
      then case enter_encrypted cr password scan raw ws result of (answer, ws) \<Rightarrow> Done answer ws
      else if rh_header_type raw = EndArchive
      then Done (and_then (end_archive_parse raw) (\<lambda>end_hdr. Inr (Parsed (result\<lparr>ph_end := Some end_hdr\<rparr>)))) ws
      else if rh_header_type raw = MainArchive
      then case dispatch_header cr raw (data_offset_of raw) result of
             Inl e \<Rightarrow> Done (Inl e) ws
           | Inr result \<Rightarrow>
               (case (if allow_quick_open
                      then try_parse_quick_open_headers cr (ws_reader ws) result password else Inr None) of
                  Inl e \<Rightarrow> Done (Inl e) ws
                | Inr (Some quick_open) \<Rightarrow> Done (Inr (Parsed quick_open)) ws
                | Inr None \<Rightarrow> skip_to_next raw ws result)
      else case dispatch_header cr raw (data_offset_of raw) result of
             Inl e \<Rightarrow> Done (Inl e) ws
           | Inr result \<Rightarrow>
               if reached_file_limit scan (length (ph_files result)) then Done (Inr (Parsed result)) ws
               else skip_to_next raw ws result)"

definition walk_step ::
  "crypto \<Rightarrow> rstring option \<Rightarrow> bool \<Rightarrow> header_scan \<Rightarrow> walk_state \<Rightarrow> parsed_headers \<Rightarrow> header_walk walk_step" where
  "walk_step cr password allow_quick_open scan ws result =
     (case next_raw_header scan ws of
        (Inl e, ws) \<Rightarrow> Done (Inl e) ws
      | (Inr None, ws) \<Rightarrow> Done (Inr (Parsed result)) ws
      | (Inr (Some raw), ws) \<Rightarrow> walk_step_of cr password allow_quick_open scan raw ws result)"

lemma next_raw_header_SomeD:
  "next_raw_header scan ws = (Inr (Some raw), ws') \<Longrightarrow>
     read_raw_header (ws_reader ws) = (Inr (Some raw), ws_reader ws')
     \<and> ws_stop ws' = r_pos (ws_reader ws) \<and> ws_short ws' = ws_short ws"
  by (auto simp: next_raw_header_def absorb_short_read_def Let_def
      split: prod.splits sum.splits option.splits if_splits)

lemma skip_to_next_ContinueD:
  "skip_to_next raw ws result = Continue ws' result' \<Longrightarrow>
     result' = result \<and> r_img (ws_reader ws') = r_img (ws_reader ws) \<and> r_pos (ws_reader ws) \<le> r_pos (ws_reader ws')
     \<and> ws_stop ws' = ws_stop ws \<and> ws_short ws' = ws_short ws"
  by (auto simp: skip_to_next_def split: prod.splits sum.splits dest!: skip_data_area_InrD)

lemma walk_step_of_ContinueD:
  "walk_step_of cr pw qo scan raw ws result = Continue ws' result' \<Longrightarrow>
     dispatch_header cr raw (data_offset_of raw) result = Inr result'
     \<and> skip_to_next raw ws result' = (Continue ws' result' :: header_walk walk_step)"
  by (auto simp: walk_step_of_def split: if_splits prod.splits sum.splits option.splits
      dest: skip_to_next_ContinueD)

lemma walk_step_ContinueD:
  assumes "walk_step cr pw qo scan ws result = Continue ws' result'"
  shows "r_img (ws_reader ws') = r_img (ws_reader ws) \<and> r_pos (ws_reader ws) + 6 \<le> r_pos (ws_reader ws')
     \<and> r_pos (ws_reader ws) < length (r_img (ws_reader ws))"
proof -
  obtain raw ws1 where 1: "next_raw_header scan ws = (Inr (Some raw), ws1)"
    and 2: "walk_step_of cr pw qo scan raw ws1 result = Continue ws' result'"
    using assms by (auto simp: walk_step_def split: prod.splits sum.splits option.splits)
  have rd: "read_raw_header (ws_reader ws) = (Inr (Some raw), ws_reader ws1)"
    using next_raw_header_SomeD [OF 1] by simp
  have "1 \<le> unat (rh_header_size raw)"
    using read_raw_header_InrD(4) [OF rd] by (simp add: word_less_nat_alt)
  then show ?thesis
    using read_raw_header_InrD(2,6,7) [OF rd] walk_step_of_ContinueD [OF 2] 
    by (auto dest!: skip_to_next_ContinueD)
qed

function walk_headers_from ::
  "crypto \<Rightarrow> rstring option \<Rightarrow> bool \<Rightarrow> header_scan \<Rightarrow> walk_state \<Rightarrow> parsed_headers \<Rightarrow>
     header_walk rar_result \<times> walk_state" where
  "walk_headers_from cr password allow_quick_open scan ws result =
     (case walk_step cr password allow_quick_open scan ws result of
        Done answer ws \<Rightarrow> (answer, ws)
      | Continue ws result \<Rightarrow> walk_headers_from cr password allow_quick_open scan ws result)"
  by pat_completeness auto
termination
  by (relation "measure (\<lambda>(cr, pw, qo, scan, ws, result). length (r_img (ws_reader ws)) - r_pos (ws_reader ws))")
    (auto dest!: walk_step_ContinueD intro: diff_less_mono2)

declare walk_headers_from.simps [simp del]

section \<open>Entry points\<close>

definition start_at :: "reader \<Rightarrow> walk_state" where
  "start_at r = \<lparr>ws_reader = r, ws_short = None, ws_stop = 0\<rparr>"

definition walk_all_headers ::
  "crypto \<Rightarrow> reader \<Rightarrow> rstring option \<Rightarrow> bool \<Rightarrow> header_scan \<Rightarrow> header_walk rar_result \<times> walk_state" where
  "walk_all_headers cr r password allow_quick_open scan =
     walk_headers_from cr password allow_quick_open scan (start_at r) empty_parsed_headers"

fun parsed_or_encrypted :: "header_walk \<Rightarrow> parsed_headers rar_result" where
  "parsed_or_encrypted (Parsed parsed) = Inr parsed"
| "parsed_or_encrypted (HeaderEncrypted _) = Inl EncryptedArchive"

definition parse_headers_with_scan ::
  "crypto \<Rightarrow> reader \<Rightarrow> rstring option \<Rightarrow> bool \<Rightarrow> header_scan \<Rightarrow> parsed_headers rar_result" where
  "parse_headers_with_scan cr r password allow_quick_open scan =
     and_then (fst (walk_all_headers cr r password allow_quick_open scan)) parsed_or_encrypted"

definition parse_all_headers_with_options ::
  "crypto \<Rightarrow> reader \<Rightarrow> rstring option \<Rightarrow> bool \<Rightarrow> parsed_headers rar_result" where
  "parse_all_headers_with_options cr r password allow_quick_open =
     parse_headers_with_scan cr r password allow_quick_open ForDecode"

definition parse_all_headers :: "crypto \<Rightarrow> reader \<Rightarrow> rstring option \<Rightarrow> parsed_headers rar_result" where
  "parse_all_headers cr r password = parse_all_headers_with_options cr r password True"

definition resume_headers_with_scan ::
  "crypto \<Rightarrow> reader \<Rightarrow> rstring option \<Rightarrow> header_scan \<Rightarrow> main_archive_header option \<Rightarrow>
     encryption_header option \<Rightarrow> parsed_headers rar_result" where
  "resume_headers_with_scan cr r password scan main encryption =
     (let result = empty_parsed_headers\<lparr>ph_main := main, ph_encryption := encryption\<rparr> in
      case encryption of
        Some enc \<Rightarrow>
          let result = result\<lparr>ph_is_encrypted := True\<rparr> in
          and_then (ok_or password EncryptedArchive) (\<lambda>password.
          and_then (derive_rar5_material (cr_compress256 cr) password (eh_salt enc) (eh_kdf_count enc)) (\<lambda>material.
            fst (parse_encrypted_headers cr (km_key material) scan (start_at r) result)))
      | None \<Rightarrow>
          and_then (fst (walk_headers_from cr password False scan (start_at r) result)) parsed_or_encrypted)"

definition resume_headers_for_facts ::
  "crypto \<Rightarrow> rstring option \<Rightarrow> bool \<Rightarrow> walk_state \<Rightarrow> nat \<Rightarrow> main_archive_header option \<Rightarrow>
     encryption_header option \<Rightarrow> parsed_headers rar_result \<times> walk_state" where
  "resume_headers_for_facts cr password allow_quick_open ws at main encryption =
     (let result = empty_parsed_headers\<lparr>ph_main := main, ph_encryption := encryption\<rparr>;
          ws = ws\<lparr>ws_stop := at\<rparr>
      in case encryption of
           Some enc \<Rightarrow>
             let result = result\<lparr>ph_is_encrypted := True\<rparr> in
             (case password of
                None \<Rightarrow> (Inl EncryptedArchive, ws)
              | Some password \<Rightarrow>
                  if (case eh_check_data enc of
                        None \<Rightarrow> False
                      | Some check_data \<Rightarrow> \<not> verify_password_check (cr_compress256 cr) password (eh_salt enc)
                          (eh_kdf_count enc) check_data)
                  then (Inl InvalidPassword, ws)
                  else
                    case derive_rar5_material (cr_compress256 cr) password (eh_salt enc) (eh_kdf_count enc) of
                      Inl e \<Rightarrow> (Inl e, ws)
                    | Inr material \<Rightarrow>
                        parse_encrypted_headers cr (km_key material) ForFacts
                          (ws\<lparr>ws_reader := seek_start at (ws_reader ws)\<rparr>) result)
         | None \<Rightarrow>
             (case (if allow_quick_open
                    then try_parse_quick_open_headers cr (ws_reader ws) result password else Inr None) of
                Inl e \<Rightarrow> (Inl e, ws)
              | Inr (Some quick_open) \<Rightarrow> (Inr quick_open, ws)
              | Inr None \<Rightarrow>
                  map_prod (\<lambda>answer. and_then answer parsed_or_encrypted) id
                    (walk_headers_from cr password allow_quick_open ForFacts
                       (ws\<lparr>ws_reader := seek_start at (ws_reader ws)\<rparr>) result)))"

definition parse_header_encryption :: "crypto \<Rightarrow> reader \<Rightarrow> encryption_header option rar_result" where
  "parse_header_encryption cr r =
     and_then (fst (walk_all_headers cr r None False ForDecode)) (\<lambda>walk.
       Inr (case walk of HeaderEncrypted encryption \<Rightarrow> Some encryption | Parsed _ \<Rightarrow> None))"

end
