(* ===== verification/Rar5_Walk_Props.thy ===== *)
theory Rar5_Walk_Props
  imports Rar5_Walk
begin

text \<open>
  What the header walk finds: on a volume written block by block it takes exactly those blocks, in
  order; on one that is cut inside a header a facts walk reports the complete headers and asks for
  more; and headers flagged as physical never come from the Quick Open cache. Every statement covers
  walks that may ask the cache and walks that may not.
\<close>

unbundle bit_operations_syntax

section \<open>Volumes as lists of blocks\<close>

text \<open>A block of a volume: its checksum, its body and its data area.\<close>

type_synonym block = "u32 \<times> bytes \<times> bytes"

definition encode_volume_block :: "block \<Rightarrow> bytes" where
  "encode_volume_block = (\<lambda>(crc, body, data). encode_block crc body @ data)"

definition block_raw :: "nat \<Rightarrow> u32 \<Rightarrow> bytes \<Rightarrow> raw_header rar_result" where
  "block_raw offset crc body =
     parse_raw_header_from_parts offset crc (of_nat (length body))
       (length (encode_vint (of_nat (length body)))) body"

text \<open>A block the walk goes past: a well-formed frame that is neither an encryption header nor the end
  of the archive, whose declared data area is the one that follows.\<close>

definition block_ok :: "block \<Rightarrow> bool" where
  "block_ok = (\<lambda>(crc, body, data). length body < 2 ^ 21 \<and>
     (case read_common_fields body of
        Inl _ \<Rightarrow> False
      | Inr (ty, _, _, data_size, _) \<Rightarrow> unat data_size = length data \<and> length data < 2 ^ 63
          \<and> header_type_from ty \<noteq> Encryption \<and> header_type_from ty \<noteq> EndArchive))"

text \<open>Taking the blocks one after the other, each at its offset.\<close>

fun dispatch_all :: "crypto \<Rightarrow> nat \<Rightarrow> block list \<Rightarrow> parsed_headers \<Rightarrow> parsed_headers rar_result" where
  "dispatch_all cr offset [] result = Inr result"
| "dispatch_all cr offset ((crc, body, data) # blocks) result =
     and_then (block_raw offset crc body) (\<lambda>raw.
     and_then (dispatch_header cr raw (offset + length (encode_block crc body)) result)
       (dispatch_all cr (offset + length (encode_volume_block (crc, body, data))) blocks))"

lemma block_raw_eq:
  assumes "read_common_fields body = Inr (ty, fl, extra, data, pos)" "length body < 2 ^ 21"
  shows "block_raw offset crc body = Inr \<lparr>rh_offset = offset, rh_crc32 = crc,
     rh_header_size = of_nat (length body),
     rh_header_size_vint_len = length (encode_vint (of_nat (length body))),
     rh_header_type = header_type_from ty, rh_flags = fl, rh_extra_area_size = extra,
     rh_data_area_size = data, rh_body = body\<rparr>"
proof -
  have "read_raw_header \<lparr>r_img = replicate offset 0 @ encode_block crc body @ [], r_pos = offset\<rparr> =
    (Inr (Some \<lparr>rh_offset = offset, rh_crc32 = crc, rh_header_size = of_nat (length body),
       rh_header_size_vint_len = length (encode_vint (of_nat (length body))),
       rh_header_type = header_type_from ty, rh_flags = fl, rh_extra_area_size = extra,
       rh_data_area_size = data, rh_body = body\<rparr>),
     \<lparr>r_img = replicate offset 0 @ encode_block crc body @ [], r_pos = offset + length (encode_block crc body)\<rparr>)"
    using read_raw_header_encode_block [OF assms, of "\<lparr>r_img = replicate offset 0 @ encode_block crc body @ [],
      r_pos = offset\<rparr>" "replicate offset 0" crc "[]"] by simp
  from read_raw_header_InrD(9) [OF this] show ?thesis by (simp add: block_raw_def)
qed

lemma length_encode_block:
  "length (encode_block crc body) = 4 + length (encode_vint (of_nat (length body))) + length body"
  by (simp add: encode_block_def)

text \<open>The next header of a walk that stands at a written block.\<close>

lemma next_raw_header_block:
  assumes "read_common_fields body = Inr (ty, fl, extra, data, pos)" "length body < 2 ^ 21"
    and "r_img (ws_reader ws) = pre @ encode_block crc body @ rest" "r_pos (ws_reader ws) = length pre"
  shows "\<exists>raw. block_raw (length pre) crc body = Inr raw
    \<and> rh_header_type raw = header_type_from ty \<and> rh_data_area_size raw = data
    \<and> data_offset_of raw = length pre + length (encode_block crc body)
    \<and> next_raw_header scan ws = (Inr (Some raw), ws\<lparr>ws_stop := length pre,
        ws_reader := (ws_reader ws)\<lparr>r_pos := length pre + length (encode_block crc body)\<rparr>\<rparr>)"
proof -
  have "unat (of_nat (length body) :: u64) = length body"
    using assms(2) by (simp add: unat_of_nat take_bit_nat_eq_self)
  then show ?thesis
    using read_raw_header_encode_block [OF assms] assms(4)
    by (simp add: block_raw_eq [OF assms(1,2)] next_raw_header_def absorb_short_read_def Let_def
        data_offset_of_def length_encode_block)
qed

lemma skip_to_next_data:
  assumes "unat (rh_data_area_size raw) = n" "n < 2 ^ 63" "r_pos (ws_reader ws) + n < 2 ^ 64"
  shows "skip_to_next raw ws result =
    Continue (ws\<lparr>ws_reader := (ws_reader ws)\<lparr>r_pos := r_pos (ws_reader ws) + n\<rparr>\<rparr>) result"
proof -
  have "\<not> 0x7FFFFFFFFFFFFFFF < rh_data_area_size raw"
    using assms(1,2) by (simp add: word_less_nat_alt)
  moreover have "n = 0" if "\<not> 0 < rh_data_area_size raw"
    using that assms(1) by (simp add: word_gt_0)
  ultimately show ?thesis
    using assms by (auto simp: skip_to_next_def skip_data_area_def seek_forward_def)
qed

lemma walk_block:
  assumes ok: "block_ok (crc, body, data)" and scan: "scan = ForDecode \<or> scan = ForFacts"
    and r: "r_img (ws_reader ws) = pre @ encode_volume_block (crc, body, data) @ rest"
      "r_pos (ws_reader ws) = length pre" "length (r_img (ws_reader ws)) < 2 ^ 64"
  shows "\<exists>ws'. r_img (ws_reader ws') = r_img (ws_reader ws)
      \<and> r_pos (ws_reader ws') = length (pre @ encode_volume_block (crc, body, data))
      \<and> ws_short ws' = ws_short ws
      \<and> fst (walk_headers_from cr pw False scan ws result) =
        and_then (block_raw (length pre) crc body) (\<lambda>raw.
        and_then (dispatch_header cr raw (length pre + length (encode_block crc body)) result)
          (\<lambda>result. fst (walk_headers_from cr pw False scan ws' result)))
      \<and> (\<forall>raw result'. block_raw (length pre) crc body = Inr raw \<longrightarrow>
          dispatch_header cr raw (length pre + length (encode_block crc body)) result = Inr result' \<longrightarrow>
          walk_headers_from cr pw False scan ws result = walk_headers_from cr pw False scan ws' result')"
proof -
  obtain ty fl extra dsz pos where f: "read_common_fields body = Inr (ty, fl, extra, dsz, pos)"
    and len: "length body < 2 ^ 21" "unat dsz = length data" "length data < 2 ^ 63"
    and ty: "header_type_from ty \<noteq> Encryption" "header_type_from ty \<noteq> EndArchive"
    using ok by (auto simp: block_ok_def split: sum.splits)
  have img: "r_img (ws_reader ws) = pre @ encode_block crc body @ (data @ rest)"
    using r(1) by (simp add: encode_volume_block_def)
  obtain raw where raw: "block_raw (length pre) crc body = Inr raw"
      "rh_header_type raw = header_type_from ty" "rh_data_area_size raw = dsz"
      "data_offset_of raw = length pre + length (encode_block crc body)" and
    nxt: "next_raw_header scan ws = (Inr (Some raw), ws\<lparr>ws_stop := length pre,
        ws_reader := (ws_reader ws)\<lparr>r_pos := length pre + length (encode_block crc body)\<rparr>\<rparr>)"
    using next_raw_header_block [OF f len(1) img r(2)] by blast
  let ?ws = "ws\<lparr>ws_stop := length pre,
        ws_reader := (ws_reader ws)\<lparr>r_pos := length pre + length (encode_block crc body)\<rparr>\<rparr>"
  let ?ws' = "?ws\<lparr>ws_reader := (ws_reader ?ws)\<lparr>r_pos := r_pos (ws_reader ?ws) + length data\<rparr>\<rparr>"
  have skip: "skip_to_next raw ?ws res = Continue ?ws' res" for res
    using raw(3) len r img by (intro skip_to_next_data) auto
  have limit: "\<not> reached_file_limit scan n" for n using scan by (auto simp: reached_file_limit_def)
  have step: "walk_step cr pw False scan ws result =
      (case dispatch_header cr raw (length pre + length (encode_block crc body)) result of
         Inl e \<Rightarrow> Done (Inl e) ?ws | Inr res \<Rightarrow> Continue ?ws' res)"
    using ty raw skip limit
    by (auto simp: walk_step_def nxt walk_step_of_def split: sum.splits)
  show ?thesis
    using r raw(1)
    by (intro exI [of _ ?ws'] conjI)
      (auto simp: encode_volume_block_def walk_headers_from.simps [of cr pw False scan ws result] step
        split: sum.splits)
qed

lemma walk_blocks:
  assumes "\<forall>b\<in>set blocks. block_ok b" and "scan = ForDecode \<or> scan = ForFacts"
    and "r_img (ws_reader ws) = pre @ concat (map encode_volume_block blocks) @ rest"
      "r_pos (ws_reader ws) = length pre" "length (r_img (ws_reader ws)) < 2 ^ 64"
  shows "\<exists>ws'. r_img (ws_reader ws') = r_img (ws_reader ws)
      \<and> r_pos (ws_reader ws') = length (pre @ concat (map encode_volume_block blocks))
      \<and> ws_short ws' = ws_short ws
      \<and> fst (walk_headers_from cr pw False scan ws result) =
        and_then (dispatch_all cr (length pre) blocks result)
          (\<lambda>result. fst (walk_headers_from cr pw False scan ws' result))
      \<and> (\<forall>result'. dispatch_all cr (length pre) blocks result = Inr result' \<longrightarrow>
          walk_headers_from cr pw False scan ws result = walk_headers_from cr pw False scan ws' result')"
  using assms
proof (induction blocks arbitrary: pre ws result)
  case Nil
  then show ?case by (intro exI [of _ ws]) simp
next
  case (Cons b blocks)
  obtain crc body data where b: "b = (crc, body, data)" by (cases b)
  let ?pre = "pre @ encode_volume_block b"
  obtain ws1 where
    ws1: "r_img (ws_reader ws1) = r_img (ws_reader ws)" "r_pos (ws_reader ws1) = length ?pre"
      "ws_short ws1 = ws_short ws" and
    w1: "fst (walk_headers_from cr pw False scan ws result) =
        and_then (block_raw (length pre) crc body) (\<lambda>raw.
        and_then (dispatch_header cr raw (length pre + length (encode_block crc body)) result)
          (\<lambda>result. fst (walk_headers_from cr pw False scan ws1 result)))" and
    w2: "\<forall>raw result'. block_raw (length pre) crc body = Inr raw \<longrightarrow>
          dispatch_header cr raw (length pre + length (encode_block crc body)) result = Inr result' \<longrightarrow>
          walk_headers_from cr pw False scan ws result = walk_headers_from cr pw False scan ws1 result'"
    using walk_block [of crc body data scan ws pre "concat (map encode_volume_block blocks) @ rest" cr pw result]
      Cons.prems by (auto simp: b)
  define P where "P = (\<lambda>ws' res. fst (walk_headers_from cr pw False scan ws1 res) =
        and_then (dispatch_all cr (length ?pre) blocks res)
          (\<lambda>res. fst (walk_headers_from cr pw False scan ws' res))
      \<and> (\<forall>res'. dispatch_all cr (length ?pre) blocks res = Inr res' \<longrightarrow>
          walk_headers_from cr pw False scan ws1 res = walk_headers_from cr pw False scan ws' res'))"
  show ?case
  proof (cases "\<exists>raw res. block_raw (length pre) crc body = Inr raw \<and>
      dispatch_header cr raw (length pre + length (encode_block crc body)) result = Inr res")
    case True
    then obtain raw res where d: "block_raw (length pre) crc body = Inr raw"
      "dispatch_header cr raw (length pre + length (encode_block crc body)) result = Inr res" by blast
    have all: "dispatch_all cr (length pre) (b # blocks) result = dispatch_all cr (length ?pre) blocks res"
      using d by (simp add: b)
    have step: "walk_headers_from cr pw False scan ws result = walk_headers_from cr pw False scan ws1 res"
      using w2 d by blast
    show ?thesis
      using Cons.IH [of ws1 ?pre res] Cons.prems ws1 by (simp add: all step)
  next
    case False
    then obtain e where e: "dispatch_all cr (length pre) (b # blocks) result = Inl e"
      "fst (walk_headers_from cr pw False scan ws result) = Inl e"
      using w1 by (cases "block_raw (length pre) crc body")
        (auto simp: b and_then_def split: sum.splits)
    let ?ws' = "ws\<lparr>ws_reader := (ws_reader ws)\<lparr>r_pos := length (pre @ concat (map encode_volume_block (b # blocks)))\<rparr>\<rparr>"
    show ?thesis using e by (intro exI [of _ ?ws']) simp
  qed
qed

lemma walk_end:
  assumes "read_common_fields body = Inr (5, fl, extra, data, pos)" "length body < 2 ^ 21"
    and "r_img (ws_reader ws) = pre @ encode_block crc body @ rest" "r_pos (ws_reader ws) = length pre"
  shows "fst (walk_headers_from cr pw qo scan ws result) =
    and_then (block_raw (length pre) crc body) (\<lambda>raw.
    and_then (end_archive_parse raw) (\<lambda>end_hdr. Inr (Parsed (result\<lparr>ph_end := Some end_hdr\<rparr>))))"
proof -
  obtain raw ws' where raw: "block_raw (length pre) crc body = Inr raw" "rh_header_type raw = EndArchive"
      and nxt: "next_raw_header scan ws = (Inr (Some raw), ws')"
    using next_raw_header_block [OF assms, of scan] by (auto simp: header_type_from_def)
  then show ?thesis
    by (simp add: walk_headers_from.simps [of cr pw qo scan ws] walk_step_def walk_step_of_def)
qed

section \<open>A header that is cut\<close>

lemma read_vint_from_loop_cut:
  "\<forall>b\<in>set (drop (r_pos r) (r_img r)). continues b \<Longrightarrow> length (r_img r) - r_pos r < k \<Longrightarrow> k + i = 10 \<Longrightarrow>
   r_pos r \<le> length (r_img r) \<Longrightarrow>
   read_vint_from_loop k res s i r = (Inl (TruncatedHeader 0), r\<lparr>r_pos := length (r_img r)\<rparr>)"
proof (induction k arbitrary: res s i r)
  case (Suc k)
  show ?case
  proof (cases "r_pos r < length (r_img r)")
    case True
    let ?b = "r_img r ! r_pos r"
    have rd: "read_exact (Suc 0) r = (Inr [?b], r\<lparr>r_pos := Suc (r_pos r)\<rparr>)"
      using True by (simp add: read_exact_def take_Suc_conv_app_nth Cons_nth_drop_Suc [symmetric])
    have "set (drop (r_pos r) (r_img r)) = insert ?b (set (drop (Suc (r_pos r)) (r_img r)))"
      using True by (simp add: Cons_nth_drop_Suc [symmetric])
    then have cont: "continues ?b" "\<forall>b\<in>set (drop (Suc (r_pos r)) (r_img r)). continues b"
      using Suc.prems(1) by auto
    have "i \<noteq> 9" using True Suc.prems(2,3) by simp
    then show ?thesis
      using True cont Suc.prems Suc.IH [of "r\<lparr>r_pos := Suc (r_pos r)\<rparr>" "Suc i"]
      by (simp add: rd Let_def VINT_MAX_BYTES_def continues_def)
  next
    case False
    then show ?thesis using Suc.prems by (simp add: read_exact_def)
  qed
qed simp

lemma continues_cut:
  assumes "j < length (encode_vint v)" and "b \<in> set (take j (encode_vint v))"
  shows "continues b"
proof -
  have "takeWhile continues (encode_vint v) = take (length (encode_vint v) - 1) (encode_vint v)"
    using vint_run_encode [of v "[]"] takeWhile_eq_take [of continues "encode_vint v"]
    by (simp add: vint_run_def)
  moreover have "set (take j (encode_vint v)) \<subseteq> set (take (length (encode_vint v) - 1) (encode_vint v))"
    using assms(1) by (intro set_take_subset_set_take) simp
  ultimately show ?thesis using assms(2) by (metis set_takeWhileD subsetD)
qed

text \<open>Cut before the last byte, a header reads as a clean end or as truncated, and the reader is left
  at the end of what is there.\<close>

lemma read_raw_header_cut:
  assumes body: "body \<noteq> []" "length body < 2 ^ 21" and k: "k < length (encode_block crc body)"
    and r: "r_img r = pre @ take k (encode_block crc body)" "r_pos r = length pre"
  shows "read_raw_header r = (if k < 4 then Inr None
      else Inl (TruncatedHeader (if k < 4 + length (encode_vint (of_nat (length body))) then 0 else length pre)),
    r\<lparr>r_pos := length (r_img r)\<rparr>)"
proof -
  let ?sz = "of_nat (length body) :: u64"
  let ?n = "length (encode_vint ?sz)"
  let ?r4 = "r\<lparr>r_pos := r_pos r + 4\<rparr>"
  have sz: "unat ?sz = length body" using body by (simp add: unat_of_nat)
  have img: "take k (encode_block crc body) = to_le_bytes 4 crc @ take (k - 4) (encode_vint ?sz @ body)" if "4 \<le> k"
    using that by (simp add: encode_block_def)
  show ?thesis
  proof (cases "k < 4 + ?n")
    case True
    show ?thesis
    proof (cases "k < 4")
      case True
      then show ?thesis using r by (simp add: read_raw_header_eq)
    next
      case False
      have d: "drop (r_pos ?r4) (r_img ?r4) = take (k - 4) (encode_vint ?sz)"
        using False True r by (simp add: img)
      have cont: "\<forall>b\<in>set (drop (r_pos ?r4) (r_img ?r4)). continues b"
        unfolding d using True False by (auto intro: continues_cut [of "k - 4" ?sz])
      have len: "length (r_img r) = length pre + k" using r k by simp
      have "k - 4 < 10" using True length_encode_vint(2) [of ?sz] by simp
      then have "read_vint_from ?r4 = (Inl (TruncatedHeader 0), r\<lparr>r_pos := length (r_img r)\<rparr>)"
        unfolding read_vint_from_def VINT_MAX_BYTES_def
        using False True r len
        by (intro trans [OF read_vint_from_loop_cut]) (use cont in simp_all)
      then show ?thesis using False True r len by (simp add: read_raw_header_eq)
    qed
  next
    case False
    have v: "fst (read_vint_from ?r4) = Inr (?sz, ?n)"
      unfolding read_vint_from_eq(1) using False r by (simp add: img read_vint_encode)
    have vint: "read_vint_from ?r4 = (Inr (?sz, ?n), r\<lparr>r_pos := length pre + 4 + ?n\<rparr>)"
      using v read_vint_from_eq(3) [OF v] r by (cases "read_vint_from ?r4") simp
    have "?n \<le> 3" using sz body by (intro length_encode_vint_le) simp_all
    moreover have "?sz \<noteq> 0" using body sz by (metis length_0_conv unsigned_0)
    moreover have "?sz \<le> MAX_HEADER_BODY"
      using sz body by (simp add: MAX_HEADER_BODY_def RAR5_MAX_HEADER_BODY_def word_le_nat_alt)
    ultimately have valid: "validate_header_size (r_pos r) ?sz ?n = Inr ()"
      by (simp add: validate_header_size_def MAX_HEADER_SIZE_VINT_BYTES_def not_less)
    show ?thesis
      unfolding read_raw_header_eq vint io_then_simps split_conv valid
      using False r k sz by (simp add: length_encode_block)
  qed
qed

lemma walk_cut:
  assumes body: "body \<noteq> []" "length body < 2 ^ 21" and k: "k < length (encode_block crc body)"
    and ws: "r_img (ws_reader ws) = pre @ take k (encode_block crc body)" "r_pos (ws_reader ws) = length pre"
      "length pre + k < 2 ^ 64 - 1"
  shows "\<exists>ws'. walk_headers_from cr pw qo ForFacts ws result = (Inr (Parsed result), ws')
    \<and> ws_stop ws' = length pre \<and> map_option sr_at (ws_short ws') = Some (max (length pre + 6) (length pre + k + 1))"
proof -
  have "length (r_img (ws_reader ws)) = length pre + k" using ws k by simp
  then have "\<exists>ws'. next_raw_header ForFacts ws = (Inr None, ws') \<and> ws_stop ws' = length pre
    \<and> map_option sr_at (ws_short ws') = Some (max (length pre + 6) (length pre + k + 1))"
    using read_raw_header_cut [OF body k ws(1,2)] ws
    by (simp add: next_raw_header_def absorb_short_read_def at_boundary_def truncated_def next_needed_def
        MIN_RAR5_HEADER_BYTES_def Let_def)
  then show ?thesis
    by (auto simp: walk_headers_from.simps [of cr pw qo ForFacts ws] walk_step_def)
qed

section \<open>Where the headers come from\<close>

lemma dispatch_header_provenance:
  "dispatch_header cr raw off result = Inr result' \<Longrightarrow>
     ph_headers_from_quick_open result' = ph_headers_from_quick_open result
     \<and> ph_is_encrypted result' = ph_is_encrypted result"
  by (auto simp: dispatch_header_def Let_def and_then_eq_Inr split: header_type.splits if_splits)

lemma parse_quick_open_records_loop_provenance:
  "parse_quick_open_records_loop cr off result st = Inr (Some p) \<Longrightarrow>
     ph_headers_from_quick_open p = ph_headers_from_quick_open result \<and> ph_end p \<noteq> None"
proof (induction "snd st" arbitrary: result st rule: less_induct)
  case less
  obtain raw st1 where rd: "read_quick_open_record cr st off = (Inr (Some raw), st1)"
    using less.prems
    by (subst (asm) parse_quick_open_records_loop.simps)
      (auto split: prod.splits sum.splits option.splits)
  note IH = less.hyps [OF read_quick_open_record_SomeD [OF rd]]
  show ?case
    using less.prems
    by (subst (asm) parse_quick_open_records_loop.simps)
      (auto simp: rd Let_def and_then_eq_Inr split: sum.splits header_type.splits
        dest!: dispatch_header_provenance IH)
qed

lemma try_parse_quick_open_headers_provenance:
  assumes "try_parse_quick_open_headers cr r parsed password = Inr (Some p)"
  shows "ph_headers_from_quick_open p" "ph_end p \<noteq> None"
  using assms
  by (auto simp: try_parse_quick_open_headers_def parse_quick_open_headers_at_def
      parse_encrypted_quick_open_records_def parse_quick_open_records_def Let_def and_then_eq_Inr
      split: option.splits sum.splits prod.splits if_splits
      dest!: parse_quick_open_records_loop_provenance)

lemma try_parse_quick_open_headers_total: "try_parse_quick_open_headers cr r parsed password \<noteq> Inl e"
  by (auto simp: try_parse_quick_open_headers_def split: option.split sum.split)

lemma parse_encrypted_headers_provenance:
  "parse_encrypted_headers cr key scan ws result = (Inr p, ws') \<Longrightarrow>
     ph_headers_from_quick_open p = ph_headers_from_quick_open result
     \<and> ph_is_encrypted p = ph_is_encrypted result"
proof (induction cr key scan ws result rule: parse_encrypted_headers.induct)
  case (1 cr key scan ws result)
  have eq: "(case encrypted_step cr key scan ws result of Done answer ws \<Rightarrow> (answer, ws)
      | Continue ws result \<Rightarrow> parse_encrypted_headers cr key scan ws result) = (Inr p, ws')"
    using "1.prems" by (subst (asm) parse_encrypted_headers.simps)
  show ?case
  proof (cases "encrypted_step cr key scan ws result")
    case (Continue ws1 result1)
    have "ph_headers_from_quick_open result1 = ph_headers_from_quick_open result
        \<and> ph_is_encrypted result1 = ph_is_encrypted result"
      using Continue by (auto simp: encrypted_step_def dest!: dispatch_header_provenance
          split: prod.splits sum.splits option.splits if_splits)
    then show ?thesis using "1.IH" [OF Continue] eq by (simp add: Continue)
  next
    case (Done answer ws1)
    then have "encrypted_step cr key scan ws result = Done (Inr p) ws'" using eq by simp
    then show ?thesis
      by (auto simp: encrypted_step_def and_then_eq_Inr dest!: dispatch_header_provenance
          split: prod.splits sum.splits option.splits if_splits)
  qed
qed

lemma enter_encrypted_provenance:
  "enter_encrypted cr pw scan raw ws result = (Inr (Parsed p), ws') \<Longrightarrow>
     ph_headers_from_quick_open p = ph_headers_from_quick_open result \<and> ph_is_encrypted p"
  by (auto simp: enter_encrypted_def Let_def and_then_eq_Inr map_prod_def
      split: sum.splits option.splits if_splits prod.splits
      dest!: parse_encrypted_headers_provenance)

text \<open>One step with the cache and one without differ only where the cache answers.\<close>

lemma walk_step_quick_open:
  "walk_step cr pw True scan ws result = walk_step cr pw False scan ws result
   \<or> (\<exists>p ws'. walk_step cr pw True scan ws result = Done (Inr (Parsed p)) ws'
        \<and> (\<exists>r parsed. r_img r = r_img (ws_reader ws)
            \<and> try_parse_quick_open_headers cr r parsed pw = Inr (Some p)))"
proof (cases "next_raw_header scan ws")
  case (Pair m ws1)
  show ?thesis
  proof (cases "\<exists>raw. m = Inr (Some raw) \<and> rh_header_type raw = MainArchive")
    case True
    then obtain raw where raw: "m = Inr (Some raw)" "rh_header_type raw = MainArchive" by blast
    have "r_img (ws_reader ws1) = r_img (ws_reader ws)"
      using next_raw_header_SomeD [of scan ws raw ws1] Pair raw by (auto dest: read_raw_header_InrD(6))
    then show ?thesis
      by (auto simp: walk_step_def walk_step_of_def Pair raw try_parse_quick_open_headers_total
          split: sum.split option.split)
  next
    case False
    then show ?thesis by (auto simp: walk_step_def walk_step_of_def Pair split: sum.split option.split)
  qed
qed

lemma walk_step_provenance:
  "walk_step cr pw False scan ws result = Done (Inr (Parsed p)) ws' \<Longrightarrow>
     ph_headers_from_quick_open p = ph_headers_from_quick_open result"
  "walk_step cr pw qo scan ws result = Continue ws' result' \<Longrightarrow>
     ph_headers_from_quick_open result' = ph_headers_from_quick_open result"
  by (auto simp: walk_step_def walk_step_of_def skip_to_next_def and_then_eq_Inr
      split: prod.splits sum.splits option.splits if_splits
      dest!: enter_encrypted_provenance dispatch_header_provenance)

lemma walk_headers_from_provenance:
  assumes "walk_headers_from cr pw True scan ws result = (Inr (Parsed p), ws')"
    and "\<not> ph_headers_from_quick_open result"
  shows "if ph_headers_from_quick_open p
    then \<exists>r before. r_img r = r_img (ws_reader ws) \<and> try_parse_quick_open_headers cr r before pw = Inr (Some p)
    else walk_headers_from cr pw False scan ws result = (Inr (Parsed p), ws')"
  using assms
proof (induction cr pw "True" scan ws result rule: walk_headers_from.induct)
  case (1 cr pw scan ws result)
  have eq: "(case walk_step cr pw True scan ws result of Done answer ws \<Rightarrow> (answer, ws)
      | Continue ws result \<Rightarrow> walk_headers_from cr pw True scan ws result) = (Inr (Parsed p), ws')"
    using "1.prems"(1) by (subst (asm) walk_headers_from.simps)
  note unfold = walk_headers_from.simps [of cr pw False scan ws result]
  from walk_step_quick_open [of cr pw scan ws result] show ?case
  proof
    assume same: "walk_step cr pw True scan ws result = walk_step cr pw False scan ws result"
    show ?thesis
    proof (cases "walk_step cr pw True scan ws result")
      case (Continue ws1 result1)
      then show ?thesis
        using "1.hyps" [OF Continue] eq "1.prems"(2) walk_step_provenance(2) [OF Continue]
          walk_step_ContinueD [OF Continue]
        by (auto simp: unfold same [symmetric] Continue split: if_splits)
    next
      case (Done answer ws1)
      then have "walk_step cr pw False scan ws result = Done (Inr (Parsed p)) ws'" using eq same by simp
      then show ?thesis using walk_step_provenance(1) "1.prems"(2) by (simp add: unfold)
    qed
  next
    assume "\<exists>q ws'. walk_step cr pw True scan ws result = Done (Inr (Parsed q)) ws'
      \<and> (\<exists>r parsed. r_img r = r_img (ws_reader ws)
          \<and> try_parse_quick_open_headers cr r parsed pw = Inr (Some q))"
    then show ?thesis using eq try_parse_quick_open_headers_provenance(1) by fastforce
  qed
qed

text \<open>An answer of the Quick Open cache of a volume, which is flagged as one.\<close>

definition cache_answer :: "crypto \<Rightarrow> bytes \<Rightarrow> rstring option \<Rightarrow> parsed_headers \<Rightarrow> bool" where
  "cache_answer cr img pw p \<longleftrightarrow> ph_headers_from_quick_open p
     \<and> (\<exists>r before. r_img r = img \<and> try_parse_quick_open_headers cr r before pw = Inr (Some p))"

text \<open>A walk that may ask the cache is the physical walk, or it ends with the cache's answer.\<close>

lemma walk_quick_open_cases:
  "walk_headers_from cr pw qo scan ws result = walk_headers_from cr pw False scan ws result
   \<or> (qo \<and> (\<exists>p ws'. walk_headers_from cr pw qo scan ws result = (Inr (Parsed p), ws')
        \<and> cache_answer cr (r_img (ws_reader ws)) pw p))"
proof (cases qo)
  case True
  have "walk_headers_from cr pw True scan ws result = walk_headers_from cr pw False scan ws result
   \<or> (\<exists>p ws'. walk_headers_from cr pw True scan ws result = (Inr (Parsed p), ws')
        \<and> cache_answer cr (r_img (ws_reader ws)) pw p)"
  proof (induction cr pw "True" scan ws result rule: walk_headers_from.induct)
    case (1 cr pw scan ws result)
    note unfold = walk_headers_from.simps [of cr pw _ scan ws result]
    from walk_step_quick_open [of cr pw scan ws result] show ?case
    proof
      assume same: "walk_step cr pw True scan ws result = walk_step cr pw False scan ws result"
      show ?thesis
      proof (cases "walk_step cr pw True scan ws result")
        case (Continue ws1 result1)
        then show ?thesis
          using "1.hyps" [OF Continue] walk_step_ContinueD [OF Continue] by (simp add: unfold same [symmetric])
      next
        case (Done answer ws1)
        then show ?thesis by (simp add: unfold same [symmetric])
      qed
    next
      assume "\<exists>q ws'. walk_step cr pw True scan ws result = Done (Inr (Parsed q)) ws'
        \<and> (\<exists>r parsed. r_img r = r_img (ws_reader ws)
            \<and> try_parse_quick_open_headers cr r parsed pw = Inr (Some q))"
      then show ?thesis
        using try_parse_quick_open_headers_provenance(1) by (fastforce simp: unfold cache_answer_def)
    qed
  qed
  then show ?thesis using True by simp
qed simp



section \<open>Concrete volumes\<close>

text \<open>Bounds of the stream positions, compared as binary integers when they are evaluated.\<close>

lemma stream_bounds_code [code]:
  "offset_checked_add base off = (if int base + uint off < 2 ^ 64 then Some (base + unat off) else None)"
  "seek_forward n r = (if int (r_pos r) + int n < 2 ^ 64 then (Inr (), r\<lparr>r_pos := r_pos r + n\<rparr>)
     else (Inl (Io InvalidInput), r))"
  "next_needed r floor = (if int (r_pos r) < 2 ^ 64 - 2 then max floor (r_pos r + 1)
     else max floor (min (r_pos r + 1) (2 ^ 64 - 1)))"
proof -
  have big: "int x < 2 ^ k \<longleftrightarrow> x < 2 ^ k" for x k :: nat by (metis of_nat_less_iff of_nat_numeral of_nat_power)
  have "int base + uint off = int (base + unat off)" by simp
  then show "offset_checked_add base off = (if int base + uint off < 2 ^ 64 then Some (base + unat off) else None)"
    by (simp only: offset_checked_add_def big)
  have "int (r_pos r) + int n = int (r_pos r + n)" by simp
  then show "seek_forward n r = (if int (r_pos r) + int n < 2 ^ 64 then (Inr (), r\<lparr>r_pos := r_pos r + n\<rparr>)
     else (Inl (Io InvalidInput), r))"
    by (simp only: seek_forward_def big)
  show "next_needed r floor = (if int (r_pos r) < 2 ^ 64 - 2 then max floor (r_pos r + 1)
     else max floor (min (r_pos r + 1) (2 ^ 64 - 1)))"
    by (simp add: next_needed_def)
qed

text \<open>A main header, a stored file of three bytes and its data, and an end record; the ciphers and
  digests are never asked.\<close>

definition no_crypto :: crypto where
  "no_crypto = \<lparr>cr_sha256 = (\<lambda>_. []), cr_crc32 = (\<lambda>_. 0), cr_compress256 = (\<lambda>st _. st),
     cr_cbc_dec = (\<lambda>_ _ block. block)\<rparr>"

definition sample_main :: bytes where "sample_main = [1, 0, 0]"

definition sample_file :: bytes where "sample_file = [2, 2, 3, 0, 3, 0, 0, 0, 1, 0x61]"

definition sample_end :: bytes where "sample_end = [5, 0, 0]"

definition sample_blocks :: "block list" where
  "sample_blocks = [(0, sample_main, []), (7, sample_file, [10, 11, 12])]"

lemma sample_fields:
  "read_common_fields sample_main = Inr (1, 0, 0, 0, 2)"
  "read_common_fields sample_file = Inr (2, 2, 0, 3, 3)"
  "read_common_fields sample_end = Inr (5, 0, 0, 0, 2)"
  by code_simp+

lemma sample_blocks_ok: "\<forall>b\<in>set sample_blocks. block_ok b"
proof -
  have "length sample_main = 3" "length sample_file = 10" by code_simp+
  then show ?thesis
    by (simp add: sample_blocks_def block_ok_def sample_fields header_type_from_def)
qed

lemma sample_lengths:
  "length (concat (map encode_volume_block sample_blocks)) = 26" "length sample_end = 3"
  "length (encode_block 9 sample_end) = 8"
  by code_simp+

text \<open>A main header whose locator points at a Quick Open block with one cached end record.\<close>

definition quick_open_volume :: bytes where
  "quick_open_volume = encode_block 0 [1, 1, 4, 0, 3, 1, 1, 13]
     @ encode_block 0 [3, 2, 16, 0, 16, 0, 0, 0, 2, 0x51, 0x4F]
     @ encode_block 0 ([0, 13, 8] @ encode_block 0 sample_end)"

section \<open>Properties\<close>

text \<open>C6: on a volume written block by block and closed by an end-of-archive record, a full walk (for
  decoding or for facts) takes exactly the blocks that were written, in order and each at its own
  offset, steps over their data areas, and returns what taking them gives; the bytes after the end
  record do not matter. With Quick Open allowed there is one other outcome: the flagged answer of the
  volume's own cache, from which the headers were then taken instead.\<close>

theorem walk_takes_every_block:
  assumes "\<forall>b\<in>set blocks. block_ok b" and "scan = ForDecode \<or> scan = ForFacts"
    and "read_common_fields end_body = Inr (5, fl, extra, data, pos)" and "length end_body < 2 ^ 21"
    and "img = signature @ concat (map encode_volume_block blocks) @ encode_block crc end_body @ rest"
    and "length img < 2 ^ 64"
  shows "parse_headers_with_scan cr \<lparr>r_img = img, r_pos = length signature\<rparr> password qo scan =
    and_then (dispatch_all cr (length signature) blocks empty_parsed_headers) (\<lambda>result.
    and_then (block_raw (length (signature @ concat (map encode_volume_block blocks))) crc end_body) (\<lambda>raw.
    and_then (end_archive_parse raw) (\<lambda>end_hdr. Inr (result\<lparr>ph_end := Some end_hdr\<rparr>))))
   \<or> (qo \<and> (\<exists>p. parse_headers_with_scan cr \<lparr>r_img = img, r_pos = length signature\<rparr> password qo scan = Inr p
        \<and> cache_answer cr img password p))"
proof -
  let ?ws = "start_at \<lparr>r_img = img, r_pos = length signature\<rparr>"
  obtain ws' where ws': "r_img (ws_reader ws') = img"
      "r_pos (ws_reader ws') = length (signature @ concat (map encode_volume_block blocks))" and
    w: "fst (walk_headers_from cr password False scan ?ws empty_parsed_headers) =
        and_then (dispatch_all cr (length signature) blocks empty_parsed_headers)
          (\<lambda>result. fst (walk_headers_from cr password False scan ws' result))"
    using walk_blocks [OF assms(1,2), of ?ws signature "encode_block crc end_body @ rest" cr password
        empty_parsed_headers] assms(5,6)
    by (auto simp: start_at_def)
  have "fst (walk_headers_from cr password False scan ws' result) =
    and_then (block_raw (length (signature @ concat (map encode_volume_block blocks))) crc end_body) (\<lambda>raw.
    and_then (end_archive_parse raw) (\<lambda>end_hdr. Inr (Parsed (result\<lparr>ph_end := Some end_hdr\<rparr>))))" for result
    using ws' assms(5) by (intro walk_end [OF assms(3,4), where rest = rest]) simp_all
  note physical = w [unfolded this]
  have "r_img (ws_reader ?ws) = img" by (simp add: start_at_def)
  with walk_quick_open_cases [of cr password qo scan ?ws empty_parsed_headers] show ?thesis
    unfolding parse_headers_with_scan_def walk_all_headers_def
    by (elim disjE) (simp add: physical and_then_assoc, auto)
qed

theorem walk_takes_every_block_witness:
  "parse_headers_with_scan no_crypto \<lparr>r_img = [1, 2] @ concat (map encode_volume_block sample_blocks)
        @ encode_block 9 sample_end @ [3], r_pos = 2\<rparr> None True ForDecode =
    and_then (dispatch_all no_crypto 2 sample_blocks empty_parsed_headers) (\<lambda>result.
    and_then (block_raw 28 9 sample_end) (\<lambda>raw.
    and_then (end_archive_parse raw) (\<lambda>end_hdr. Inr (result\<lparr>ph_end := Some end_hdr\<rparr>))))"
proof -
  let ?img = "[1, 2] @ concat (map encode_volume_block sample_blocks) @ encode_block 9 sample_end @ [3]"
  have "(case parse_headers_with_scan no_crypto \<lparr>r_img = ?img, r_pos = 2\<rparr> None True ForDecode of
      Inr p \<Rightarrow> \<not> ph_headers_from_quick_open p | Inl _ \<Rightarrow> False)" by code_simp
  then have "\<not> (\<exists>p. parse_headers_with_scan no_crypto \<lparr>r_img = ?img, r_pos = 2\<rparr> None True ForDecode = Inr p
      \<and> cache_answer no_crypto ?img None p)" by (auto simp: cache_answer_def)
  then show ?thesis
    using walk_takes_every_block [OF sample_blocks_ok _ sample_fields(3) _ refl, of ForDecode "[1, 2]" 9 "[3]"
        no_crypto None True]
    by (auto simp: sample_lengths simp flip: numeral_2_eq_2)
qed

text \<open>C9: a facts walk over a volume that ends inside a header reports exactly the complete blocks
  before it, says that header is where it stopped, and asks for a position past the last byte it
  has and no further than that header's own frame or the smallest one. With Quick Open allowed there
  is one other outcome: the flagged answer of a cache that has arrived in full.\<close>

theorem facts_walk_of_cut_volume:
  assumes "\<forall>b\<in>set blocks. block_ok b" and "body \<noteq> []" and "length body < 2 ^ 21"
    and "k < length (encode_block crc body)"
    and "start = length (signature @ concat (map encode_volume_block blocks))"
    and "img = signature @ concat (map encode_volume_block blocks) @ take k (encode_block crc body)"
    and "length img < 2 ^ 64 - 1"
    and "dispatch_all cr (length signature) blocks empty_parsed_headers = Inr complete"
  shows "\<exists>parsed ws. walk_all_headers cr \<lparr>r_img = img, r_pos = length signature\<rparr> password qo ForFacts =
      (Inr (Parsed parsed), ws)
    \<and> (parsed = complete \<and> ws_stop ws = start
        \<and> (\<exists>sr. ws_short ws = Some sr \<and> length img < sr_at sr
            \<and> sr_at sr \<le> start + max MIN_RAR5_HEADER_BYTES (length (encode_block crc body)))
      \<or> qo \<and> cache_answer cr img password parsed)"
proof -
  let ?ws = "start_at \<lparr>r_img = img, r_pos = length signature\<rparr>"
  obtain ws' where ws': "r_img (ws_reader ws') = img" "r_pos (ws_reader ws') = start" and
    w: "walk_headers_from cr password False ForFacts ?ws empty_parsed_headers =
        walk_headers_from cr password False ForFacts ws' complete"
    using walk_blocks [OF assms(1), of ForFacts ?ws signature "take k (encode_block crc body)" cr password
        empty_parsed_headers] assms(5-8)
    by (auto simp: start_at_def)
  have "\<exists>ws. walk_headers_from cr password False ForFacts ws' complete = (Inr (Parsed complete), ws)
    \<and> ws_stop ws = start \<and> map_option sr_at (ws_short ws) = Some (max (start + 6) (start + k + 1))"
    using walk_cut [OF assms(2-4), of ws' "signature @ concat (map encode_volume_block blocks)"] ws' assms(4-7)
    by simp
  then obtain ws sr where physical: "walk_headers_from cr password False ForFacts ?ws empty_parsed_headers =
      (Inr (Parsed complete), ws)" "ws_stop ws = start" "ws_short ws = Some sr"
      "sr_at sr = max (start + 6) (start + k + 1)"
    unfolding w by auto
  have "length img = start + k" using assms(4-6) by simp
  then have bounds: "length img < sr_at sr"
      "sr_at sr \<le> start + max MIN_RAR5_HEADER_BYTES (length (encode_block crc body))"
    using assms(4) physical(4) by (auto simp: MIN_RAR5_HEADER_BYTES_def)
  from walk_quick_open_cases [of cr password qo ForFacts ?ws empty_parsed_headers] show ?thesis
    unfolding walk_all_headers_def using physical bounds by (auto simp: start_at_def)
qed

theorem facts_walk_of_cut_volume_witness:
  "\<exists>complete ws. dispatch_all no_crypto 0 sample_blocks empty_parsed_headers = Inr complete
    \<and> length (ph_files complete) = 1
    \<and> walk_all_headers no_crypto \<lparr>r_img = concat (map encode_volume_block sample_blocks)
        @ take 7 (encode_block 9 sample_end), r_pos = 0\<rparr> None True ForFacts = (Inr (Parsed complete), ws)
    \<and> ws_stop ws = 26 \<and> (\<exists>sr. ws_short ws = Some sr \<and> sr_at sr = 34)"
proof -
  let ?img = "concat (map encode_volume_block sample_blocks) @ take 7 (encode_block 9 sample_end)"
  have files: "(case dispatch_all no_crypto 0 sample_blocks empty_parsed_headers of
      Inr complete \<Rightarrow> length (ph_files complete) = 1 | Inl _ \<Rightarrow> False)" by code_simp
  then obtain complete where c: "dispatch_all no_crypto 0 sample_blocks empty_parsed_headers = Inr complete"
      "length (ph_files complete) = 1" by (auto split: sum.splits)
  have "(case walk_all_headers no_crypto \<lparr>r_img = ?img, r_pos = 0\<rparr> None True ForFacts of
      (Inr (Parsed p), ws) \<Rightarrow> \<not> ph_headers_from_quick_open p | _ \<Rightarrow> False)" by code_simp
  then have none: "\<not> cache_answer no_crypto ?img None parsed"
    if "walk_all_headers no_crypto \<lparr>r_img = ?img, r_pos = 0\<rparr> None True ForFacts = (Inr (Parsed parsed), ws)"
    for parsed ws
    using that by (auto simp: cache_answer_def)
  have "sample_end \<noteq> []" using sample_lengths(2) by auto
  then obtain parsed ws where p: "walk_all_headers no_crypto \<lparr>r_img = ?img, r_pos = 0\<rparr> None True ForFacts =
      (Inr (Parsed parsed), ws)" and
    alt: "parsed = complete \<and> ws_stop ws = 26 \<and> (\<exists>sr. ws_short ws = Some sr \<and> 33 < sr_at sr \<and> sr_at sr \<le> 34)
      \<or> cache_answer no_crypto ?img None parsed"
    using facts_walk_of_cut_volume [OF sample_blocks_ok, of sample_end 7 9 26 "[]" _ no_crypto complete None True] c
    by (auto simp: MIN_RAR5_HEADER_BYTES_def sample_lengths)
  then show ?thesis using c none [OF p] p by (intro exI [of _ complete] exI [of _ ws]) auto
qed

text \<open>C8: the provenance flag is truthful. A result that is not flagged is the one the physical walk
  gives, down to where it stopped, so nothing is lost by not reading the headers again; a flagged
  one is an answer of the Quick Open cache and nothing else.\<close>

theorem quick_open_provenance:
  assumes "walk_all_headers cr r password True scan = (Inr (Parsed parsed), ws)"
  shows "if ph_headers_from_quick_open parsed
    then \<exists>r' before. r_img r' = r_img r \<and> try_parse_quick_open_headers cr r' before password = Inr (Some parsed)
    else walk_all_headers cr r password False scan = (Inr (Parsed parsed), ws)"
proof -
  have "\<not> ph_headers_from_quick_open empty_parsed_headers" by (simp add: empty_parsed_headers_def)
  from walk_headers_from_provenance [OF assms [unfolded walk_all_headers_def] this] show ?thesis
    by (auto simp: walk_all_headers_def start_at_def split: if_splits)
qed

theorem quick_open_provenance_witness:
  "\<exists>parsed ws. walk_all_headers no_crypto \<lparr>r_img = quick_open_volume, r_pos = 0\<rparr> None True ForDecode =
      (Inr (Parsed parsed), ws)
    \<and> ph_headers_from_quick_open parsed
    \<and> (\<exists>r' before. r_img r' = quick_open_volume
        \<and> try_parse_quick_open_headers no_crypto r' before None = Inr (Some parsed))"
proof -
  have "(case walk_all_headers no_crypto \<lparr>r_img = quick_open_volume, r_pos = 0\<rparr> None True ForDecode of
      (Inr (Parsed parsed), ws) \<Rightarrow> ph_headers_from_quick_open parsed | _ \<Rightarrow> False)" by code_simp
  then obtain parsed ws where w: "walk_all_headers no_crypto \<lparr>r_img = quick_open_volume, r_pos = 0\<rparr> None True ForDecode =
      (Inr (Parsed parsed), ws)" "ph_headers_from_quick_open parsed"
    by (auto split: prod.splits sum.splits header_walk.splits)
  then show ?thesis using quick_open_provenance [OF w(1)] by auto
qed



end
