(* ===== verification/Rar5_Resume.thy ===== *)
theory Rar5_Resume
  imports Rar5_Walk_Props
begin

text \<open>
  Resuming a facts walk over a volume that has grown. \<open>resume_headers_for_facts\<close> of
  \<open>unrar-rs/src/header/mod.rs\<close> starts at the header an earlier walk stopped at, from a result that
  holds only the main and the encryption header of that walk, and asks the Quick Open cache or checks
  the password again; it finds what a walk from the signature over the longer volume finds.
\<close>

section \<open>More bytes behind a complete header\<close>

definition more_reader :: "bytes \<Rightarrow> reader \<Rightarrow> reader" where
  "more_reader later r = r\<lparr>r_img := r_img r @ later\<rparr>"

definition more_state :: "bytes \<Rightarrow> walk_state \<Rightarrow> walk_state" where
  "more_state later ws = ws\<lparr>ws_reader := more_reader later (ws_reader ws)\<rparr>"

lemma more_simps [simp]:
  "r_img (more_reader later r) = r_img r @ later" "r_pos (more_reader later r) = r_pos r"
  "more_reader later (r\<lparr>r_pos := p\<rparr>) = (more_reader later r)\<lparr>r_pos := p\<rparr>"
  "ws_reader (more_state later ws) = more_reader later (ws_reader ws)"
  "ws_short (more_state later ws) = ws_short ws" "ws_stop (more_state later ws) = ws_stop ws"
  by (simp_all add: more_reader_def more_state_def)

lemma read_vint_append:
  assumes "read_vint data = Inr (v, n)"
  shows "read_vint (data @ later) = Inr (v, n)"
proof -
  have run: "vint_run data < length data" using assms by (auto simp: read_vint_eq split: if_splits)
  then have "\<not> (\<forall>b\<in>set data. continues b)"
    by (metis takeWhile_eq_all_conv less_irrefl vint_run_def)
  then have "vint_run (data @ later) = vint_run data"
    by (auto simp: vint_run_def takeWhile_append1)
  then show ?thesis using assms run by (auto simp: read_vint_eq split: if_splits)
qed

text \<open>A header that was read in full reads the same when more bytes follow.\<close>

lemma read_raw_header_append:
  assumes "read_raw_header r = (Inr (Some raw), r')"
  shows "read_raw_header (more_reader later r) = (Inr (Some raw), more_reader later r')"
proof -
  let ?n = "rh_header_size_vint_len raw" and ?sz = "rh_header_size raw"
  let ?r4 = "r\<lparr>r_pos := r_pos r + 4\<rparr>"
  note D = read_raw_header_InrD [OF assms]
  have len: "r_pos r + 4 + ?n + unat ?sz \<le> length (r_img r)" using D(6,7) by simp
  have "fst (read_vint_from ?r4) = Inr (?sz, ?n)"
    using assms D(9) by (auto simp: read_raw_header_eq parse_raw_header_from_parts_def result_simps split: if_splits prod.splits)
  then have "read_vint (drop (r_pos r + 4) (r_img r)) = Inr (?sz, ?n)" by (simp add: read_vint_from_eq(1))
  then have v: "fst (read_vint_from (more_reader later ?r4)) = Inr (?sz, ?n)"
    using len by (simp add: read_vint_from_eq(1) read_vint_append)
  have "read_vint_from (more_reader later ?r4) = (Inr (?sz, ?n), more_reader later (r\<lparr>r_pos := r_pos r + 4 + ?n\<rparr>))"
    using v read_vint_from_eq(3) [OF v] by (cases "read_vint_from (more_reader later ?r4)") simp
  moreover have "validate_header_size (r_pos r) ?sz ?n = Inr ()"
    using D(9) by (auto simp: parse_raw_header_from_parts_def and_then_eq_Inr)
  moreover have "rh_crc32 raw = from_le_bytes (take 4 (drop (r_pos r) (r_img r)))"
    using assms by (auto simp: read_raw_header_eq parse_raw_header_from_parts_def result_simps split: if_splits prod.splits)
  ultimately show ?thesis
    using len D(6,8,9) by (simp add: read_raw_header_eq)
qed

lemma next_raw_header_append:
  assumes "next_raw_header scan ws = (Inr (Some raw), ws')"
  shows "next_raw_header scan (more_state later ws) = (Inr (Some raw), more_state later ws')"
proof -
  note D = next_raw_header_SomeD [OF assms]
  have "read_raw_header (ws_reader (more_state later ws)) = (Inr (Some raw), more_reader later (ws_reader ws'))"
    using D by (simp add: read_raw_header_append)
  moreover have "(more_state later ws)\<lparr>ws_stop := r_pos (ws_reader ws), ws_reader := more_reader later (ws_reader ws'),
      ws_short := ws_short ws\<rparr> = more_state later ws'"
    using D by (simp add: more_state_def)
  ultimately show ?thesis by (simp add: next_raw_header_def absorb_short_read_def)
qed

lemma skip_to_next_append:
  "skip_to_next raw ws result = Continue ws' result' \<Longrightarrow>
     skip_to_next raw (more_state later ws) result = Continue (more_state later ws') result'"
  by (auto simp: skip_to_next_def skip_data_area_def seek_forward_def more_state_def more_reader_def
      split: if_splits)

lemma try_parse_quick_open_headers_cong:
  assumes "r_img r = r_img r'" "ph_main parsed = ph_main parsed'"
  shows "try_parse_quick_open_headers cr r parsed pw = try_parse_quick_open_headers cr r' parsed' pw"
proof -
  have "seek_start off r = seek_start off r'" for off using assms(1) by (simp add: seek_start_def)
  then show ?thesis using assms(2)
    by (simp add: try_parse_quick_open_headers_def parse_quick_open_headers_at_def split: option.split)
qed

lemma dispatch_header_main:
  assumes "dispatch_header cr raw off result = Inr result'"
  shows "rh_header_type raw \<noteq> MainArchive \<Longrightarrow> ph_main result' = ph_main result"
    "rh_header_type raw = MainArchive \<Longrightarrow> ph_main result' \<noteq> None"
    "ph_end result' = ph_end result" "ph_encryption result' = ph_encryption result"
  using assms by (auto simp: dispatch_header_def Let_def and_then_eq_Inr split: header_type.splits if_splits)

lemma keeps_short:
  "walk_step cr pw qo scan ws result = Continue ws' result' \<Longrightarrow> ws_short ws' = ws_short ws"
  by (auto simp: walk_step_def split: prod.splits sum.splits option.splits
      dest!: walk_step_of_ContinueD skip_to_next_ContinueD next_raw_header_SomeD)

section \<open>The plaintext part\<close>

text \<open>What the cache of a volume says to a walk that has read the given main header.\<close>

definition ask_cache ::
  "crypto \<Rightarrow> bytes \<Rightarrow> rstring option \<Rightarrow> main_archive_header option \<Rightarrow> parsed_headers option rar_result" where
  "ask_cache cr img pw main =
     try_parse_quick_open_headers cr \<lparr>r_img = img, r_pos = 0\<rparr> (empty_parsed_headers\<lparr>ph_main := main\<rparr>) pw"

lemma ask_cache:
  "r_img r = img \<Longrightarrow> try_parse_quick_open_headers cr r result pw = ask_cache cr img pw (ph_main result)"
  by (auto simp: ask_cache_def intro: try_parse_quick_open_headers_cong)

text \<open>A step that went on goes on in the longer volume too, where the cache has no answer there.\<close>

lemma walk_step_append:
  assumes step: "walk_step cr pw False ForFacts ws result = Continue ws' result'"
    and silent: "\<lbrakk>qo; ph_main result' \<noteq> None\<rbrakk> \<Longrightarrow>
      ask_cache cr (r_img (ws_reader ws) @ later) pw (ph_main result') = Inr None"
  shows "walk_step cr pw qo ForFacts (more_state later ws) result = Continue (more_state later ws') result'"
proof -
  obtain raw ws1 where 1: "next_raw_header ForFacts ws = (Inr (Some raw), ws1)"
    and 2: "walk_step_of cr pw False ForFacts raw ws1 result = Continue ws' result'"
    using step by (auto simp: walk_step_def split: prod.splits sum.splits option.splits)
  note 3 = walk_step_of_ContinueD [OF 2]
  have ty: "rh_header_type raw \<noteq> Encryption" "rh_header_type raw \<noteq> EndArchive"
    using 2 by (auto simp: walk_step_of_def split: prod.splits)
  have img: "r_img (ws_reader ws1) = r_img (ws_reader ws)"
    using next_raw_header_SomeD [OF 1] by (auto dest: read_raw_header_InrD(6))
  have "try_parse_quick_open_headers cr (more_reader later (ws_reader ws1)) result' pw = Inr None"
    if "qo" "rh_header_type raw = MainArchive"
    using silent that dispatch_header_main(2) [OF conjunct1 [OF 3]] img
    by (simp add: ask_cache [of _ "r_img (ws_reader ws) @ later"])
  then show ?thesis
    using 3 ty skip_to_next_append [OF conjunct2 [OF 3], of later]
    by (cases qo)
      (auto simp: walk_step_def next_raw_header_append [OF 1] walk_step_of_def reached_file_limit_def)
qed

text \<open>Where the cache does answer, the step that takes the main header is the last.\<close>

lemma walk_step_cached:
  assumes step: "walk_step cr pw False ForFacts ws result = Continue ws' result'"
    and main: "ph_main result = None" "ph_main result' \<noteq> None"
    and answer: "ask_cache cr (r_img (ws_reader ws) @ later) pw (ph_main result') = Inr (Some q)"
  shows "\<exists>ws2. walk_step cr pw True ForFacts (more_state later ws) result = Done (Inr (Parsed q)) ws2
    \<and> ws_short ws2 = ws_short ws"
proof -
  obtain raw ws1 where 1: "next_raw_header ForFacts ws = (Inr (Some raw), ws1)"
    and 2: "walk_step_of cr pw False ForFacts raw ws1 result = Continue ws' result'"
    using step by (auto simp: walk_step_def split: prod.splits sum.splits option.splits)
  note 3 = walk_step_of_ContinueD [OF 2]
  have ty: "rh_header_type raw = MainArchive"
    using dispatch_header_main(1) [OF conjunct1 [OF 3]] main by auto
  have "r_img (ws_reader ws1) = r_img (ws_reader ws)"
    using next_raw_header_SomeD [OF 1] by (auto dest: read_raw_header_InrD(6))
  then have "try_parse_quick_open_headers cr (more_reader later (ws_reader ws1)) result' pw = Inr (Some q)"
    using answer by (simp add: ask_cache [of _ "r_img (ws_reader ws) @ later"])
  then show ?thesis
    using 3 ty next_raw_header_SomeD [OF 1]
    by (simp add: walk_step_def next_raw_header_append [OF 1] walk_step_of_def)
qed

lemma walk_ignores_stop:
  "walk_headers_from cr pw qo scan (ws\<lparr>ws_stop := x\<rparr>) result = walk_headers_from cr pw qo scan ws result"
proof -
  have "next_raw_header scan (ws\<lparr>ws_stop := x\<rparr>) = next_raw_header scan ws"
    by (simp add: next_raw_header_def)
  then show ?thesis
    by (subst (1 2) walk_headers_from.simps) (simp add: walk_step_def)
qed

text \<open>The last step of a walk that met no encryption header: what it returns is what it had, but for
  the end record, and where it stopped is where it was.\<close>

lemma walk_step_DoneD:
  assumes "walk_step cr pw False ForFacts ws result = Done (Inr (Parsed p)) ws'" "\<not> ph_is_encrypted p"
  shows "ws_stop ws' = r_pos (ws_reader ws)" "p\<lparr>ph_end := ph_end result\<rparr> = result"
proof -
  obtain m ws1 where 1: "next_raw_header ForFacts ws = (m, ws1)" by (cases "next_raw_header ForFacts ws")
  have stop: "ws_stop ws1 = r_pos (ws_reader ws)"
    using 1 by (auto simp: next_raw_header_def Let_def split: prod.splits sum.splits option.splits)
  consider "m = Inr None" | raw where "m = Inr (Some raw)" using assms 1
    by (auto simp: walk_step_def split: sum.splits option.splits)
  then have "ws_stop ws' = r_pos (ws_reader ws) \<and> p\<lparr>ph_end := ph_end result\<rparr> = result"
  proof cases
    case 1
    then show ?thesis using assms \<open>next_raw_header ForFacts ws = (m, ws1)\<close> stop by (simp add: walk_step_def)
  next
    case 2
    then have "rh_header_type raw = EndArchive"
      using assms 1
      by (auto simp: walk_step_def walk_step_of_def skip_to_next_def reached_file_limit_def
          split: if_splits sum.splits prod.splits dest: enter_encrypted_provenance)
    then show ?thesis
      using assms 1 2 stop by (auto simp: walk_step_def walk_step_of_def and_then_eq_Inr)
  qed
  then show "ws_stop ws' = r_pos (ws_reader ws)" "p\<lparr>ph_end := ph_end result\<rparr> = result" by blast+
qed

text \<open>No main header but the given one is on record at any point of the plaintext part of a walk.\<close>

function keeps_main ::
  "crypto \<Rightarrow> rstring option \<Rightarrow> main_archive_header option \<Rightarrow> walk_state \<Rightarrow> parsed_headers \<Rightarrow> bool" where
  "keeps_main cr pw main ws result =
     (case walk_step cr pw False ForFacts ws result of
        Done _ _ \<Rightarrow> True
      | Continue ws' result' \<Rightarrow>
          (ph_main result' = None \<or> ph_main result' = main) \<and> keeps_main cr pw main ws' result')"
  by pat_completeness auto
termination
  by (relation "measure (\<lambda>(cr, pw, main, ws, result). length (r_img (ws_reader ws)) - r_pos (ws_reader ws))")
    (auto dest!: walk_step_ContinueD intro: diff_less_mono2)

declare keeps_main.simps [simp del]

definition resumed_at :: "bytes \<Rightarrow> nat \<Rightarrow> short_read option \<Rightarrow> walk_state" where
  "resumed_at img at short = \<lparr>ws_reader = \<lparr>r_img = img, r_pos = at\<rparr>, ws_short = short, ws_stop = 0\<rparr>"

lemma resumed_at_here:
  "resumed_at (r_img (ws_reader ws) @ later) (r_pos (ws_reader ws)) (ws_short ws) = (more_state later ws)\<lparr>ws_stop := 0\<rparr>"
  by (simp add: resumed_at_def more_state_def more_reader_def)

lemma walk_headers_from_resume:
  assumes "walk_headers_from cr pw False ForFacts ws result = (Inr (Parsed p), ws')" "\<not> ph_is_encrypted p"
    and "qo \<Longrightarrow> keeps_main cr pw (ph_main p) ws result"
    and "qo \<Longrightarrow> ask_cache cr (r_img (ws_reader ws) @ later) pw (ph_main p) = Inr None"
  shows "walk_headers_from cr pw qo ForFacts (more_state later ws) result =
    walk_headers_from cr pw qo ForFacts (resumed_at (r_img (ws_reader ws) @ later) (ws_stop ws') (ws_short ws))
      (p\<lparr>ph_end := ph_end result\<rparr>)"
  using assms
proof (induction cr pw "False" "ForFacts" ws result rule: walk_headers_from.induct)
  case (1 cr pw ws result)
  note eq = "1.prems"(1) [unfolded walk_headers_from.simps [of cr pw False ForFacts ws result]]
  show ?case
  proof (cases "walk_step cr pw False ForFacts ws result")
    case (Continue ws1 result1)
    note more = walk_step_ContinueD [OF Continue]
    have kept: "qo \<Longrightarrow> ph_main result1 = None \<or> ph_main result1 = ph_main p" "qo \<Longrightarrow> keeps_main cr pw (ph_main p) ws1 result1"
      using "1.prems"(3) by (simp_all add: keeps_main.simps [of cr pw _ ws] Continue)
    have "ph_end result1 = ph_end result"
      using Continue by (auto simp: walk_step_def split: prod.splits sum.splits option.splits
          dest!: walk_step_of_ContinueD dispatch_header_main(3))
    moreover have "walk_step cr pw qo ForFacts (more_state later ws) result = Continue (more_state later ws1) result1"
      using kept(1) "1.prems"(4) by (intro walk_step_append [OF Continue]) auto
    ultimately show ?thesis
      using "1.hyps" [OF Continue] eq "1.prems"(2,4) kept(2) more keeps_short [OF Continue]
      by (simp add: Continue walk_headers_from.simps [of cr pw qo ForFacts "more_state later ws"])
  next
    case (Done answer ws1)
    then have "walk_step cr pw False ForFacts ws result = Done (Inr (Parsed p)) ws'" using eq by simp
    note d = walk_step_DoneD [OF this "1.prems"(2)]
    show ?thesis unfolding d resumed_at_here walk_ignores_stop ..
  qed
qed

lemma walk_headers_from_cached:
  assumes "walk_headers_from cr pw False ForFacts ws result = (Inr (Parsed p), ws')" "\<not> ph_is_encrypted p"
    and "keeps_main cr pw (ph_main p) ws result" "ph_main result = None"
    and "ask_cache cr (r_img (ws_reader ws) @ later) pw (ph_main p) = Inr (Some q)"
  shows "\<exists>ws2. walk_headers_from cr pw True ForFacts (more_state later ws) result = (Inr (Parsed q), ws2)
    \<and> ws_short ws2 = ws_short ws"
  using assms
proof (induction cr pw "False" "ForFacts" ws result rule: walk_headers_from.induct)
  case (1 cr pw ws result)
  note eq = "1.prems"(1) [unfolded walk_headers_from.simps [of cr pw False ForFacts ws result]]
  note unfold = walk_headers_from.simps [of cr pw True ForFacts "more_state later ws"]
  show ?case
  proof (cases "walk_step cr pw False ForFacts ws result")
    case (Continue ws1 result1)
    note more = walk_step_ContinueD [OF Continue]
    have kept: "ph_main result1 = None \<or> ph_main result1 = ph_main p" "keeps_main cr pw (ph_main p) ws1 result1"
      using "1.prems"(3) by (simp_all add: keeps_main.simps [of cr pw _ ws] Continue)
    show ?thesis
    proof (cases "ph_main result1 = None")
      case True
      then show ?thesis
        using "1.hyps" [OF Continue] eq "1.prems"(2,5) kept(2) more keeps_short [OF Continue]
          walk_step_append [OF Continue, of True later]
        by (simp add: Continue unfold)
    next
      case False
      then show ?thesis
        using walk_step_cached [OF Continue "1.prems"(4), of later q] "1.prems"(5) kept(1) by (auto simp: unfold)
    qed
  next
    case (Done answer ws1)
    then have "walk_step cr pw False ForFacts ws result = Done (Inr (Parsed p)) ws'" using eq by simp
    note d = walk_step_DoneD(2) [OF this "1.prems"(2)]
    have "ph_main p = None" using arg_cong [OF d, of ph_main] "1.prems"(4) by simp
    then show ?thesis using "1.prems"(5) by (simp add: ask_cache_def try_parse_quick_open_headers_def)
  qed
qed

section \<open>The encrypted part\<close>

lemma absorb_read_append:
  assumes "absorb_read n scan floor ws = (Inr (Some bs), ws')"
  shows "absorb_read n scan floor (more_state later ws) = (Inr (Some bs), more_state later ws')"
  using absorb_read_SomeD [OF assms]
  by (simp add: absorb_read_def absorb_short_read_def read_exact_def more_state_def more_reader_def)

lemma read_header_iv_append:
  assumes "read_header_iv floor ws = (Inr (Some bs), ws')"
  shows "read_header_iv floor (more_state later ws) = (Inr (Some bs), more_state later ws')"
  using read_header_iv_SomeD [OF assms]
  by (simp add: read_header_iv_def read_exact_def more_state_def more_reader_def)

lemma fetch_then_append:
  assumes "fetch_then m f = (Inr (Some y), ws')"
    and "\<And>x ws. m = (Inr (Some x), ws) \<Longrightarrow> m' = (Inr (Some x), more_state later ws)"
    and "\<And>x ws. \<lbrakk>m = (Inr (Some x), ws); f x ws = (Inr (Some y), ws')\<rbrakk> \<Longrightarrow>
      f' x (more_state later ws) = (Inr (Some y), more_state later ws')"
  shows "fetch_then m' f' = (Inr (Some y), more_state later ws')"
  using assms by (auto simp: fetch_then_eq_Some)

lemma read_encrypted_header_append:
  assumes "read_encrypted_header cr key scan ws = (Inr (Some x), ws')"
  shows "read_encrypted_header cr key scan (more_state later ws) = (Inr (Some x), more_state later ws')"
proof -
  have "(more_state later ws)\<lparr>ws_stop := s\<rparr> = more_state later (ws\<lparr>ws_stop := s\<rparr>)" for s
    by (simp add: more_state_def)
  then show ?thesis
    using assms unfolding read_encrypted_header_def Let_def more_simps
    by (simp only:, elim fetch_then_append)
      (auto simp: Let_def and_then_eq_Inr read_header_iv_append absorb_read_append
        split: prod.splits sum.splits if_splits elim!: fetch_then_append)
qed

lemma read_header_iv_stop: "snd (read_header_iv floor ws) = ws' \<Longrightarrow> ws_stop ws' = ws_stop ws"
  by (auto simp: read_header_iv_def split: prod.splits sum.splits if_splits)

lemma absorb_read_stop: "snd (absorb_read n scan floor ws) = ws' \<Longrightarrow> ws_stop ws' = ws_stop ws"
  by (auto simp: absorb_read_def Let_def split: prod.splits)

lemma fetch_then_stop:
  assumes "ws_stop (snd m) = at" "\<And>x ws. ws_stop ws = at \<Longrightarrow> ws_stop (snd (f x ws)) = at"
  shows "ws_stop (snd (fetch_then m f)) = at"
  using assms by (cases m) (auto simp: fetch_then_def split: sum.splits option.splits)

lemma read_encrypted_header_stop:
  "ws_stop (snd (read_encrypted_header cr key scan ws)) = r_pos (ws_reader ws)"
proof -
  have "ws_stop (snd (read_header_iv f (ws\<lparr>ws_stop := r_pos (ws_reader ws)\<rparr>))) = r_pos (ws_reader ws)" for f
    by (simp add: read_header_iv_stop [OF refl])
  then show ?thesis
    unfolding read_encrypted_header_def Let_def
    by (intro fetch_then_stop)
      (auto simp: absorb_read_stop [OF refl] split: prod.splits sum.splits intro!: fetch_then_stop)
qed

lemma fetch_then_short:
  assumes "fetch_then m f = (Inr (Some y), ws')" "\<And>x ws. m = (Inr (Some x), ws) \<Longrightarrow> ws_short ws = short"
    and "\<And>x ws. \<lbrakk>ws_short ws = short; f x ws = (Inr (Some y), ws')\<rbrakk> \<Longrightarrow> ws_short ws' = short"
  shows "ws_short ws' = short"
  using assms by (auto simp: fetch_then_eq_Some)

lemma read_encrypted_header_short:
  "read_encrypted_header cr key scan ws = (Inr (Some x), ws') \<Longrightarrow> ws_short ws' = ws_short ws"
  unfolding read_encrypted_header_def Let_def
  by (elim fetch_then_short)
    (auto split: prod.splits sum.splits if_splits dest!: read_header_iv_SomeD absorb_read_SomeD
      elim!: fetch_then_short)

lemma encrypted_step_append:
  assumes "encrypted_step cr key ForFacts ws result = Continue ws' result'"
  shows "encrypted_step cr key ForFacts (more_state later ws) result = Continue (more_state later ws') result'"
    and "ph_end result' = ph_end result" "ph_encryption result' = ph_encryption result"
    and "ws_short ws' = ws_short ws"
proof -
  obtain raw off ws1 where 1: "read_encrypted_header cr key ForFacts ws = (Inr (Some (raw, off)), ws1)"
    and ty: "rh_header_type raw \<noteq> EndArchive" and 2: "dispatch_header cr raw off result = Inr result'"
    and 3: "skip_to_next raw ws1 result' = (Continue ws' result' :: header_walk walk_step)"
    using assms by (auto simp: encrypted_step_def skip_to_next_def
        split: prod.splits sum.splits option.splits if_splits)
  have "skip_to_next raw (more_state later ws1) result' = (Continue (more_state later ws') result' :: header_walk walk_step)"
    by (rule skip_to_next_append [OF 3])
  then show "encrypted_step cr key ForFacts (more_state later ws) result = Continue (more_state later ws') result'"
    using ty 2 read_encrypted_header_append [OF 1, of later]
    by (auto simp: encrypted_step_def skip_to_next_def reached_file_limit_def split: prod.splits sum.splits)
  show "ph_end result' = ph_end result" "ph_encryption result' = ph_encryption result"
    using dispatch_header_main(3,4) [OF 2] by simp_all
  show "ws_short ws' = ws_short ws"
    using read_encrypted_header_short [OF 1] skip_to_next_ContinueD [OF 3] by simp
qed

lemma parse_encrypted_headers_ignores_stop:
  "parse_encrypted_headers cr key scan (ws\<lparr>ws_stop := x\<rparr>) result = parse_encrypted_headers cr key scan ws result"
proof -
  have "read_encrypted_header cr key scan (ws\<lparr>ws_stop := x\<rparr>) = read_encrypted_header cr key scan ws"
    by (simp add: read_encrypted_header_def)
  then show ?thesis by (subst (1 2) parse_encrypted_headers.simps) (simp add: encrypted_step_def)
qed

lemma parse_encrypted_headers_resume:
  assumes "parse_encrypted_headers cr key ForFacts ws result = (Inr p, ws')"
  shows "parse_encrypted_headers cr key ForFacts (more_state later ws) result =
      parse_encrypted_headers cr key ForFacts
        (resumed_at (r_img (ws_reader ws) @ later) (ws_stop ws') (ws_short ws)) (p\<lparr>ph_end := ph_end result\<rparr>)
    \<and> ph_encryption p = ph_encryption result"
  using assms
proof (induction cr key "ForFacts" ws result rule: parse_encrypted_headers.induct)
  case (1 cr key ws result)
  note eq = "1.prems" [unfolded parse_encrypted_headers.simps [of cr key ForFacts ws result]]
  show ?case
  proof (cases "encrypted_step cr key ForFacts ws result")
    case (Continue ws1 result1)
    note more = encrypted_step_append [OF Continue]
    show ?thesis
      using "1.hyps" [OF Continue] eq encrypted_step_ContinueD [OF Continue] more(2-)
      by (simp add: Continue parse_encrypted_headers.simps [of cr key ForFacts "more_state later ws"] more(1))
  next
    case (Done answer ws1)
    then have d: "encrypted_step cr key ForFacts ws result = Done (Inr p) ws'" using eq by simp
    have "p\<lparr>ph_end := ph_end result\<rparr> = result"
      using d by (auto simp: encrypted_step_def and_then_eq_Inr reached_file_limit_def
          split: prod.splits sum.splits option.splits if_splits)
    moreover have "ws_stop ws' = r_pos (ws_reader ws)"
      using d read_encrypted_header_stop [of cr key ForFacts ws]
      by (auto simp: encrypted_step_def reached_file_limit_def split: prod.splits sum.splits option.splits if_splits)
    moreover have "ph_encryption p = ph_encryption result"
      using arg_cong [OF calculation(1), of ph_encryption] by simp
    ultimately show ?thesis by (simp add: resumed_at_here parse_encrypted_headers_ignores_stop)
  qed
qed

text \<open>What has to hold for a password to open the encrypted part, and the key it then has.\<close>

definition opens_headers :: "crypto \<Rightarrow> rstring \<Rightarrow> encryption_header \<Rightarrow> bytes \<Rightarrow> bool" where
  "opens_headers cr pwd enc key \<longleftrightarrow>
     (case eh_check_data enc of None \<Rightarrow> True
      | Some check_data \<Rightarrow> verify_password_check (cr_compress256 cr) pwd (eh_salt enc) (eh_kdf_count enc) check_data)
     \<and> (\<exists>material. derive_rar5_material (cr_compress256 cr) pwd (eh_salt enc) (eh_kdf_count enc) = Inr material
          \<and> key = km_key material)"

abbreviation as_walk :: "parsed_headers rar_result \<times> walk_state \<Rightarrow> header_walk rar_result \<times> walk_state" where
  "as_walk \<equiv> map_prod (\<lambda>answer. and_then answer (\<lambda>result. Inr (Parsed result))) id"

lemma enter_encrypted_ParsedD:
  assumes "enter_encrypted cr pw ForFacts raw ws result = (Inr (Parsed p), ws')"
  shows "\<exists>pwd enc key. pw = Some pwd \<and> ph_encryption p = Some enc \<and> opens_headers cr pwd enc key
    \<and> enter_encrypted cr pw ForFacts raw (more_state later ws) result =
        as_walk (parse_encrypted_headers cr key ForFacts
          (resumed_at (r_img (ws_reader ws) @ later) (ws_stop ws') (ws_short ws)) (p\<lparr>ph_end := ph_end result\<rparr>))"
proof -
  obtain enc pwd material where 1: "encryption_parse (cr_sha256 cr) raw = Inr enc" "pw = Some pwd"
      "opens_headers cr pwd enc (km_key material)"
      "derive_rar5_material (cr_compress256 cr) pwd (eh_salt enc) (eh_kdf_count enc) = Inr material"
    and 2: "parse_encrypted_headers cr (km_key material) ForFacts ws
        (result\<lparr>ph_encryption := Some enc, ph_is_encrypted := True\<rparr>) = (Inr p, ws')"
    using assms by (auto simp: enter_encrypted_def opens_headers_def Let_def and_then_eq_Inr map_prod_def
        split: sum.splits option.splits if_splits prod.splits)
  note 3 = parse_encrypted_headers_resume [OF 2, of later]
  show ?thesis
    using 1 3
    by (intro exI [of _ pwd] exI [of _ enc] exI [of _ "km_key material"])
      (auto simp: enter_encrypted_def opens_headers_def Let_def split: option.splits)
qed

lemma walk_headers_from_enters:
  assumes "walk_headers_from cr pw False ForFacts ws result = (Inr (Parsed p), ws')"
    and "ph_is_encrypted p" "\<not> ph_is_encrypted result"
    and "qo \<Longrightarrow> keeps_main cr pw None ws result"
  shows "\<exists>pwd enc key. pw = Some pwd \<and> ph_encryption p = Some enc \<and> opens_headers cr pwd enc key
    \<and> walk_headers_from cr pw qo ForFacts (more_state later ws) result =
        as_walk (parse_encrypted_headers cr key ForFacts
          (resumed_at (r_img (ws_reader ws) @ later) (ws_stop ws') (ws_short ws)) (p\<lparr>ph_end := ph_end result\<rparr>))"
  using assms
proof (induction cr pw "False" "ForFacts" ws result rule: walk_headers_from.induct)
  case (1 cr pw ws result)
  note eq = "1.prems"(1) [unfolded walk_headers_from.simps [of cr pw False ForFacts ws result]]
  note unfold = walk_headers_from.simps [of cr pw qo ForFacts "more_state later ws"]
  show ?case
  proof (cases "walk_step cr pw False ForFacts ws result")
    case (Continue ws1 result1)
    note more = walk_step_ContinueD [OF Continue]
    have kept: "qo \<Longrightarrow> ph_main result1 = None" "qo \<Longrightarrow> keeps_main cr pw None ws1 result1"
      using "1.prems"(4) by (simp_all add: keeps_main.simps [of cr pw _ ws] Continue)
    have "ph_end result1 = ph_end result \<and> \<not> ph_is_encrypted result1"
      using Continue "1.prems"(3) by (auto simp: walk_step_def split: prod.splits sum.splits option.splits
          dest!: walk_step_of_ContinueD dest: dispatch_header_main(3) dispatch_header_provenance)
    moreover have "walk_step cr pw qo ForFacts (more_state later ws) result = Continue (more_state later ws1) result1"
      using kept(1) by (intro walk_step_append [OF Continue]) auto
    ultimately show ?thesis
      using "1.hyps" [OF Continue] eq "1.prems"(2) kept(2) more keeps_short [OF Continue]
      by (simp add: Continue unfold)
  next
    case (Done answer ws1)
    then have d: "walk_step cr pw False ForFacts ws result = Done (Inr (Parsed p)) ws'" using eq by simp
    obtain raw ws2 where 2: "next_raw_header ForFacts ws = (Inr (Some raw), ws2)"
      "rh_header_type raw = Encryption" "enter_encrypted cr pw ForFacts raw ws2 result = (Inr (Parsed p), ws')"
      using d "1.prems"(2,3)
      by (auto simp: walk_step_def walk_step_of_def skip_to_next_def reached_file_limit_def and_then_eq_Inr
          split: if_splits sum.splits prod.splits option.splits)
    have "r_img (ws_reader ws2) = r_img (ws_reader ws)" "ws_short ws2 = ws_short ws"
      using next_raw_header_SomeD [OF 2(1)] by (auto dest: read_raw_header_InrD(6))
    then show ?thesis
      using enter_encrypted_ParsedD [OF 2(3), of later]
      by (auto simp: unfold walk_step_def next_raw_header_append [OF 2(1)] walk_step_of_def 2(2) split: prod.splits)
  qed
qed

section \<open>Starting from fewer headers\<close>

text \<open>A result with the files and services of an earlier walk before its own.\<close>

definition with_earlier :: "parsed_headers \<Rightarrow> parsed_headers \<Rightarrow> parsed_headers" where
  "with_earlier before p =
     p\<lparr>ph_files := ph_files before @ ph_files p, ph_services := ph_services before @ ph_services p\<rparr>"

lemma with_earlier_simps [simp]:
  "ph_main (with_earlier b p) = ph_main p" "ph_encryption (with_earlier b p) = ph_encryption p"
  "ph_is_encrypted (with_earlier b p) = ph_is_encrypted p"
  "ph_headers_from_quick_open (with_earlier b p) = ph_headers_from_quick_open p"
  "(with_earlier b p)\<lparr>ph_end := e\<rparr> = with_earlier b (p\<lparr>ph_end := e\<rparr>)"
  "(with_earlier b p)\<lparr>ph_encryption := x, ph_is_encrypted := f\<rparr> =
    with_earlier b (p\<lparr>ph_encryption := x, ph_is_encrypted := f\<rparr>)"
  by (simp_all add: with_earlier_def)

lemma dispatch_header_with_earlier:
  "dispatch_header cr raw off (with_earlier b result) =
     and_then (dispatch_header cr raw off result) (\<lambda>p. Inr (with_earlier b p))"
  by (auto simp: dispatch_header_def with_earlier_def Let_def and_then_def split: header_type.split sum.split)

fun step_with_earlier :: "('a \<Rightarrow> 'a) \<Rightarrow> parsed_headers \<Rightarrow> 'a walk_step \<Rightarrow> 'a walk_step" where
  "step_with_earlier f b (Continue ws result) = Continue ws (with_earlier b result)"
| "step_with_earlier f b (Done answer ws) = Done (map_sum id f answer) ws"

lemma encrypted_step_with_earlier:
  "encrypted_step cr key ForFacts ws (with_earlier b result) =
     step_with_earlier (with_earlier b) b (encrypted_step cr key ForFacts ws result)"
  by (auto simp: encrypted_step_def dispatch_header_with_earlier reached_file_limit_def and_then_def
      split: prod.splits sum.splits option.splits)

lemma parse_encrypted_headers_with_earlier:
  "parse_encrypted_headers cr key ForFacts ws (with_earlier b result) =
     map_prod (map_sum id (with_earlier b)) id (parse_encrypted_headers cr key ForFacts ws result)"
proof (induction cr key "ForFacts" ws result rule: parse_encrypted_headers.induct)
  case (1 cr key ws result)
  then show ?case
    by (subst (1 2) parse_encrypted_headers.simps)
      (auto simp: encrypted_step_with_earlier split: walk_step.splits)
qed

text \<open>An answer of the cache holds every header at once and is left as it is.\<close>

fun walk_with_earlier :: "parsed_headers \<Rightarrow> header_walk \<Rightarrow> header_walk" where
  "walk_with_earlier b (Parsed p) = Parsed (if ph_headers_from_quick_open p then p else with_earlier b p)"
| "walk_with_earlier b (HeaderEncrypted enc) = HeaderEncrypted enc"

lemma enter_encrypted_with_earlier:
  assumes "\<not> ph_headers_from_quick_open result"
  shows "enter_encrypted cr pw ForFacts raw ws (with_earlier b result) =
    map_prod (map_sum id (walk_with_earlier b)) id (enter_encrypted cr pw ForFacts raw ws result)"
  using assms parse_encrypted_headers_provenance
  by (auto simp: enter_encrypted_def Let_def parse_encrypted_headers_with_earlier and_then_def map_prod_def
      split: sum.splits option.splits prod.splits)

lemma walk_step_with_earlier:
  assumes "\<not> ph_headers_from_quick_open result"
  shows "walk_step cr pw qo ForFacts ws (with_earlier b result) =
    step_with_earlier (walk_with_earlier b) b (walk_step cr pw qo ForFacts ws result)"
proof -
  have cache: "try_parse_quick_open_headers cr r (with_earlier b p) pw = try_parse_quick_open_headers cr r p pw" for r p
    by (rule try_parse_quick_open_headers_cong) simp_all
  have skip: "skip_to_next raw ws (with_earlier b p) =
      step_with_earlier (walk_with_earlier b) b (skip_to_next raw ws p)" for raw ws p
    by (auto simp: skip_to_next_def split: prod.splits sum.splits)
  show ?thesis
    using assms
    by (auto simp: walk_step_def walk_step_of_def dispatch_header_with_earlier reached_file_limit_def and_then_def
        enter_encrypted_with_earlier cache skip try_parse_quick_open_headers_total
        split: prod.splits sum.splits option.splits dest: try_parse_quick_open_headers_provenance(1))
qed

lemma walk_headers_from_with_earlier:
  assumes "\<not> ph_headers_from_quick_open result"
  shows "walk_headers_from cr pw qo ForFacts ws (with_earlier b result) =
    map_prod (map_sum id (walk_with_earlier b)) id (walk_headers_from cr pw qo ForFacts ws result)"
  using assms
proof (induction cr pw qo "ForFacts" ws result rule: walk_headers_from.induct)
  case (1 cr pw qo ws result)
  then show ?case
    by (subst (1 2) walk_headers_from.simps)
      (auto simp: walk_step_with_earlier split: walk_step.splits dest: walk_step_provenance(2))
qed

section \<open>The resumed walk\<close>

lemma resume_in_plaintext:
  "resume_headers_for_facts cr pw qo (start_at \<lparr>r_img = img, r_pos = p\<rparr>) at main None =
    (case (if qo then ask_cache cr img pw main else Inr None) of
       Inl e \<Rightarrow> (Inl e, (start_at \<lparr>r_img = img, r_pos = p\<rparr>)\<lparr>ws_stop := at\<rparr>)
     | Inr (Some q) \<Rightarrow> (Inr q, (start_at \<lparr>r_img = img, r_pos = p\<rparr>)\<lparr>ws_stop := at\<rparr>)
     | Inr None \<Rightarrow>
         map_prod (\<lambda>answer. and_then answer parsed_or_encrypted) id
           (walk_headers_from cr pw qo ForFacts (resumed_at img at None) (empty_parsed_headers\<lparr>ph_main := main\<rparr>)))"
proof -
  let ?ws = "start_at \<lparr>r_img = img, r_pos = p\<rparr>"
  have ws: "?ws\<lparr>ws_stop := at, ws_reader := seek_start at (ws_reader (?ws\<lparr>ws_stop := at\<rparr>))\<rparr> =
      (resumed_at img at None)\<lparr>ws_stop := at\<rparr>" by (simp add: start_at_def resumed_at_def seek_start_def)
  have result: "empty_parsed_headers\<lparr>ph_main := main, ph_encryption := None\<rparr> = empty_parsed_headers\<lparr>ph_main := main\<rparr>"
    by (simp add: empty_parsed_headers_def)
  have "try_parse_quick_open_headers cr (ws_reader (?ws\<lparr>ws_stop := at\<rparr>)) (empty_parsed_headers\<lparr>ph_main := main\<rparr>) pw =
      ask_cache cr img pw main"
    by (subst ask_cache [of _ img]) (simp_all add: start_at_def)
  then show ?thesis
    unfolding resume_headers_for_facts_def Let_def option.case ws result walk_ignores_stop by simp
qed

lemma resume_from_signature:
  "resume_headers_for_facts cr pw qo (start_at \<lparr>r_img = img, r_pos = p\<rparr>) at None None =
    map_prod (\<lambda>answer. and_then answer parsed_or_encrypted) id
      (walk_headers_from cr pw qo ForFacts (start_at \<lparr>r_img = img, r_pos = at\<rparr>) empty_parsed_headers)"
proof -
  have "ask_cache cr img pw None = Inr None" by (simp add: ask_cache_def try_parse_quick_open_headers_def)
  moreover have "resumed_at img at None = start_at \<lparr>r_img = img, r_pos = at\<rparr>"
    by (simp add: resumed_at_def start_at_def)
  moreover have "empty_parsed_headers\<lparr>ph_main := None\<rparr> = empty_parsed_headers"
    by (simp add: empty_parsed_headers_def)
  ultimately show ?thesis by (simp add: resume_in_plaintext)
qed

lemma resume_in_encrypted:
  assumes "opens_headers cr pwd enc key"
  shows "resume_headers_for_facts cr (Some pwd) qo (start_at \<lparr>r_img = img, r_pos = p\<rparr>) at main (Some enc) =
    parse_encrypted_headers cr key ForFacts (resumed_at img at None)
      (empty_parsed_headers\<lparr>ph_main := main, ph_encryption := Some enc, ph_is_encrypted := True\<rparr>)"
proof -
  let ?ws = "start_at \<lparr>r_img = img, r_pos = p\<rparr>"
  have ws: "?ws\<lparr>ws_stop := at, ws_reader := seek_start at (ws_reader (?ws\<lparr>ws_stop := at\<rparr>))\<rparr> =
      (resumed_at img at None)\<lparr>ws_stop := at\<rparr>" by (simp add: start_at_def resumed_at_def seek_start_def)
  show ?thesis
    using assms
    unfolding resume_headers_for_facts_def Let_def option.case ws parse_encrypted_headers_ignores_stop
    by (auto simp: opens_headers_def split: option.splits)
qed

lemma walk_keeps_encryption:
  assumes "walk_headers_from cr pw False ForFacts ws result = (Inr (Parsed p), ws')" "\<not> ph_is_encrypted p"
  shows "ph_encryption p = ph_encryption result"
  using assms
proof (induction cr pw "False" "ForFacts" ws result rule: walk_headers_from.induct)
  case (1 cr pw ws result)
  note eq = "1.prems"(1) [unfolded walk_headers_from.simps [of cr pw False ForFacts ws result]]
  show ?case
  proof (cases "walk_step cr pw False ForFacts ws result")
    case (Continue ws1 result1)
    then have "ph_encryption result1 = ph_encryption result"
      by (auto simp: walk_step_def split: prod.splits sum.splits option.splits
          dest!: walk_step_of_ContinueD dispatch_header_main(4))
    then show ?thesis using "1.hyps" [OF Continue] eq "1.prems"(2) by (simp add: Continue)
  next
    case (Done answer ws1)
    then have "walk_step cr pw False ForFacts ws result = Done (Inr (Parsed p)) ws'" using eq by simp
    from arg_cong [OF walk_step_DoneD(2) [OF this "1.prems"(2)], of ph_encryption] show ?thesis by simp
  qed
qed

lemma earlier_of_itself:
  assumes "\<not> ph_headers_from_quick_open p"
  shows "p\<lparr>ph_end := None\<rparr> = with_earlier p (empty_parsed_headers
    \<lparr>ph_main := ph_main p, ph_encryption := ph_encryption p, ph_is_encrypted := ph_is_encrypted p\<rparr>)"
  using assms by (cases p) (simp add: with_earlier_def empty_parsed_headers_def)

lemma resume_plaintext_part:
  assumes first: "walk_headers_from cr pw False ForFacts (start_at \<lparr>r_img = img, r_pos = at\<rparr>) empty_parsed_headers =
      (Inr (Parsed parsed), ws)" "\<not> ph_headers_from_quick_open parsed" "\<not> ph_is_encrypted parsed"
    and main: "qo \<Longrightarrow> keeps_main cr pw (ph_main parsed) (start_at \<lparr>r_img = img, r_pos = at\<rparr>) empty_parsed_headers"
    and full: "full = resume_headers_for_facts cr pw qo (start_at \<lparr>r_img = img @ later, r_pos = p\<rparr>) at None None"
    and part: "part = resume_headers_for_facts cr pw qo (start_at \<lparr>r_img = img @ later, r_pos = p'\<rparr>)
      (ws_stop ws) (ph_main parsed) None"
  shows "if \<exists>q. fst part = Inr q \<and> ph_headers_from_quick_open q
    then fst full = fst part \<and> ws_short (snd full) = ws_short (snd part)
    else full = map_prod (\<lambda>answer. and_then answer (\<lambda>q. Inr (with_earlier parsed q))) id part"
proof -
  let ?start = "start_at \<lparr>r_img = img, r_pos = at\<rparr>"
  have more: "start_at \<lparr>r_img = img @ later, r_pos = at\<rparr> = more_state later ?start"
    and img: "r_img (ws_reader ?start) = img" "ws_short ?start = None"
    by (simp_all add: start_at_def more_state_def more_reader_def)
  note enc = walk_keeps_encryption [OF first(1,3)]
  have full': "full = map_prod (\<lambda>answer. and_then answer parsed_or_encrypted) id
      (walk_headers_from cr pw qo ForFacts (more_state later ?start) empty_parsed_headers)"
    unfolding full resume_from_signature more ..
  show ?thesis
  proof (cases "\<exists>q. qo \<and> ask_cache cr (img @ later) pw (ph_main parsed) = Inr (Some q)")
    case True
    then obtain q where q: "qo" "ask_cache cr (img @ later) pw (ph_main parsed) = Inr (Some q)" by blast
    obtain ws2 where "walk_headers_from cr pw qo ForFacts (more_state later ?start) empty_parsed_headers =
        (Inr (Parsed q), ws2)" "ws_short ws2 = None"
      using walk_headers_from_cached [OF first(1,3) main, of later q] q img by (auto simp: empty_parsed_headers_def)
    then have "fst full = Inr q" "ws_short (snd full) = None" by (simp_all add: full')
    moreover have "fst part = Inr q" "ws_short (snd part) = None"
      using q unfolding part resume_in_plaintext by (simp_all add: start_at_def)
    moreover have "ph_headers_from_quick_open q"
      using q(2) try_parse_quick_open_headers_provenance(1) by (simp add: ask_cache_def)
    ultimately show ?thesis by simp
  next
    case False
    then have silent: "qo \<Longrightarrow> ask_cache cr (img @ later) pw (ph_main parsed) = Inr None"
      using try_parse_quick_open_headers_total
      by (cases "ask_cache cr (img @ later) pw (ph_main parsed)") (auto simp: ask_cache_def)
    let ?rest = "walk_headers_from cr pw qo ForFacts (resumed_at (img @ later) (ws_stop ws) None)
      (empty_parsed_headers\<lparr>ph_main := ph_main parsed\<rparr>)"
    have p: "parsed\<lparr>ph_end := None\<rparr> = with_earlier parsed (empty_parsed_headers\<lparr>ph_main := ph_main parsed\<rparr>)"
      unfolding earlier_of_itself [OF first(2)] using enc first(3) by (simp add: empty_parsed_headers_def)
    have "walk_headers_from cr pw qo ForFacts (more_state later ?start) empty_parsed_headers =
        walk_headers_from cr pw qo ForFacts (resumed_at (img @ later) (ws_stop ws) None) (parsed\<lparr>ph_end := None\<rparr>)"
      using walk_headers_from_resume [OF first(1,3) main, of qo later] silent img by (simp add: empty_parsed_headers_def)
    also have "\<dots> = map_prod (map_sum id (walk_with_earlier parsed)) id ?rest"
      unfolding p by (rule walk_headers_from_with_earlier) (simp add: empty_parsed_headers_def)
    finally have "full = map_prod (\<lambda>answer. and_then answer parsed_or_encrypted) id
        (map_prod (map_sum id (walk_with_earlier parsed)) id ?rest)"
      by (simp only: full')
    moreover have "part = map_prod (\<lambda>answer. and_then answer parsed_or_encrypted) id ?rest"
      using silent by (simp add: part resume_in_plaintext)
    ultimately show ?thesis
      by (cases ?rest; cases "fst ?rest"; cases "projr (fst ?rest)") (auto simp: and_then_def split: sum.splits)
  qed
qed

lemma resume_encrypted_part:
  assumes first: "walk_headers_from cr pw False ForFacts (start_at \<lparr>r_img = img, r_pos = at\<rparr>) empty_parsed_headers =
      (Inr (Parsed parsed), ws)" "\<not> ph_headers_from_quick_open parsed" "ph_is_encrypted parsed"
    and main: "qo \<Longrightarrow> keeps_main cr pw None (start_at \<lparr>r_img = img, r_pos = at\<rparr>) empty_parsed_headers"
    and full: "full = resume_headers_for_facts cr pw qo (start_at \<lparr>r_img = img @ later, r_pos = p\<rparr>) at None None"
    and part: "part = resume_headers_for_facts cr pw qo (start_at \<lparr>r_img = img @ later, r_pos = p'\<rparr>)
      (ws_stop ws) (ph_main parsed) (ph_encryption parsed)"
  shows "\<not> (\<exists>q. fst part = Inr q \<and> ph_headers_from_quick_open q)"
    and "full = map_prod (\<lambda>answer. and_then answer (\<lambda>q. Inr (with_earlier parsed q))) id part"
proof -
  let ?start = "start_at \<lparr>r_img = img, r_pos = at\<rparr>"
  have more: "start_at \<lparr>r_img = img @ later, r_pos = at\<rparr> = more_state later ?start"
    and img: "r_img (ws_reader ?start) = img" "ws_short ?start = None"
    by (simp_all add: start_at_def more_state_def more_reader_def)
  obtain pwd enc key where pwd: "pw = Some pwd" and enc: "ph_encryption parsed = Some enc" and
    opens: "opens_headers cr pwd enc key" and
    walk: "walk_headers_from cr pw qo ForFacts (more_state later ?start) empty_parsed_headers =
        as_walk (parse_encrypted_headers cr key ForFacts (resumed_at (img @ later) (ws_stop ws) None)
          (parsed\<lparr>ph_end := None\<rparr>))"
    using walk_headers_from_enters [OF first(1,3) _ main, of qo later] img by (auto simp: empty_parsed_headers_def)
  let ?result = "empty_parsed_headers\<lparr>ph_main := ph_main parsed, ph_encryption := Some enc, ph_is_encrypted := True\<rparr>"
  let ?rest = "parse_encrypted_headers cr key ForFacts (resumed_at (img @ later) (ws_stop ws) None) ?result"
  have part': "part = ?rest" unfolding part pwd enc by (rule resume_in_encrypted [OF opens])
  show "\<not> (\<exists>q. fst part = Inr q \<and> ph_headers_from_quick_open q)"
    using parse_encrypted_headers_provenance [of cr key ForFacts _ ?result]
    unfolding part' by (metis empty_parsed_headers_def parsed_headers.select_convs(7) parsed_headers.update_convs(1,4,6) prod.collapse)
  have p: "parsed\<lparr>ph_end := None\<rparr> = with_earlier parsed ?result"
    using earlier_of_itself [OF first(2)] enc first(3) by simp
  show "full = map_prod (\<lambda>answer. and_then answer (\<lambda>q. Inr (with_earlier parsed q))) id part"
    unfolding full resume_from_signature more walk p parse_encrypted_headers_with_earlier part'
    by (cases ?rest) (auto simp: and_then_def split: sum.splits)
qed

section \<open>Properties\<close>

text \<open>C7: a facts walk that stopped in a volume that was still arriving is resumed where it stopped. The
  resumed walk starts with the main and the encryption header of the earlier one and nothing else;
  over the longer volume it finds what a walk from the signature finds there: put behind the files
  and services of the earlier walk, its result is the same, with the same errors, short read and
  stop. Where the resumed walk is answered by the Quick Open cache, the walk from the signature has
  that very answer. The earlier answer must be a physical one, and where Quick Open is allowed its
  plaintext part may hold one main header only, and none before an encryption header.\<close>

theorem facts_walk_resumes:
  assumes "resume_headers_for_facts cr password qo (start_at \<lparr>r_img = img, r_pos = p\<rparr>) at None None = (Inr parsed, ws)"
    and "\<not> ph_headers_from_quick_open parsed"
    and "qo \<Longrightarrow> keeps_main cr password (if ph_encryption parsed = None then ph_main parsed else None)
      (start_at \<lparr>r_img = img, r_pos = at\<rparr>) empty_parsed_headers"
    and "full = resume_headers_for_facts cr password qo (start_at \<lparr>r_img = img @ later, r_pos = p'\<rparr>) at None None"
    and "part = resume_headers_for_facts cr password qo (start_at \<lparr>r_img = img @ later, r_pos = p''\<rparr>)
      (ws_stop ws) (ph_main parsed) (ph_encryption parsed)"
  shows "if \<exists>q. fst part = Inr q \<and> ph_headers_from_quick_open q
    then fst full = fst part \<and> ws_short (snd full) = ws_short (snd part)
    else full = map_prod (\<lambda>answer. and_then answer (\<lambda>q. Inr (with_earlier parsed q))) id part"
proof -
  let ?start = "start_at \<lparr>r_img = img, r_pos = at\<rparr>"
  have "walk_headers_from cr password qo ForFacts ?start empty_parsed_headers = (Inr (Parsed parsed), ws)"
    using assms(1) unfolding resume_from_signature
    by (cases "walk_headers_from cr password qo ForFacts ?start empty_parsed_headers")
      (auto simp: and_then_eq_Inr elim: parsed_or_encrypted.elims)
  then have first: "walk_headers_from cr password False ForFacts ?start empty_parsed_headers = (Inr (Parsed parsed), ws)"
    using walk_headers_from_provenance [of cr password ForFacts ?start empty_parsed_headers parsed ws] assms(2)
    by (cases qo) (simp_all add: empty_parsed_headers_def)
  show ?thesis
  proof (cases "ph_is_encrypted parsed")
    case True
    then have "ph_encryption parsed \<noteq> None"
      using walk_headers_from_enters [OF first True, of False "[]"] by (auto simp: empty_parsed_headers_def)
    then have main: "qo \<Longrightarrow> keeps_main cr password None ?start empty_parsed_headers" using assms(3) by auto
    show ?thesis using resume_encrypted_part [OF first assms(2) True main assms(4,5)] by argo
  next
    case False
    then have "ph_encryption parsed = None"
      using walk_keeps_encryption [OF first False] by (simp add: empty_parsed_headers_def)
    then have main: "qo \<Longrightarrow> keeps_main cr password (ph_main parsed) ?start empty_parsed_headers"
      and part: "part = resume_headers_for_facts cr password qo (start_at \<lparr>r_img = img @ later, r_pos = p''\<rparr>)
        (ws_stop ws) (ph_main parsed) None"
      using assms(3,5) by simp_all
    show ?thesis by (rule resume_plaintext_part [OF first assms(2) False main assms(4) part])
  qed
qed

theorem facts_walk_resumes_witness:
  "\<exists>parsed ws. resume_headers_for_facts no_crypto None True (start_at \<lparr>r_img =
        concat (map encode_volume_block sample_blocks) @ take 7 (encode_block 9 sample_end), r_pos = 0\<rparr>) 0 None None =
      (Inr parsed, ws) \<and> length (ph_files parsed) = 1 \<and> ws_stop ws = 26
    \<and> resume_headers_for_facts no_crypto None True (start_at \<lparr>r_img =
        (concat (map encode_volume_block sample_blocks) @ take 7 (encode_block 9 sample_end))
        @ drop 7 (encode_block 9 sample_end), r_pos = 0\<rparr>) 0 None None =
      map_prod (\<lambda>answer. and_then answer (\<lambda>q. Inr (with_earlier parsed q))) id
       (resume_headers_for_facts no_crypto None True (start_at \<lparr>r_img =
         (concat (map encode_volume_block sample_blocks) @ take 7 (encode_block 9 sample_end))
         @ drop 7 (encode_block 9 sample_end), r_pos = 3\<rparr>) 26 (ph_main parsed) None)"
proof -
  let ?img = "concat (map encode_volume_block sample_blocks) @ take 7 (encode_block 9 sample_end)"
  let ?later = "drop 7 (encode_block 9 sample_end)"
  have "(case resume_headers_for_facts no_crypto None True (start_at \<lparr>r_img = ?img, r_pos = 0\<rparr>) 0 None None of
      (Inr parsed, ws) \<Rightarrow> length (ph_files parsed) = 1 \<and> ws_stop ws = 26 \<and> \<not> ph_headers_from_quick_open parsed
        \<and> ph_encryption parsed = None
        \<and> keeps_main no_crypto None (ph_main parsed) (start_at \<lparr>r_img = ?img, r_pos = 0\<rparr>) empty_parsed_headers
        \<and> (case fst (resume_headers_for_facts no_crypto None True (start_at \<lparr>r_img = ?img @ ?later, r_pos = 3\<rparr>)
              26 (ph_main parsed) None) of Inr q \<Rightarrow> \<not> ph_headers_from_quick_open q | Inl _ \<Rightarrow> True)
    | _ \<Rightarrow> False)" by code_simp
  then obtain parsed ws where
    first: "resume_headers_for_facts no_crypto None True (start_at \<lparr>r_img = ?img, r_pos = 0\<rparr>) 0 None None =
      (Inr parsed, ws)" and
    at: "length (ph_files parsed) = 1" "ws_stop ws = 26" "\<not> ph_headers_from_quick_open parsed"
      "ph_encryption parsed = None" and
    main: "keeps_main no_crypto None (ph_main parsed) (start_at \<lparr>r_img = ?img, r_pos = 0\<rparr>) empty_parsed_headers" and
    physical: "\<not> (\<exists>q. fst (resume_headers_for_facts no_crypto None True (start_at \<lparr>r_img = ?img @ ?later, r_pos = 3\<rparr>)
        26 (ph_main parsed) None) = Inr q \<and> ph_headers_from_quick_open q)"
    by (fastforce split: prod.splits sum.splits)
  have kept: "keeps_main no_crypto None (if ph_encryption parsed = None then ph_main parsed else None)
      (start_at \<lparr>r_img = ?img, r_pos = 0\<rparr>) empty_parsed_headers" using main at(4) by simp
  note resumed = facts_walk_resumes [OF first at(3) kept refl refl, of ?later 3 0, unfolded at(2,4) if_not_P [OF physical]]
  show ?thesis using first at(1,2) resumed by blast
qed

end
