(* ===== verification/Legacy_Ciphers.thy ===== *)
theory Legacy_Ciphers
  imports Rar5_Kdf "HOL-Library.Multiset"
begin

text \<open>
  The ciphers of RAR 1.3, 1.5 and 2.0 in \<open>unrar-rs/src/crypto/mod.rs\<close>: key setup from a password and
  decryption, each a state that is carried through the data, and the OEM code page of DOS passwords.
  The CRC-32 of a whole password is a parameter; the table of the byte steps is computed as in the
  source. Erasing keys on drop is not modelled.
\<close>

unbundle bit_operations_syntax

section \<open>DOS passwords\<close>

definition CP437_HIGH_CODEPOINTS :: "u16 list" where
  "CP437_HIGH_CODEPOINTS =
    [0x00C7, 0x00FC, 0x00E9, 0x00E2, 0x00E4, 0x00E0, 0x00E5, 0x00E7, 0x00EA, 0x00EB, 0x00E8, 0x00EF,
     0x00EE, 0x00EC, 0x00C4, 0x00C5, 0x00C9, 0x00E6, 0x00C6, 0x00F4, 0x00F6, 0x00F2, 0x00FB, 0x00F9,
     0x00FF, 0x00D6, 0x00DC, 0x00A2, 0x00A3, 0x00A5, 0x20A7, 0x0192, 0x00E1, 0x00ED, 0x00F3, 0x00FA,
     0x00F1, 0x00D1, 0x00AA, 0x00BA, 0x00BF, 0x2310, 0x00AC, 0x00BD, 0x00BC, 0x00A1, 0x00AB, 0x00BB,
     0x2591, 0x2592, 0x2593, 0x2502, 0x2524, 0x2561, 0x2562, 0x2556, 0x2555, 0x2563, 0x2551, 0x2557,
     0x255D, 0x255C, 0x255B, 0x2510, 0x2514, 0x2534, 0x252C, 0x251C, 0x2500, 0x253C, 0x255E, 0x255F,
     0x255A, 0x2554, 0x2569, 0x2566, 0x2560, 0x2550, 0x256C, 0x2567, 0x2568, 0x2564, 0x2565, 0x2559,
     0x2558, 0x2552, 0x2553, 0x256B, 0x256A, 0x2518, 0x250C, 0x2588, 0x2584, 0x258C, 0x2590, 0x2580,
     0x03B1, 0x00DF, 0x0393, 0x03C0, 0x03A3, 0x03C3, 0x00B5, 0x03C4, 0x03A6, 0x0398, 0x03A9, 0x03B4,
     0x221E, 0x03C6, 0x03B5, 0x2229, 0x2261, 0x00B1, 0x2265, 0x2264, 0x2320, 0x2321, 0x00F7, 0x2248,
     0x00B0, 0x2219, 0x00B7, 0x221A, 0x207F, 0x00B2, 0x25A0, 0x00A0]"

definition encode_cp437_char :: "u32 \<Rightarrow> u8" where
  "encode_cp437_char ch =
     (if ch \<le> 0x7F then ucast ch
      else case position (\<lambda>mapped. ucast mapped = ch) CP437_HIGH_CODEPOINTS of
             Some index \<Rightarrow> 0x80 + of_nat index
           | None \<Rightarrow> 0x3F)"

definition rar_password_oem_bytes_compat :: "rstring \<Rightarrow> bytes" where
  "rar_password_oem_bytes_compat password = map encode_cp437_char (rar_password_compat password)"

section \<open>The CRC table\<close>

definition crc32_step :: "u32 \<Rightarrow> u32" where
  "crc32_step crc = (if crc AND 1 \<noteq> 0 then 0xEDB88320 XOR drop_bit 1 crc else drop_bit 1 crc)"

definition crc32_table :: "u32 list" where
  "crc32_table = map (\<lambda>index. (crc32_step ^^ 8) (of_nat index)) [0..<256]"

section \<open>RAR 1.3\<close>

type_synonym rar13_key = "u8 \<times> u8 \<times> u8"

definition rar13_new_from_bytes :: "bytes \<Rightarrow> rar13_key" where
  "rar13_new_from_bytes password =
     fold (\<lambda>byte (k0, k1, k2). (k0 + byte, k1 XOR byte, word_rotl 1 (k2 + byte))) password (0, 0, 0)"

definition rar13_new :: "rstring \<Rightarrow> rar13_key" where
  "rar13_new password = rar13_new_from_bytes (as_bytes (rar_password_compat password))"

definition rar13_new_dos :: "rstring \<Rightarrow> rar13_key" where
  "rar13_new_dos password = rar13_new_from_bytes (rar_password_oem_bytes_compat password)"

definition rar13_new_comment :: rar13_key where
  "rar13_new_comment = (0, 7, 77)"

fun rar13_decrypt :: "rar13_key \<Rightarrow> bytes \<Rightarrow> bytes \<times> rar13_key" where
  "rar13_decrypt key [] = ([], key)"
| "rar13_decrypt (k0, k1, k2) (byte # data) =
     (let k1 = k1 + k2; k0 = k0 + k1; (rest, key) = rar13_decrypt (k0, k1, k2) data
      in ((byte - k0) # rest, key))"

definition decrypt_rar14_packed_comment :: "bytes \<Rightarrow> bytes" where
  "decrypt_rar14_packed_comment data = fst (rar13_decrypt rar13_new_comment data)"

section \<open>RAR 1.5\<close>

type_synonym rar15_key = "u16 \<times> u16 \<times> u16 \<times> u16"

text \<open>The sum of a byte and the high half of its table entry is a plain \<open>u16\<close> addition in the
  source, which wraps in a release build.\<close>

definition rar15_mix :: "u8 \<Rightarrow> rar15_key \<Rightarrow> rar15_key" where
  "rar15_mix byte = (\<lambda>(k0, k1, k2, k3).
     let crc = crc32_table ! unat byte
     in (k0, k1, k2 XOR (ucast byte XOR ucast crc), k3 + (ucast byte + ucast (drop_bit 16 crc))))"

definition rar15_new_from_bytes :: "(bytes \<Rightarrow> u32) \<Rightarrow> bytes \<Rightarrow> rar15_key" where
  "rar15_new_from_bytes crc32 password =
     (let psw_crc = NOT (crc32 password)
      in fold rar15_mix password (ucast (psw_crc AND 0xFFFF), ucast (drop_bit 16 psw_crc), 0, 0))"

definition rar15_new :: "(bytes \<Rightarrow> u32) \<Rightarrow> rstring \<Rightarrow> rar15_key" where
  "rar15_new crc32 password = rar15_new_from_bytes crc32 (as_bytes (rar_password_compat password))"

definition rar15_new_dos :: "(bytes \<Rightarrow> u32) \<Rightarrow> rstring \<Rightarrow> rar15_key" where
  "rar15_new_dos crc32 password = rar15_new_from_bytes crc32 (rar_password_oem_bytes_compat password)"

definition rar15_step :: "rar15_key \<Rightarrow> rar15_key" where
  "rar15_step = (\<lambda>(k0, k1, k2, k3).
     let k0 = k0 + 0x1234;
         crc = crc32_table ! unat (drop_bit 1 (k0 AND 0x01FE));
         k1 = k1 XOR ucast crc;
         k2 = k2 - ucast (drop_bit 16 crc);
         k0 = k0 XOR k2;
         k3 = word_rotr 1 k3 XOR k1;
         k3 = word_rotr 1 k3;
         k0 = k0 XOR k3
     in (k0, k1, k2, k3))"

fun rar15_decrypt :: "rar15_key \<Rightarrow> bytes \<Rightarrow> bytes \<times> rar15_key" where
  "rar15_decrypt key [] = ([], key)"
| "rar15_decrypt key (byte # data) =
     (let key = rar15_step key; (rest, key') = rar15_decrypt key data
      in ((byte XOR ucast (drop_bit 8 (fst key))) # rest, key'))"

section \<open>RAR 2.0\<close>

definition INIT_SUBST_TABLE20 :: "u8 list" where
  "INIT_SUBST_TABLE20 =
    [215, 19, 149, 35, 73, 197, 192, 205, 249, 28, 16, 119, 48, 221, 2, 42, 232, 1, 177,
     233, 14, 88, 219, 25, 223, 195, 244, 90, 87, 239, 153, 137, 255, 199, 147, 70, 92, 66,
     246, 13, 216, 40, 62, 29, 217, 230, 86, 6, 71, 24, 171, 196, 101, 113, 218, 123, 93,
     91, 163, 178, 202, 67, 44, 235, 107, 250, 75, 234, 49, 167, 125, 211, 83, 114, 157, 144,
     32, 193, 143, 36, 158, 124, 247, 187, 89, 214, 141, 47, 121, 228, 61, 130, 213, 194, 174,
     251, 97, 110, 54, 229, 115, 57, 152, 94, 105, 243, 212, 55, 209, 245, 63, 11, 164, 200,
     31, 156, 81, 176, 227, 21, 76, 99, 139, 188, 127, 17, 248, 51, 207, 120, 189, 210, 8,
     226, 41, 72, 183, 203, 135, 165, 166, 60, 98, 7, 122, 38, 155, 170, 69, 172, 252, 238,
     39, 134, 59, 128, 236, 27, 240, 80, 131, 3, 85, 206, 145, 79, 154, 142, 159, 220, 201,
     133, 74, 64, 20, 129, 224, 185, 138, 103, 173, 182, 43, 34, 254, 82, 198, 151, 231, 180,
     58, 10, 118, 26, 102, 12, 50, 132, 22, 191, 136, 111, 162, 179, 45, 4, 148, 108, 161,
     56, 78, 126, 242, 222, 15, 175, 146, 23, 33, 241, 181, 190, 77, 225, 0, 46, 169, 186,
     68, 95, 237, 65, 53, 208, 253, 168, 9, 18, 100, 52, 116, 184, 160, 96, 109, 37, 30,
     106, 140, 104, 150, 5, 204, 117, 112, 84]"

record rar20_decryptor =
  r20_key :: "u32 list"
  r20_subst :: "u8 list"

definition swap_at :: "'a list \<Rightarrow> nat \<Rightarrow> nat \<Rightarrow> 'a list" where
  "swap_at xs a b = xs[a := xs ! b, b := xs ! a]"

text \<open>The \<open>while n1 != n2\<close> loop: \<open>n1\<close> goes up by one, wrapping, until it meets \<open>n2\<close>.\<close>

function mix_subst :: "nat \<Rightarrow> nat \<Rightarrow> u8 \<Rightarrow> u8 \<Rightarrow> u8 list \<Rightarrow> u8 list" where
  "mix_subst i k n1 n2 subst =
     (if n1 = n2 then subst
      else mix_subst i (k + 1) (n1 + 1) n2 (swap_at subst (unat n1) ((unat n1 + i + k) mod 256)))"
  by pat_completeness auto
termination
proof (relation "measure (\<lambda>(i, k, n1, n2, s). unat (n2 - n1))")
  fix i k :: nat and n1 n2 :: u8 and s :: "u8 list"
  assume "n1 \<noteq> n2"
  then have "n2 - n1 \<noteq> 0" by simp
  then have "unat (n2 - n1 - 1) < unat (n2 - n1)" by (simp add: unat_minus_one unat_gt_0)
  then show "((i, k + 1, n1 + 1, n2, swap_at s (unat n1) ((unat n1 + i + k) mod 256)), (i, k, n1, n2, s))
      \<in> measure (\<lambda>(i, k, n1, n2, s). unat (n2 - n1))"
    by (simp add: algebra_simps)
qed simp

declare mix_subst.simps [simp del]

function mix_password :: "u8 \<Rightarrow> bytes \<Rightarrow> nat \<Rightarrow> u8 list \<Rightarrow> u8 list" where
  "mix_password j pwd i subst =
     (if i < length pwd then
        let left = pwd ! i;
            right = (if i + 1 < length pwd then pwd ! (i + 1) else 0);
            n1 = ucast (crc32_table ! unat (left - j) AND 0xFF);
            n2 = ucast (crc32_table ! unat (right + j) AND 0xFF)
        in mix_password j pwd (i + 2) (mix_subst i 1 n1 n2 subst)
      else subst)"
  by pat_completeness auto
termination by (relation "measure (\<lambda>(j, pwd, i, s). length pwd - i)") auto

declare mix_password.simps [simp del]

definition rar20_subst :: "bytes \<Rightarrow> u8 list" where
  "rar20_subst pwd = fold (\<lambda>j. mix_password (of_nat j) pwd 0) [0..<256] INIT_SUBST_TABLE20"

definition subst_long :: "u8 list \<Rightarrow> u32 \<Rightarrow> u32" where
  "subst_long subst value =
     ucast (subst ! unat (value AND 0xFF))
     OR push_bit 8 (ucast (subst ! unat (drop_bit 8 value AND 0xFF)))
     OR push_bit 16 (ucast (subst ! unat (drop_bit 16 value AND 0xFF)))
     OR push_bit 24 (ucast (subst ! unat (drop_bit 24 value AND 0xFF)))"

definition update_keys :: "bytes \<Rightarrow> u32 list \<Rightarrow> u32 list" where
  "update_keys data key =
     fold (\<lambda>chunk. map2 (\<lambda>b k. k XOR crc32_table ! unat b) (take 4 (drop (4 * chunk) data))) [0..<4] key"

type_synonym quad = "u32 \<times> u32 \<times> u32 \<times> u32"

definition rar20_round :: "rar20_decryptor \<Rightarrow> nat \<Rightarrow> quad \<Rightarrow> quad" where
  "rar20_round st round = (\<lambda>(a, b, c, d).
     let key = r20_key st ! (round mod 4);
         ta = a XOR subst_long (r20_subst st) ((c + word_rotl 11 d) XOR key);
         tb = b XOR subst_long (r20_subst st) ((d XOR word_rotl 17 c) + key)
     in (c, d, ta, tb))"

definition load_block :: "u32 list \<Rightarrow> bytes \<Rightarrow> quad" where
  "load_block key block =
     (from_le_bytes (take 4 block) XOR key ! 0, from_le_bytes (take 4 (drop 4 block)) XOR key ! 1,
      from_le_bytes (take 4 (drop 8 block)) XOR key ! 2, from_le_bytes (take 4 (drop 12 block)) XOR key ! 3)"

definition store_block :: "u32 list \<Rightarrow> quad \<Rightarrow> bytes" where
  "store_block key = (\<lambda>(a, b, c, d).
     to_le_bytes 4 (c XOR key ! 0) @ to_le_bytes 4 (d XOR key ! 1) @
     to_le_bytes 4 (a XOR key ! 2) @ to_le_bytes 4 (b XOR key ! 3))"

definition rar20_encrypt_block :: "rar20_decryptor \<Rightarrow> bytes \<Rightarrow> bytes \<times> rar20_decryptor" where
  "rar20_encrypt_block st block =
     (let out = store_block (r20_key st) (fold (rar20_round st) [0..<32] (load_block (r20_key st) block))
      in (out, st\<lparr>r20_key := update_keys out (r20_key st)\<rparr>))"

definition rar20_decrypt_block :: "rar20_decryptor \<Rightarrow> bytes \<Rightarrow> bytes \<times> rar20_decryptor" where
  "rar20_decrypt_block st block =
     (store_block (r20_key st) (fold (rar20_round st) (rev [0..<32]) (load_block (r20_key st) block)),
      st\<lparr>r20_key := update_keys block (r20_key st)\<rparr>)"

text \<open>\<open>chunks_exact_mut\<close>: block by block; an incomplete block at the end is left alone.\<close>

function over_blocks :: "('s \<Rightarrow> bytes \<Rightarrow> bytes \<times> 's) \<Rightarrow> 's \<Rightarrow> bytes \<Rightarrow> bytes \<times> 's" where
  "over_blocks f st data =
     (if length data < 16 then (data, st)
      else let (out, st) = f st (take 16 data); (rest, st) = over_blocks f st (drop 16 data)
           in (out @ rest, st))"
  by pat_completeness auto
termination by (relation "measure (\<lambda>(f, st, data). length data)") auto

declare over_blocks.simps [simp del]

definition rar20_decrypt :: "rar20_decryptor \<Rightarrow> bytes \<Rightarrow> bytes \<times> rar20_decryptor" where
  "rar20_decrypt = over_blocks rar20_decrypt_block"

definition rar20_encrypt :: "rar20_decryptor \<Rightarrow> bytes \<Rightarrow> bytes \<times> rar20_decryptor" where
  "rar20_encrypt = over_blocks rar20_encrypt_block"

definition rar20_new_from_bytes :: "bytes \<Rightarrow> rar20_decryptor" where
  "rar20_new_from_bytes pwd_bytes =
     (let padded = (if length pwd_bytes mod 16 \<noteq> 0
                    then pwd_bytes @ replicate ((length pwd_bytes + 15) div 16 * 16 - length pwd_bytes) 0
                    else pwd_bytes)
      in snd (rar20_encrypt \<lparr>r20_key = [0xD3A3B879, 0x3F6D12F7, 0x7515A235, 0xA4E7F123],
                r20_subst = rar20_subst pwd_bytes\<rparr> padded))"

definition rar20_new :: "rstring \<Rightarrow> rar20_decryptor" where
  "rar20_new password = rar20_new_from_bytes (as_bytes (rar_password_compat password))"

definition rar20_new_dos :: "rstring \<Rightarrow> rar20_decryptor" where
  "rar20_new_dos password = rar20_new_from_bytes (rar_password_oem_bytes_compat password)"

section \<open>What a decryptor promises\<close>

text \<open>A decryptor works on data of its width: it keeps the length, and data that is cut at a multiple
  of the width is decrypted piece by piece, the state carried over.\<close>

locale decryptor =
  fixes dec :: "'d \<Rightarrow> bytes \<Rightarrow> bytes \<times> 'd" and width :: "'d \<Rightarrow> nat"
  assumes dec_nil: "dec d [] = ([], d)"
    and dec_append: "width d dvd length a \<Longrightarrow> width d dvd length b \<Longrightarrow>
      dec d (a @ b) = (let (p, d') = dec d a; (q, d'') = dec d' b in (p @ q, d''))"
    and dec_width: "width d dvd length a \<Longrightarrow> width (snd (dec d a)) = width d"
    and dec_length: "width d dvd length a \<Longrightarrow> length (fst (dec d a)) = length a"
begin

lemma fst_dec_append:
  "width d dvd length a \<Longrightarrow> width d dvd length b \<Longrightarrow>
     fst (dec d (a @ b)) = fst (dec d a) @ fst (dec (snd (dec d a)) b)"
  by (simp add: dec_append split: prod.splits)

lemma snd_dec_append:
  "width d dvd length a \<Longrightarrow> width d dvd length b \<Longrightarrow> snd (dec d (a @ b)) = snd (dec (snd (dec d a)) b)"
  by (simp add: dec_append split: prod.splits)

end

interpretation rar13: decryptor rar13_decrypt "\<lambda>_. 1"
proof
  show "rar13_decrypt d (a @ b) = (let (p, d') = rar13_decrypt d a; (q, d'') = rar13_decrypt d' b in (p @ q, d''))"
    for d and a b :: bytes
    by (induction d a rule: rar13_decrypt.induct) (auto simp: Let_def split: prod.splits)
  show "length (fst (rar13_decrypt d a)) = length a" for d a
    by (induction d a rule: rar13_decrypt.induct) (auto simp: Let_def split: prod.splits)
qed auto

interpretation rar15: decryptor rar15_decrypt "\<lambda>_. 1"
proof
  show "rar15_decrypt d (a @ b) = (let (p, d') = rar15_decrypt d a; (q, d'') = rar15_decrypt d' b in (p @ q, d''))"
    for d and a b :: bytes
    by (induction d a rule: rar15_decrypt.induct) (auto simp: Let_def split: prod.splits)
  show "length (fst (rar15_decrypt d a)) = length a" for d a
    by (induction d a rule: rar15_decrypt.induct) (auto simp: Let_def split: prod.splits)
qed auto

lemma over_blocks_append:
  assumes "16 dvd length a"
  shows "over_blocks f st (a @ b) = (let (p, st) = over_blocks f st a; (q, st) = over_blocks f st b in (p @ q, st))"
  using assms
proof (induction f st a rule: over_blocks.induct)
  case (1 f st a)
  show ?case
  proof (cases "length a < 16")
    case True
    then have "a = []" using "1.prems" by (auto dest: dvd_imp_le)
    then show ?thesis by (simp add: over_blocks.simps [of f st "[]"])
  next
    case False
    then have "16 dvd length (drop 16 a)" using "1.prems" by (simp add: dvd_minus_self)
    then show ?thesis
      using False "1.IH" [OF False refl surjective_pairing [symmetric]]
      by (subst (1 2) over_blocks.simps) (auto simp: Let_def split: prod.splits)
  qed
qed

lemma length_store_block [simp]: "length (store_block key q) = 16"
  by (simp add: store_block_def split: prod.splits)

lemma over_blocks_length:
  assumes "\<And>st block. length (fst (f st block)) = 16"
  shows "length (fst (over_blocks f st data)) = length data"
  using assms
proof (induction f st data rule: over_blocks.induct)
  case (1 f st data)
  show ?case
  proof (cases "length data < 16")
    case True
    then show ?thesis by (simp add: over_blocks.simps)
  next
    case False
    then show ?thesis
      using "1.IH" [OF False refl surjective_pairing [symmetric]] "1.prems" [of st "take 16 data"] "1.prems"
      by (subst over_blocks.simps) (simp add: Let_def case_prod_beta)
  qed
qed

interpretation rar20: decryptor rar20_decrypt "\<lambda>_. 16"
  by unfold_locales
    (auto simp: rar20_decrypt_def over_blocks_append over_blocks.simps [of _ _ "[]"]
      intro!: over_blocks_length simp: rar20_decrypt_block_def)

section \<open>The RAR 2.0 cipher\<close>

text \<open>A round followed by the exchange of the halves undoes itself.\<close>

definition exchange :: "quad \<Rightarrow> quad" where
  "exchange = (\<lambda>(a, b, c, d). (c, d, a, b))"

lemma xor_twice [simp]: "(a XOR b) XOR b = (a :: 'a::len word)"
  by (simp add: xor.assoc)

lemma rar20_round_exchange: "rar20_round st r (exchange (rar20_round st r x)) = exchange x"
  by (cases x) (simp add: rar20_round_def exchange_def Let_def)

lemma rar20_rounds_exchange:
  "fold (rar20_round st) (rev rs) (exchange (fold (rar20_round st) rs x)) = exchange x"
proof (induction rs arbitrary: x)
  case (Cons r rs)
  then show ?case using rar20_round_exchange by simp
qed simp

lemma load_store_block: "length key = 4 \<Longrightarrow> load_block key (store_block key q) = exchange q"
  by (cases q) (simp add: load_block_def store_block_def exchange_def)

lemma store_exchange_load:
  assumes "length block = 16"
  shows "store_block key (exchange (load_block key block)) = block"
proof -
  have le: "to_le_bytes 4 (from_le_bytes (take 4 (drop n block)) :: u32) = take 4 (drop n block)" if "n + 4 \<le> 16" for n
    using to_from_le_bytes [where bs = "take 4 (drop n block)" and ?'a = 32] assms that by simp
  have cut: "drop n block = take 4 (drop n block) @ drop (n + 4) block" for n
    by (metis add.commute append_take_drop_id drop_drop)
  have "block = take 4 block @ take 4 (drop 4 block) @ take 4 (drop 8 block) @ take 4 (drop 12 block)"
    using cut [of 0] cut [of 4] cut [of 8] assms by (simp add: take_all)
  then show ?thesis
    using le [of 0] le [of 4] le [of 8] le [of 12]
    by (simp add: store_block_def load_block_def exchange_def)
qed

lemma rar20_block_roundtrip:
  assumes "length block = 16" "length (r20_key st) = 4"
  shows "rar20_decrypt_block st (fst (rar20_encrypt_block st block)) =
    (block, snd (rar20_encrypt_block st block))"
  using assms store_exchange_load [of block]
  by (simp add: rar20_decrypt_block_def rar20_encrypt_block_def Let_def load_store_block rar20_rounds_exchange)

lemma length_update_keys:
  assumes "length data = 16" "length key = 4"
  shows "length (update_keys data key) = 4"
proof -
  have "length (fold (\<lambda>chunk. map2 f (take 4 (drop (4 * chunk) data))) cs key) = 4"
    if "\<forall>c\<in>set cs. c < 4" for cs and f :: "u8 \<Rightarrow> u32 \<Rightarrow> u32"
    using that assms(2)
  proof (induction cs arbitrary: key)
    case (Cons c cs)
    have "4 \<le> 16 - 4 * c" using Cons.prems(1) by auto
    then have "length (map2 f (take 4 (drop (4 * c) data)) key) = 4" using Cons.prems assms(1) by simp
    then show ?case using Cons by simp
  qed simp
  then show ?thesis by (simp add: update_keys_def)
qed

lemma rar20_stream_roundtrip:
  assumes "16 dvd length data" "length (r20_key st) = 4"
  shows "rar20_decrypt st (fst (rar20_encrypt st data)) = (data, snd (rar20_encrypt st data))"
  using assms
proof (induction "length data" arbitrary: data st rule: less_induct)
  case less
  show ?case
  proof (cases "length data < 16")
    case True
    then show ?thesis by (simp add: rar20_decrypt_def rar20_encrypt_def over_blocks.simps)
  next
    case False
    let ?e = "rar20_encrypt_block st (take 16 data)"
    let ?r = "rar20_encrypt (snd ?e) (drop 16 data)"
    have len: "length (fst ?e) = 16" by (simp add: rar20_encrypt_block_def Let_def)
    have enc: "rar20_encrypt st data = (fst ?e @ fst ?r, snd ?r)"
      using False by (simp add: rar20_encrypt_def over_blocks.simps [of _ st data] case_prod_beta)
    have blk: "rar20_decrypt_block st (fst ?e) = (take 16 data, snd ?e)"
      using False less.prems(2) by (intro rar20_block_roundtrip) simp_all
    have "length (r20_key (snd ?e)) = 4"
      using len less.prems(2) by (simp add: rar20_encrypt_block_def Let_def length_update_keys)
    moreover have "16 dvd length (drop 16 data)" using False less.prems(1) by (simp add: dvd_minus_self)
    ultimately have "rar20_decrypt (snd ?e) (fst ?r) = (drop 16 data, snd ?r)"
      using False by (intro less.hyps) simp_all
    moreover have "rar20_decrypt st (fst ?e @ fst ?r) =
        (let (p, st) = rar20_decrypt_block st (fst ?e); (q, st) = rar20_decrypt st (fst ?r) in (p @ q, st))"
      by (simp add: rar20_decrypt_def over_blocks.simps [of _ st "fst ?e @ fst ?r"] len case_prod_beta)
    ultimately show ?thesis by (simp add: enc blk)
  qed
qed

lemma rar20_encrypt_key: "length (r20_key st) = 4 \<Longrightarrow> length (r20_key (snd (rar20_encrypt st data))) = 4"
proof (induction "length data" arbitrary: data st rule: less_induct)
  case less
  have "length (r20_key (snd (rar20_encrypt_block st block))) = 4" for block
    using less.prems by (simp add: rar20_encrypt_block_def Let_def length_update_keys)
  then show ?case
    using less by (simp add: rar20_encrypt_def over_blocks.simps [of _ st data] case_prod_beta)
qed

lemma rar20_new_key: "length (r20_key (rar20_new_from_bytes pwd)) = 4"
  by (simp add: rar20_new_from_bytes_def Let_def rar20_encrypt_key)

text \<open>Swapping entries keeps the substitution table a permutation of the bytes.\<close>

lemma mset_mix_subst: "length subst = 256 \<Longrightarrow> mset (mix_subst i k n1 n2 subst) = mset subst"
proof (induction i k n1 n2 subst rule: mix_subst.induct)
  case (1 i k n1 n2 subst)
  have "unat n1 < 256" using unat_bound [of n1] by simp
  then have "mset (swap_at subst (unat n1) ((unat n1 + i + k) mod 256)) = mset subst"
    using "1.prems" by (simp add: swap_at_def mset_swap)
  then show ?case
    using "1.IH" "1.prems" by (subst mix_subst.simps) (auto dest: mset_eq_length)
qed

lemma mset_mix_password: "length subst = 256 \<Longrightarrow> mset (mix_password j pwd i subst) = mset subst"
proof (induction j pwd i subst rule: mix_password.induct)
  case (1 j pwd i subst)
  then show ?case
    by (subst mix_password.simps) (simp add: Let_def mset_mix_subst mset_eq_length [OF mset_mix_subst])
qed

lemma mset_mix_passwords:
  "length subst = 256 \<Longrightarrow> mset (fold (\<lambda>j. mix_password (of_nat j) pwd 0) js subst) = mset subst"
proof (induction js arbitrary: subst)
  case (Cons j js)
  have "mset (mix_password (of_nat j) pwd 0 subst) = mset subst" using Cons.prems by (rule mset_mix_password)
  then show ?case using Cons mset_eq_length [OF \<open>mset (mix_password (of_nat j) pwd 0 subst) = mset subst\<close>] by simp
qed simp

lemma length_INIT_SUBST_TABLE20: "length INIT_SUBST_TABLE20 = 256"
  by code_simp

lemma mset_rar20_subst: "mset (rar20_subst pwd) = mset INIT_SUBST_TABLE20"
  unfolding rar20_subst_def by (rule mset_mix_passwords [OF length_INIT_SUBST_TABLE20])

lemma distinct_INIT_SUBST_TABLE20: "distinct INIT_SUBST_TABLE20"
proof -
  have "sort INIT_SUBST_TABLE20 = map of_nat [0..<256]" by code_simp
  moreover have "unat (of_nat n :: u8) = n" if "n < 256" for n using that by (simp add: unat_of_nat)
  then have "distinct (map of_nat [0..<256] :: u8 list)"
    by (auto simp: distinct_map inj_on_def) metis
  ultimately show ?thesis by (metis distinct_sort)
qed

section \<open>Properties\<close>

text \<open>C20: RAR 2.0 decryption undoes RAR 2.0 encryption block by block, under every password: data of
  whole blocks comes back, and both ends carry the same key on to the next block.\<close>

theorem rar20_roundtrip:
  assumes "16 dvd length data"
  shows "rar20_decrypt (rar20_new password) (fst (rar20_encrypt (rar20_new password) data)) =
    (data, snd (rar20_encrypt (rar20_new password) data))"
  using assms by (simp add: rar20_stream_roundtrip rar20_new_def rar20_new_key)

theorem rar20_roundtrip_witness:
  "fst (rar20_decrypt (rar20_new [0x61]) (fst (rar20_encrypt (rar20_new [0x61]) (replicate 32 7)))) =
    replicate 32 7"
  using rar20_roundtrip [of "replicate 32 7" "[0x61]"] by simp

text \<open>key setup keeps the substitution table of RAR 2.0 a permutation: under every password each
  byte occurs in it exactly once.\<close>

theorem rar20_subst_permutation:
  "length (rar20_subst pwd) = 256 \<and> distinct (rar20_subst pwd) \<and> set (rar20_subst pwd) = UNIV"
proof -
  have d: "distinct (rar20_subst pwd)" "length (rar20_subst pwd) = 256"
    using mset_rar20_subst [of pwd] distinct_INIT_SUBST_TABLE20 length_INIT_SUBST_TABLE20
    by (metis mset_eq_imp_distinct_iff, metis mset_eq_length)
  have "card (set (rar20_subst pwd)) = CARD(u8)" using d by (simp add: distinct_card card_word)
  then have "set (rar20_subst pwd) = UNIV" by (simp add: card_eq_UNIV_imp_eq_UNIV)
  then show ?thesis using d by simp
qed

end
