(* ===== verification/Decrypting_Reader.thy ===== *)
theory Decrypting_Reader
  imports Legacy_Ciphers Rar5_Cipher
begin

text \<open>
  \<open>DecryptingReader\<close> of \<open>unrar-rs/src/crypto/mod.rs\<close>: a reader that decrypts what another reader
  delivers, in place and in whole blocks, carrying an incomplete block of ciphertext and, for small
  buffers, a block of plaintext from call to call. The reader below it is a function from a buffer
  size to the bytes it delivered: possibly fewer than asked for, none only at the end.
\<close>

section \<open>Any of the decryptors\<close>

datatype cbc_decryptor_any =
    AnyRar5 cbc_decryptor
  | AnyRar4 cbc_decryptor
  | AnyRar13 rar13_key
  | AnyRar15 rar15_key
  | AnyRar20 rar20_decryptor

datatype decryptor_mode = Streaming | BlockAligned

fun mode_of :: "cbc_decryptor_any \<Rightarrow> decryptor_mode" where
  "mode_of (AnyRar13 _) = Streaming"
| "mode_of (AnyRar15 _) = Streaming"
| "mode_of (AnyRar5 _) = BlockAligned"
| "mode_of (AnyRar4 _) = BlockAligned"
| "mode_of (AnyRar20 _) = BlockAligned"

text \<open>The two AES widths of the cipher library are parameters.\<close>

fun decrypt_any :: "cipher \<Rightarrow> cipher \<Rightarrow> cbc_decryptor_any \<Rightarrow> bytes \<Rightarrow> bytes \<times> cbc_decryptor_any" where
  "decrypt_any aes256 aes128 (AnyRar5 d) data = map_prod id AnyRar5 (decrypt_blocks aes256 d data)"
| "decrypt_any aes256 aes128 (AnyRar4 d) data = map_prod id AnyRar4 (decrypt_blocks aes128 d data)"
| "decrypt_any aes256 aes128 (AnyRar13 d) data = map_prod id AnyRar13 (rar13_decrypt d data)"
| "decrypt_any aes256 aes128 (AnyRar15 d) data = map_prod id AnyRar15 (rar15_decrypt d data)"
| "decrypt_any aes256 aes128 (AnyRar20 d) data = map_prod id AnyRar20 (rar20_decrypt d data)"

section \<open>The reader\<close>

type_synonym 'i read = "nat \<Rightarrow> 'i \<Rightarrow> bytes rar_result \<times> 'i"

text \<open>\<open>dr_pending\<close> is \<open>pending[..pending_len]\<close> and \<open>dr_plain\<close> is \<open>plain[plain_pos..plain_len]\<close>.\<close>

record ('i, 'd) decrypting_reader =
  dr_inner :: 'i
  dr_decryptor :: 'd
  dr_pending :: bytes
  dr_plain :: bytes
  dr_inner_eof :: bool

definition new_with_decryptor :: "'i \<Rightarrow> 'd \<Rightarrow> ('i, 'd) decrypting_reader" where
  "new_with_decryptor inner d =
     \<lparr>dr_inner = inner, dr_decryptor = d, dr_pending = [], dr_plain = [], dr_inner_eof = False\<rparr>"

definition new_rar5 :: "'i \<Rightarrow> bytes \<Rightarrow> bytes \<Rightarrow> ('i, cbc_decryptor_any) decrypting_reader" where
  "new_rar5 inner key iv = new_with_decryptor inner (AnyRar5 (cbc_decryptor_new key iv))"

definition new_rar4 :: "'i \<Rightarrow> bytes \<Rightarrow> bytes \<Rightarrow> ('i, cbc_decryptor_any) decrypting_reader" where
  "new_rar4 inner key iv = new_with_decryptor inner (AnyRar4 (cbc_decryptor_new key iv))"

datatype rar4_encryption_method = MethodRar13 | MethodRar15 | MethodRar20 | MethodRar30

text \<open>\<open>None\<close> is the \<open>unreachable!\<close> of a method that has its own constructor.\<close>

definition new_rar4_legacy ::
  "(bytes \<Rightarrow> u32) \<Rightarrow> 'i \<Rightarrow> rar4_encryption_method \<Rightarrow> rstring \<Rightarrow> ('i, cbc_decryptor_any) decrypting_reader option" where
  "new_rar4_legacy crc32 inner method password =
     map_option (new_with_decryptor inner)
       (case method of
          MethodRar13 \<Rightarrow> Some (AnyRar13 (rar13_new password))
        | MethodRar15 \<Rightarrow> Some (AnyRar15 (rar15_new crc32 password))
        | MethodRar20 \<Rightarrow> Some (AnyRar20 (rar20_new password))
        | MethodRar30 \<Rightarrow> None)"

definition new_rar4_legacy_dos ::
  "(bytes \<Rightarrow> u32) \<Rightarrow> 'i \<Rightarrow> rar4_encryption_method \<Rightarrow> rstring \<Rightarrow> ('i, cbc_decryptor_any) decrypting_reader option" where
  "new_rar4_legacy_dos crc32 inner method password =
     map_option (new_with_decryptor inner)
       (case method of
          MethodRar13 \<Rightarrow> Some (AnyRar13 (rar13_new_dos password))
        | MethodRar15 \<Rightarrow> Some (AnyRar15 (rar15_new_dos crc32 password))
        | MethodRar20 \<Rightarrow> Some (AnyRar20 (rar20_new_dos password))
        | MethodRar30 \<Rightarrow> None)"

text \<open>The loops that fill a buffer of \<open>cap\<close> bytes until it holds a block: an error keeps what has
  been read, an empty read is the end.\<close>

function fill_block :: "'i read \<Rightarrow> nat \<Rightarrow> bytes \<Rightarrow> 'i \<Rightarrow> bool \<Rightarrow> unit rar_result \<times> bytes \<times> 'i \<times> bool" where
  "fill_block rd cap acc inner eof =
     (if length acc < cap \<and> \<not> eof then
        case rd (cap - length acc) inner of
          (Inl e, inner) \<Rightarrow> (Inl e, acc, inner, eof)
        | (Inr bs, inner) \<Rightarrow>
            if bs = [] then (Inr (), acc, inner, True)
            else if length (acc @ bs) \<ge> 16 then (Inr (), acc @ bs, inner, eof)
            else fill_block rd cap (acc @ bs) inner eof
      else (Inr (), acc, inner, eof))"
  by pat_completeness auto
termination
  by (relation "measure (\<lambda>(rd, cap, acc, inner, eof). cap - length acc)")
    (auto simp: neq_Nil_conv intro!: diff_less_mono2)

declare fill_block.simps [simp del]

definition misaligned :: rar_error where
  "misaligned = CorruptArchive OtherDetail"

definition stage_block ::
  "('d \<Rightarrow> bytes \<Rightarrow> bytes \<times> 'd) \<Rightarrow> 'i read \<Rightarrow> ('i, 'd) decrypting_reader \<Rightarrow>
     nat rar_result \<times> ('i, 'd) decrypting_reader" where
  "stage_block dec rd st =
     (case fill_block rd 16 (dr_pending st) (dr_inner st) (dr_inner_eof st) of
        (Inl e, acc, inner, eof) \<Rightarrow>
          (Inl e, st\<lparr>dr_inner := inner, dr_inner_eof := eof, dr_pending := acc\<rparr>)
      | (Inr _, acc, inner, eof) \<Rightarrow>
          let st = st\<lparr>dr_inner := inner, dr_inner_eof := eof, dr_pending := []\<rparr> in
          if acc = [] then (Inr 0, st)
          else if length acc < 16 then (Inl misaligned, st\<lparr>dr_pending := acc\<rparr>)
          else let (p, d) = dec (dr_decryptor st) acc
               in (Inr 16, st\<lparr>dr_decryptor := d, dr_plain := p\<rparr>))"

definition serve_plain :: "nat \<Rightarrow> ('i, 'd) decrypting_reader \<Rightarrow> bytes rar_result \<times> ('i, 'd) decrypting_reader" where
  "serve_plain n st =
     (let k = min (length (dr_plain st)) n
      in (Inr (take k (dr_plain st)), st\<lparr>dr_plain := drop k (dr_plain st)\<rparr>))"

text \<open>A whole buffer of at least one block, decrypted where it lies.\<close>

definition read_blocks ::
  "('d \<Rightarrow> bytes \<Rightarrow> bytes \<times> 'd) \<Rightarrow> 'i read \<Rightarrow> nat \<Rightarrow> ('i, 'd) decrypting_reader \<Rightarrow>
     bytes rar_result \<times> ('i, 'd) decrypting_reader" where
  "read_blocks dec rd n st =
     (case fill_block rd n (dr_pending st) (dr_inner st) (dr_inner_eof st) of
        (Inl e, acc, inner, eof) \<Rightarrow>
          (Inl e, st\<lparr>dr_inner := inner, dr_inner_eof := eof, dr_pending := acc\<rparr>)
      | (Inr _, acc, inner, eof) \<Rightarrow>
          let complete = length acc - length acc mod 16;
              st = st\<lparr>dr_inner := inner, dr_inner_eof := eof, dr_pending := drop complete acc\<rparr>
          in if complete = 0
             then (if drop complete acc \<noteq> [] then Inl misaligned else Inr [], st)
             else let (p, d) = dec (dr_decryptor st) (take complete acc)
                  in (Inr p, st\<lparr>dr_decryptor := d\<rparr>))"

definition dr_read ::
  "('d \<Rightarrow> bytes \<Rightarrow> bytes \<times> 'd) \<Rightarrow> ('d \<Rightarrow> decryptor_mode) \<Rightarrow> 'i read \<Rightarrow> ('i, 'd) decrypting_reader read" where
  "dr_read dec mode rd n st =
     (if mode (dr_decryptor st) = Streaming then
        (case rd n (dr_inner st) of
           (Inl e, inner) \<Rightarrow> (Inl e, st\<lparr>dr_inner := inner\<rparr>)
         | (Inr bs, inner) \<Rightarrow>
             if bs = [] then (Inr [], st\<lparr>dr_inner := inner\<rparr>)
             else let (p, d) = dec (dr_decryptor st) bs
                  in (Inr p, st\<lparr>dr_inner := inner, dr_decryptor := d\<rparr>))
      else if dr_plain st \<noteq> [] then serve_plain n st
      else if n = 0 then (Inr [], st)
      else if dr_inner_eof st \<and> dr_pending st = [] then (Inr [], st)
      else if n < 16 then
        (case stage_block dec rd st of
           (Inl e, st) \<Rightarrow> (Inl e, st)
         | (Inr k, st) \<Rightarrow> if k = 0 then (Inr [], st) else serve_plain n st)
      else read_blocks dec rd n st)"

section \<open>What a source of bytes promises\<close>

text \<open>In a good state a read gives some of the bytes still to come, at most as many as asked for, and
  none only when nothing was asked for or nothing is left.\<close>

locale byte_source =
  fixes rd :: "'i read" and good :: "'i \<Rightarrow> bool" and rest :: "'i \<Rightarrow> bytes"
  assumes read_some: "good i \<Longrightarrow> \<exists>bs i'. rd n i = (Inr bs, i') \<and> good i' \<and> length bs \<le> n
    \<and> rest i = bs @ rest i' \<and> (bs = [] \<longrightarrow> n = 0 \<or> rest i = [])"

text \<open>\<open>Cursor::read\<close>, and \<open>Read::take\<close> over it: a limit and the reader below.\<close>

definition cursor_read :: "reader read" where
  "cursor_read n r = (Inr (take n (drop (r_pos r) (r_img r))),
     r\<lparr>r_pos := r_pos r + length (take n (drop (r_pos r) (r_img r)))\<rparr>)"

definition take_read :: "'i read \<Rightarrow> (nat \<times> 'i) read" where
  "take_read rd n = (\<lambda>(limit, i).
     if limit = 0 then (Inr [], (limit, i))
     else case rd (min n limit) i of
            (Inl e, i) \<Rightarrow> (Inl e, (limit, i))
          | (Inr bs, i) \<Rightarrow> (Inr bs, (limit - length bs, i)))"

interpretation cursor: byte_source cursor_read "\<lambda>_. True" "\<lambda>r. drop (r_pos r) (r_img r)"
proof
  fix n and r :: reader
  let ?d = "drop (r_pos r) (r_img r)"
  have "drop (r_pos r + length (take n ?d)) (r_img r) = drop n ?d"
    by (cases "n \<le> length ?d") (simp_all add: add.commute)
  then have "?d = take n ?d @ drop (r_pos r + length (take n ?d)) (r_img r)"
    by (simp only: append_take_drop_id)
  then show "\<exists>bs r'. cursor_read n r = (Inr bs, r') \<and> True \<and> length bs \<le> n
      \<and> ?d = bs @ drop (r_pos r') (r_img r') \<and> (bs = [] \<longrightarrow> n = 0 \<or> ?d = [])"
    by (simp add: cursor_read_def)
qed

text \<open>A run of reads with the given buffer sizes, up to the first error.\<close>

fun read_many :: "'i read \<Rightarrow> nat list \<Rightarrow> 'i \<Rightarrow> bytes rar_result \<times> 'i" where
  "read_many rd [] i = (Inr [], i)"
| "read_many rd (n # ns) i =
     io_then (rd n i) (\<lambda>bs i. io_then (read_many rd ns i) (\<lambda>more i. (Inr (bs @ more), i)))"

context byte_source
begin

lemma take_source: "byte_source (take_read rd) (\<lambda>(limit, i). good i) (\<lambda>(limit, i). take limit (rest i))"
proof
  fix n and i :: "nat \<times> 'i"
  assume "case i of (limit, i) \<Rightarrow> good i"
  then obtain limit s where i: "i = (limit, s)" "good s" by (cases i) simp
  obtain bs s' where s': "rd (min n limit) s = (Inr bs, s')" "good s'" "length bs \<le> min n limit" "rest s = bs @ rest s'"
      "bs = [] \<longrightarrow> min n limit = 0 \<or> rest s = []"
    using read_some [OF i(2)] by blast
  show "\<exists>bs i'. take_read rd n i = (Inr bs, i') \<and> (case i' of (limit, i) \<Rightarrow> good i) \<and> length bs \<le> n
      \<and> (case i of (limit, i) \<Rightarrow> take limit (rest i)) = bs @ (case i' of (limit, i) \<Rightarrow> take limit (rest i))
      \<and> (bs = [] \<longrightarrow> n = 0 \<or> (case i of (limit, i) \<Rightarrow> take limit (rest i)) = [])"
    using s' i by (cases "limit = 0") (auto simp: take_read_def)
qed

text \<open>Reads deliver the bytes in order, and as many nonempty buffers as there are bytes deliver all.\<close>

lemma read_many_prefix:
  assumes "good i" "\<forall>n\<in>set ns. 0 < n"
  shows "\<exists>bs i'. read_many rd ns i = (Inr bs, i') \<and> good i' \<and> rest i = bs @ rest i'
    \<and> (length (rest i) \<le> length ns \<longrightarrow> rest i' = [])"
  using assms
proof (induction ns arbitrary: i)
  case (Cons n ns)
  obtain bs i1 where 1: "rd n i = (Inr bs, i1)" "good i1" "rest i = bs @ rest i1" "bs = [] \<longrightarrow> n = 0 \<or> rest i = []"
    using read_some [OF Cons.prems(1)] by blast
  obtain bs' i2 where 2: "read_many rd ns i1 = (Inr bs', i2)" "good i2" "rest i1 = bs' @ rest i2"
      "length (rest i1) \<le> length ns \<longrightarrow> rest i2 = []"
    using Cons.IH [OF 1(2)] Cons.prems(2) by auto
  have "length (rest i) \<le> Suc (length ns) \<longrightarrow> rest i2 = []"
    using 1(3,4) 2(3,4) Cons.prems(2) by (cases bs) auto
  then show ?case using 1 2 by simp
qed simp

lemma fill_block_source:
  assumes "good i" "length acc < 16" "16 \<le> cap" "eof \<longrightarrow> rest i = []"
  shows "\<exists>acc' i' eof'. fill_block rd cap acc i eof = (Inr (), acc', i', eof') \<and> good i'
    \<and> acc @ rest i = acc' @ rest i' \<and> length acc' \<le> cap \<and> (eof' \<longrightarrow> rest i' = [])
    \<and> (length acc' < 16 \<longrightarrow> rest i' = [])"
  using assms
proof (induction "cap - length acc" arbitrary: acc i eof rule: less_induct)
  case less
  show ?case
  proof (cases eof)
    case True
    then show ?thesis using less.prems by (auto simp: fill_block.simps)
  next
    case False
    obtain bs i1 where 1: "rd (cap - length acc) i = (Inr bs, i1)" "good i1" "length bs \<le> cap - length acc"
        "rest i = bs @ rest i1" "bs = [] \<longrightarrow> cap - length acc = 0 \<or> rest i = []"
      using read_some [OF less.prems(1)] by blast
    have step: "fill_block rd cap acc i eof = (if bs = [] then (Inr (), acc, i1, True)
        else if 16 \<le> length (acc @ bs) then (Inr (), acc @ bs, i1, False) else fill_block rd cap (acc @ bs) i1 False)"
      using 1(1) False less.prems(2,3) by (subst fill_block.simps) simp
    consider "bs = []" | "bs \<noteq> []" "16 \<le> length (acc @ bs)" | "bs \<noteq> []" "length (acc @ bs) < 16" by linarith
    then show ?thesis
    proof cases
      case 1
      then have "rest i = []" "rest i1 = []" using \<open>rest i = bs @ rest i1\<close> \<open>bs = [] \<longrightarrow> _\<close> less.prems(2,3) by auto
      then show ?thesis using step 1 \<open>good i1\<close> less.prems(2,3)
        by (intro exI [of _ acc] exI [of _ i1] exI [of _ True]) simp
    next
      case 2
      then show ?thesis using step \<open>good i1\<close> \<open>rest i = bs @ rest i1\<close> \<open>length bs \<le> _\<close> less.prems(2,3)
        by (intro exI [of _ "acc @ bs"] exI [of _ i1] exI [of _ False]) simp
    next
      case 3
      then have "cap - length (acc @ bs) < cap - length acc" using less.prems(2,3) by (cases bs) auto
      from less.hyps [OF this \<open>good i1\<close> 3(2) less.prems(3), of False] show ?thesis
        using step 3 \<open>rest i = bs @ rest i1\<close> by simp
    qed
  qed
qed

end

section \<open>Decryption of a source is a source\<close>

text \<open>A decrypting reader over a source whose ciphertext is a whole number of blocks is itself a
  source: of the plaintext held back and the decryption of everything still to come.\<close>

locale decrypting = decryptor dec width + byte_source rd good rest
  for dec :: "'d \<Rightarrow> bytes \<Rightarrow> bytes \<times> 'd" and width :: "'d \<Rightarrow> nat"
    and rd :: "'i read" and good :: "'i \<Rightarrow> bool" and rest :: "'i \<Rightarrow> bytes" +
  fixes mode :: "'d \<Rightarrow> decryptor_mode"
  assumes width_mode: "width d = (if mode d = Streaming then 1 else 16)"
begin

definition dr_good :: "('i, 'd) decrypting_reader \<Rightarrow> bool" where
  "dr_good st \<longleftrightarrow> good (dr_inner st) \<and>
     (if mode (dr_decryptor st) = Streaming then dr_pending st = [] \<and> dr_plain st = []
      else length (dr_pending st) < 16 \<and> 16 dvd length (dr_pending st @ rest (dr_inner st))
        \<and> (dr_inner_eof st \<longrightarrow> rest (dr_inner st) = []))"

definition dr_rest :: "('i, 'd) decrypting_reader \<Rightarrow> bytes" where
  "dr_rest st = dr_plain st @ fst (dec (dr_decryptor st) (dr_pending st @ rest (dr_inner st)))"

lemma serve_plain_source:
  assumes "dr_good st" "mode (dr_decryptor st) \<noteq> Streaming" "dr_plain st \<noteq> []"
  shows "\<exists>bs st'. serve_plain n st = (Inr bs, st') \<and> dr_good st' \<and> length bs \<le> n
    \<and> dr_rest st = bs @ dr_rest st' \<and> (bs = [] \<longrightarrow> n = 0 \<or> dr_rest st = [])"
proof -
  have "dr_plain st = take k (dr_plain st) @ drop k (dr_plain st)" for k by simp
  then show ?thesis
    using assms by (auto simp: serve_plain_def Let_def dr_good_def dr_rest_def min_def split: if_splits)
qed

lemma dec_blocks:
  assumes "mode d \<noteq> Streaming" "16 dvd length a" "16 dvd length (a @ b)"
  shows "fst (dec d (a @ b)) = fst (dec d a) @ fst (dec (snd (dec d a)) b)" "length (fst (dec d a)) = length a"
    "mode (snd (dec d a)) \<noteq> Streaming"
proof -
  have w: "width d = 16" using assms(1) by (simp add: width_mode)
  have b: "16 dvd length b" using assms(2,3) by (simp add: dvd_add_right_iff)
  show "fst (dec d (a @ b)) = fst (dec d a) @ fst (dec (snd (dec d a)) b)" "length (fst (dec d a)) = length a"
    using fst_dec_append [of d a b] dec_length [of d a] w assms(2) b by simp_all
  show "mode (snd (dec d a)) \<noteq> Streaming"
    using dec_width [of d a] w assms(2) width_mode [of "snd (dec d a)"] by (auto split: if_splits)
qed

lemma fst_dec_nil [simp]: "fst (dec d []) = []"
  by (simp add: dec_nil)

lemma stage_block_source:
  assumes "dr_good st" "mode (dr_decryptor st) \<noteq> Streaming" "dr_plain st = []"
  shows "\<exists>k st'. stage_block dec rd st = (Inr k, st') \<and> dr_good st' \<and> dr_rest st' = dr_rest st
    \<and> mode (dr_decryptor st') \<noteq> Streaming \<and> (if k = 0 then dr_rest st = [] else dr_plain st' \<noteq> [])"
proof -
  let ?all = "dr_pending st @ rest (dr_inner st)"
  have g: "good (dr_inner st)" "length (dr_pending st) < 16" "16 dvd length ?all"
      "dr_inner_eof st \<longrightarrow> rest (dr_inner st) = []"
    using assms(1,2) by (simp_all add: dr_good_def)
  obtain acc i eof where f: "fill_block rd 16 (dr_pending st) (dr_inner st) (dr_inner_eof st) = (Inr (), acc, i, eof)"
      "good i" "?all = acc @ rest i" "length acc \<le> 16" "eof \<longrightarrow> rest i = []" "length acc < 16 \<longrightarrow> rest i = []"
    using fill_block_source [OF g(1,2) _ g(4), of 16] by auto
  show ?thesis
  proof (cases "acc = []")
    case True
    then have "rest i = []" using f(6) by simp
    then show ?thesis
      using True f assms by (simp add: stage_block_def Let_def dr_good_def dr_rest_def)
  next
    case False
    have all: "16 dvd length (acc @ rest i)" using g(3) f(3) by simp
    have len: "length acc = 16"
    proof (rule ccontr)
      assume "length acc \<noteq> 16"
      then have "length acc < 16" "16 dvd length acc" using f(4,6) all by auto
      then show False using False by (auto dest: dvd_imp_le)
    qed
    then have "16 dvd length acc" by simp
    note blocks = dec_blocks [OF assms(2) this all]
    have ne: "fst (dec (dr_decryptor st) acc) \<noteq> []" using blocks(2) len by auto
    have "16 dvd length (rest i)" using all len by simp
    then show ?thesis
      using False f(1,2,5) len assms blocks ne
      by (simp add: stage_block_def dr_good_def dr_rest_def case_prod_beta f(3))
  qed
qed

lemma read_blocks_source:
  assumes "dr_good st" "mode (dr_decryptor st) \<noteq> Streaming" "dr_plain st = []" "16 \<le> n"
  shows "\<exists>bs st'. read_blocks dec rd n st = (Inr bs, st') \<and> dr_good st' \<and> length bs \<le> n
    \<and> dr_rest st = bs @ dr_rest st' \<and> (bs = [] \<longrightarrow> n = 0 \<or> dr_rest st = [])"
proof -
  let ?all = "dr_pending st @ rest (dr_inner st)"
  have g: "good (dr_inner st)" "length (dr_pending st) < 16" "16 dvd length ?all"
      "dr_inner_eof st \<longrightarrow> rest (dr_inner st) = []"
    using assms(1,2) by (simp_all add: dr_good_def)
  obtain acc i eof where f: "fill_block rd n (dr_pending st) (dr_inner st) (dr_inner_eof st) = (Inr (), acc, i, eof)"
      "good i" "?all = acc @ rest i" "length acc \<le> n" "eof \<longrightarrow> rest i = []" "length acc < 16 \<longrightarrow> rest i = []"
    using fill_block_source [OF g(1,2) assms(4) g(4)] by auto
  define complete where "complete = length acc - length acc mod 16"
  have all: "16 dvd length (acc @ rest i)" using g(3) f(3) by simp
  show ?thesis
  proof (cases "complete = 0")
    case True
    then have "length acc < 16" by (simp add: complete_def)
    then have "acc = []" "rest i = []" using f(6) all by (auto dest: dvd_imp_le)
    then show ?thesis
      using f(1,2,5) assms by (simp add: read_blocks_def dr_good_def dr_rest_def f(3))
  next
    case False
    let ?d = "dr_decryptor st" and ?a = "take complete acc" and ?b = "drop complete acc"
    let ?st = "st\<lparr>dr_inner := i, dr_inner_eof := eof, dr_pending := ?b, dr_decryptor := snd (dec ?d ?a)\<rparr>"
    have len: "length ?a = complete" "length ?b < 16" "16 dvd complete"
      by (simp_all add: complete_def minus_mod_eq_mult_div)
    have cut: "acc @ rest i = ?a @ (?b @ rest i)" by simp
    have "16 dvd length ?a" using len by simp
    moreover have "16 dvd length (?a @ (?b @ rest i))" using all cut by simp
    ultimately have blocks: "fst (dec ?d (?a @ (?b @ rest i))) = fst (dec ?d ?a) @ fst (dec (snd (dec ?d ?a)) (?b @ rest i))"
        "length (fst (dec ?d ?a)) = complete" "mode (snd (dec ?d ?a)) \<noteq> Streaming"
      using dec_blocks [OF assms(2), of ?a "?b @ rest i"] len(1) by simp_all
    have "16 dvd length (?b @ rest i)" using all len cut by (metis dvd_add_right_iff length_append)
    then have good: "dr_good ?st" using f(2,5) len(2) blocks(3) by (simp add: dr_good_def)
    have "dr_rest st = fst (dec ?d ?a) @ dr_rest ?st"
      using blocks(1) assms(3) f(3) cut by (simp add: dr_rest_def)
    moreover have "read_blocks dec rd n st = (Inr (fst (dec ?d ?a)), ?st)"
      using False unfolding read_blocks_def f(1)
      by (simp add: complete_def [symmetric] case_prod_beta del: diff_is_0_eq diff_is_0_eq')
    moreover have "fst (dec ?d ?a) \<noteq> []" "complete \<le> n" using blocks(2) False f(4) by (auto simp: complete_def)
    ultimately show ?thesis using good blocks(2) by simp
  qed
qed

lemma streaming_source:
  assumes "dr_good st" "mode (dr_decryptor st) = Streaming"
  shows "\<exists>bs st'. dr_read dec mode rd n st = (Inr bs, st') \<and> dr_good st' \<and> length bs \<le> n
    \<and> dr_rest st = bs @ dr_rest st' \<and> (bs = [] \<longrightarrow> n = 0 \<or> dr_rest st = [])"
proof -
  let ?d = "dr_decryptor st"
  have g: "good (dr_inner st)" "dr_pending st = []" "dr_plain st = []" using assms by (simp_all add: dr_good_def)
  obtain bs i where b: "rd n (dr_inner st) = (Inr bs, i)" "good i" "length bs \<le> n" "rest (dr_inner st) = bs @ rest i"
      "bs = [] \<longrightarrow> n = 0 \<or> rest (dr_inner st) = []"
    using read_some [OF g(1)] by blast
  have w: "width ?d = 1" using assms(2) by (simp add: width_mode)
  have "width (snd (dec ?d bs)) = 1" using dec_width [of ?d bs] w by simp
  then have "mode (snd (dec ?d bs)) = Streaming"
    unfolding width_mode [of "snd (dec ?d bs)"] by (simp split: if_splits)
  moreover have "fst (dec ?d (bs @ rest i)) = fst (dec ?d bs) @ fst (dec (snd (dec ?d bs)) (rest i))"
    "length (fst (dec ?d bs)) = length bs"
    using fst_dec_append [of ?d bs "rest i"] dec_length [of ?d bs] w by simp_all
  ultimately have next_state: "dr_good st' \<and> dr_rest st = fst (dec ?d bs) @ dr_rest st' \<and> length (fst (dec ?d bs)) \<le> n"
    if "st' = st\<lparr>dr_inner := i, dr_decryptor := snd (dec ?d bs)\<rparr>" for st'
    using b(2,3) g by (simp add: that dr_good_def dr_rest_def b(4))
  show ?thesis
  proof (cases "bs = []")
    case True
    then have "dr_read dec mode rd n st = (Inr [], st\<lparr>dr_inner := i\<rparr>)"
      using b(1) assms(2) by (simp add: dr_read_def)
    moreover have "dr_good (st\<lparr>dr_inner := i\<rparr>)" "dr_rest (st\<lparr>dr_inner := i\<rparr>) = dr_rest st"
      using b(2,4) True assms(2) g by (simp_all add: dr_good_def dr_rest_def)
    moreover have "n = 0 \<or> dr_rest st = []" using b(5) True g by (auto simp: dr_rest_def)
    ultimately show ?thesis by simp
  next
    case False
    then have "fst (dec ?d bs) \<noteq> []" using \<open>length (fst (dec ?d bs)) = length bs\<close> by auto
    moreover have "dr_read dec mode rd n st =
        (Inr (fst (dec ?d bs)), st\<lparr>dr_inner := i, dr_decryptor := snd (dec ?d bs)\<rparr>)"
      using b(1) assms(2) False by (simp add: dr_read_def case_prod_beta)
    ultimately show ?thesis using next_state by simp
  qed
qed

end

sublocale decrypting \<subseteq> dr: byte_source "dr_read dec mode rd" dr_good dr_rest
proof
  fix n st
  assume good: "dr_good st"
  show "\<exists>bs st'. dr_read dec mode rd n st = (Inr bs, st') \<and> dr_good st' \<and> length bs \<le> n
    \<and> dr_rest st = bs @ dr_rest st' \<and> (bs = [] \<longrightarrow> n = 0 \<or> dr_rest st = [])"
  proof (cases "mode (dr_decryptor st) = Streaming")
    case True
    then show ?thesis using streaming_source good by blast
  next
    case block: False
    consider "dr_plain st \<noteq> []" | "dr_plain st = []" "n = 0 \<or> dr_inner_eof st \<and> dr_pending st = []"
      | "dr_plain st = []" "n \<noteq> 0" "\<not> (dr_inner_eof st \<and> dr_pending st = [])" "n < 16"
      | "dr_plain st = []" "\<not> (dr_inner_eof st \<and> dr_pending st = [])" "16 \<le> n"
      by linarith
    then show ?thesis
    proof cases
      case 1
      then show ?thesis using serve_plain_source [OF good block] block by (simp add: dr_read_def)
    next
      case 2
      then show ?thesis using good block by (auto simp: dr_read_def dr_rest_def dr_good_def)
    next
      case 3
      obtain k st' where s: "stage_block dec rd st = (Inr k, st')" "dr_good st'" "dr_rest st' = dr_rest st"
          "mode (dr_decryptor st') \<noteq> Streaming" "if k = 0 then dr_rest st = [] else dr_plain st' \<noteq> []"
        using stage_block_source [OF good block 3(1)] by blast
      show ?thesis
        using s 3 block serve_plain_source [OF s(2,4), of n] by (cases "k = 0") (auto simp: dr_read_def)
    next
      case 4
      then show ?thesis using read_blocks_source [OF good block 4(1,3)] block by (auto simp: dr_read_def)
    qed
  qed
qed

context decrypting
begin

lemma dr_read_all:
  assumes "dr_good st" "\<forall>n\<in>set ns. 0 < n" "length (dr_rest st) \<le> length ns"
  shows "\<exists>st'. read_many (dr_read dec mode rd) ns st = (Inr (dr_rest st), st')"
  using dr.read_many_prefix [OF assms(1,2)] assms(3) by auto

end

text \<open>The RAR 2.0 cipher over the bytes of a volume.\<close>

interpretation rar20_volume: decrypting rar20_decrypt "\<lambda>_. 16" cursor_read "\<lambda>_. True"
    "\<lambda>r. drop (r_pos r) (r_img r)" "\<lambda>_. BlockAligned"
  by unfold_locales simp

definition any_width :: "cbc_decryptor_any \<Rightarrow> nat" where
  "any_width d = (if mode_of d = Streaming then 1 else 16)"

lemma aes_decryptor:
  assumes "cbc_chains aes"
  shows "decryptor (decrypt_blocks aes) (\<lambda>_. 16)"
proof
  show "decrypt_blocks aes d [] = ([], d)" for d by (simp add: decrypt_blocks_def)
  show "decrypt_blocks aes d (a @ b) = (let (p, d) = decrypt_blocks aes d a; (q, d) = decrypt_blocks aes d b in (p @ q, d))"
    if "16 dvd length a" "16 dvd length b" for d and a b :: bytes
    using that assms by (intro decrypt_blocks_append) (auto simp: mod_eq_0_iff_dvd)
  show "length (fst (decrypt_blocks aes d a)) = length a" for d a
    using cbc_chains_length [OF assms] by (simp add: decrypt_blocks_def Let_def)
qed simp

lemma any_decryptor:
  assumes "cbc_chains aes256" "cbc_chains aes128"
  shows "decryptor (decrypt_any aes256 aes128) any_width"
proof -
  note laws = decryptor.dec_nil decryptor.dec_append decryptor.dec_length
  note aes = laws [OF aes_decryptor [OF assms(1)]] laws [OF aes_decryptor [OF assms(2)]]
  show ?thesis
  proof
    show "decrypt_any aes256 aes128 d [] = ([], d)" for d
      by (cases d) (simp_all add: aes rar13.dec_nil rar15.dec_nil rar20.dec_nil)
    show "decrypt_any aes256 aes128 d (a @ b) =
        (let (p, d') = decrypt_any aes256 aes128 d a; (q, d'') = decrypt_any aes256 aes128 d' b in (p @ q, d''))"
      if "any_width d dvd length a" "any_width d dvd length b" for d and a b :: bytes
      using that
      by (cases d) (simp_all add: any_width_def aes rar13.dec_append rar15.dec_append rar20.dec_append
          Let_def case_prod_beta)
    show "any_width (snd (decrypt_any aes256 aes128 d a)) = any_width d" for d a
      by (cases d) (simp_all add: any_width_def)
    show "length (fst (decrypt_any aes256 aes128 d a)) = length a" if "any_width d dvd length a" for d a
      using that by (cases d) (simp_all add: any_width_def aes rar13.dec_length rar15.dec_length rar20.dec_length)
  qed
qed

text \<open>The end of a stream inside a block.\<close>

lemma fill_block_short:
  assumes "bs \<noteq> []" "length bs < 16" "16 \<le> cap"
  shows "fill_block cursor_read cap [] \<lparr>r_img = pre @ bs, r_pos = length pre\<rparr> False =
    (Inr (), bs, \<lparr>r_img = pre @ bs, r_pos = length (pre @ bs)\<rparr>, True)"
proof -
  let ?r = "\<lparr>r_img = pre @ bs, r_pos = length pre + length bs\<rparr>"
  have "fill_block cursor_read cap bs ?r False = (Inr (), bs, ?r, True)"
    using assms by (subst fill_block.simps) (simp add: cursor_read_def)
  then show ?thesis
    using assms by (subst fill_block.simps) (simp add: cursor_read_def)
qed

section \<open>Properties\<close>

text \<open>C19: a decrypting reader delivers the plaintext of the whole stream, whichever of the five ciphers
  it runs, in whatever buffer sizes it is read and however the reader below cuts its data; a block
  cipher needs the stream to be a whole number of blocks.\<close>

theorem decrypting_reader_plaintext:
  assumes "cbc_chains aes256" and "cbc_chains aes128"
    and "byte_source rd good rest" and "good inner"
    and "mode_of d = BlockAligned \<longrightarrow> 16 dvd length (rest inner)"
    and "\<forall>n\<in>set buffers. 0 < n" and "length (rest inner) \<le> length buffers"
  shows "\<exists>st. read_many (dr_read (decrypt_any aes256 aes128) mode_of rd) buffers (new_with_decryptor inner d) =
    (Inr (fst (decrypt_any aes256 aes128 d (rest inner))), st)"
proof -
  have loc: "decrypting (decrypt_any aes256 aes128) any_width rd good rest mode_of"
    using any_decryptor [OF assms(1,2)] assms(3)
    by (intro decrypting.intro decrypting_axioms.intro) (simp_all add: any_width_def)
  note dec = any_decryptor [OF assms(1,2)]
  let ?st = "new_with_decryptor inner d"
  have good: "decrypting.dr_good good rest mode_of ?st"
    using assms(4,5) by (cases "mode_of d") (simp_all add: decrypting.dr_good_def [OF loc] new_with_decryptor_def)
  have rest: "decrypting.dr_rest (decrypt_any aes256 aes128) rest ?st = fst (decrypt_any aes256 aes128 d (rest inner))"
    by (simp add: decrypting.dr_rest_def [OF loc] new_with_decryptor_def)
  have "any_width d dvd length (rest inner)"
    using assms(5) by (cases "mode_of d") (simp_all add: any_width_def)
  then have "length (fst (decrypt_any aes256 aes128 d (rest inner))) \<le> length buffers"
    using assms(7) decryptor.dec_length [OF dec] by simp
  then show ?thesis
    using decrypting.dr_read_all [OF loc good assms(6)] rest by simp
qed

theorem decrypting_reader_plaintext_witness:
  "\<exists>st. read_many (dr_read (decrypt_any xor_cbc xor_cbc) mode_of cursor_read)
      (replicate 12 3 @ replicate 20 100)
      (new_rar5 \<lparr>r_img = replicate 16 1 @ replicate 16 2, r_pos = 0\<rparr> [] (replicate 16 0)) =
    (Inr (replicate 16 1 @ replicate 16 3), st)"
proof -
  have "fst (decrypt_any xor_cbc xor_cbc (AnyRar5 (cbc_decryptor_new [] (replicate 16 0)))
      (replicate 16 1 @ replicate 16 2)) = replicate 16 1 @ replicate 16 3" by code_simp
  then show ?thesis
    using decrypting_reader_plaintext [OF xor_cbc_chains xor_cbc_chains cursor.byte_source_axioms TrueI,
        where inner = "\<lparr>r_img = replicate 16 1 @ replicate 16 2, r_pos = 0\<rparr>"
          and d = "AnyRar5 (cbc_decryptor_new [] (replicate 16 0))" and buffers = "replicate 12 3 @ replicate 20 100"]
    by (auto simp: new_rar5_def)
qed

text \<open>Less than a block of ciphertext is refused by every read with a nonempty buffer.\<close>

theorem misaligned_stream_refused:
  assumes "mode_of d = BlockAligned" and "bs \<noteq> []" and "length bs < 16" and "0 < n"
  shows "fst (dr_read (decrypt_any aes256 aes128) mode_of cursor_read n
    (new_with_decryptor \<lparr>r_img = pre @ bs, r_pos = length pre\<rparr> d)) = Inl misaligned"
proof (cases "n < 16")
  case True
  then show ?thesis
    using assms by (simp add: dr_read_def new_with_decryptor_def stage_block_def fill_block_short)
next
  case False
  then show ?thesis
    using assms by (simp add: dr_read_def new_with_decryptor_def read_blocks_def fill_block_short)
qed

theorem misaligned_stream_refused_witness:
  "fst (dr_read (decrypt_any xor_cbc xor_cbc) mode_of cursor_read 100
    (new_rar5 \<lparr>r_img = [1, 2, 3], r_pos = 0\<rparr> [] [])) = Inl misaligned"
  using misaligned_stream_refused [of "AnyRar5 (cbc_decryptor_new [] [])" "[1, 2, 3]" 100 xor_cbc xor_cbc "[]"]
  by (simp add: new_rar5_def)

end
