(* ===== verification/Rust_Str.thy ===== *)
theory Rust_Str
  imports Main
begin

text \<open>
  Splitting, joining and replacing in strings as the standard library of Rust
  does it with a single character, for the byte and the character strings of
  the models.
\<close>

text \<open>\<open>str::split\<close>: there is always at least one piece.\<close>

fun str_split :: "'a \<Rightarrow> 'a list \<Rightarrow> 'a list list" where
  "str_split c [] = [[]]"
| "str_split c (b # bs) =
     (if b = c then [] # str_split c bs
      else (b # hd (str_split c bs)) # tl (str_split c bs))"

text \<open>\<open>str::replace\<close>.\<close>

definition str_replace :: "'a \<Rightarrow> 'a \<Rightarrow> 'a list \<Rightarrow> 'a list" where
  "str_replace old new = map (\<lambda>b. if b = old then new else b)"

text \<open>\<open>join\<close>: the pieces with the separator between them.\<close>

fun str_join :: "'a \<Rightarrow> 'a list list \<Rightarrow> 'a list" where
  "str_join c [] = []"
| "str_join c [w] = w"
| "str_join c (w # v # ws) = w @ c # str_join c (v # ws)"

lemma str_split_nonempty [simp]: "str_split c p \<noteq> []" "[] \<noteq> str_split c p"
  by (induction p) auto

lemma hd_str_split: "hd (str_split c p) = takeWhile (\<lambda>b. b \<noteq> c) p"
  by (induction p) auto

lemma str_split_sep_free: "w \<in> set (str_split c p) \<Longrightarrow> c \<notin> set w"
proof (induction p arbitrary: w)
  case (Cons b p)
  have "c \<notin> set (hd (str_split c p))" using Cons.IH [of "hd (str_split c p)"] by simp
  moreover have "c \<notin> set v" if "v \<in> set (tl (str_split c p))" for v
    using Cons.IH [of v] that by (cases "str_split c p") auto
  ultimately show ?case using Cons.prems Cons.IH by (auto split: if_splits)
qed simp

lemma str_split_append_sep: "c \<notin> set w \<Longrightarrow> str_split c (w @ c # p) = w # str_split c p"
  by (induction w) auto

lemma str_split_plain: "c \<notin> set w \<Longrightarrow> str_split c w = [w]"
  by (induction w) auto

lemma str_split_join:
  "ws \<noteq> [] \<Longrightarrow> (\<And>w. w \<in> set ws \<Longrightarrow> c \<notin> set w) \<Longrightarrow> str_split c (str_join c ws) = ws"
  by (induction c ws rule: str_join.induct) (auto simp: str_split_plain str_split_append_sep)

lemma str_join_snoc: "ws \<noteq> [] \<Longrightarrow> str_join c (ws @ [w]) = str_join c ws @ c # w"
proof (induction c ws rule: str_join.induct)
  case (3 c w v ws)
  then show ?case by (cases ws) auto
qed auto

end
