(* ===== verification/Member_Paths.thy ===== *)
theory Member_Paths
  imports Rar5_Dispatch Rust_Str
begin

text \<open>
  Member names and link targets (\<open>unrar-rs/src/path.rs\<close>, and the helpers of
  \<open>unrar-rs/src/archive/member.rs\<close> that prepare a link target): the
  sanitisers that turn a name stored in an archive into a relative path, and
  the checks that decide whether a link may be created.

  A path is the UTF-8 byte string of the source's \<open>&str\<close>. The functions that
  walk \<open>chars\<close> only ever test for ASCII characters, which are single bytes of
  the encoding and occur in no other character, so they are the same functions
  on the bytes. Slicing a \<open>str\<close> at an offset that is not a character boundary
  panics; the sanitisers return \<open>None\<close> there. \<open>cfg!(windows)\<close> is the argument
  \<open>windows\<close>, and Unicode normalisation (an external crate) is the
  argument \<open>nfc\<close>. Depths are unbounded: a path has fewer than \<open>2 ^ 31\<close> bytes.
\<close>

section \<open>Strings\<close>

abbreviation slash :: u8 where "slash \<equiv> 0x2F"
abbreviation backslash :: u8 where "backslash \<equiv> 0x5C"
abbreviation colon :: u8 where "colon \<equiv> 0x3A"
abbreviation dot :: u8 where "dot \<equiv> 0x2E"
abbreviation underscore :: u8 where "underscore \<equiv> 0x5F"

definition starts_with :: "bytes \<Rightarrow> bytes \<Rightarrow> bool" where
  "starts_with p s = (take (length p) s = p)"

definition is_char_boundary :: "bytes \<Rightarrow> nat \<Rightarrow> bool" where
  "is_char_boundary p i = (i = 0 \<or> i = length p \<or> (i < length p \<and> \<not> is_cont (p ! i)))"

text \<open>\<open>&path[start..]\<close> of a \<open>str\<close>.\<close>

definition str_from :: "bytes \<Rightarrow> nat \<Rightarrow> bytes option" where
  "str_from p start = (if is_char_boundary p start then Some (drop start p) else None)"

section \<open>The start of the kept path\<close>

definition is_traversal :: "bytes \<Rightarrow> nat \<Rightarrow> bool" where
  "is_traversal p i =
     (p ! i = slash \<and> i + 2 < length p \<and> p ! (i + 1) = dot \<and> p ! (i + 2) = dot
      \<and> (i + 3 = length p \<or> p ! (i + 3) = slash))"

definition last_traversal :: "bytes \<Rightarrow> nat" where
  "last_traversal p =
     foldl (\<lambda>dest_pos i. if is_traversal p i then (if i + 3 = length p then i + 3 else i + 4)
                         else dest_pos) 0 [0..<length p]"

fun unc_scan :: "nat \<Rightarrow> nat \<Rightarrow> nat \<Rightarrow> bytes \<Rightarrow> nat" where
  "unc_scan i slash_count j [] = i"
| "unc_scan i slash_count j (b # bs) =
     (if b = slash
      then if slash_count + 1 = 2 then j + 1 else unc_scan i (slash_count + 1) (j + 1) bs
      else unc_scan i slash_count (j + 1) bs)"

fun dot_slash_scan :: "nat \<Rightarrow> nat \<Rightarrow> bytes \<Rightarrow> nat" where
  "dot_slash_scan i j [] = i"
| "dot_slash_scan i j (b # bs) =
     (if b = slash then dot_slash_scan (j + 1) (j + 1) bs
      else if b \<noteq> dot then i
      else dot_slash_scan i (j + 1) bs)"

definition strip_step :: "bool \<Rightarrow> bytes \<Rightarrow> nat \<Rightarrow> nat" where
  "strip_step strip_drive_specs p dest_pos =
     (let i = (if strip_drive_specs \<and> dest_pos + 1 < length p \<and> p ! (dest_pos + 1) = colon
               then dest_pos + 2 else dest_pos);
          i = (if i + 1 < length p \<and> p ! i = slash \<and> p ! (i + 1) = slash
               then unc_scan i 0 (i + 2) (drop (i + 2) p) else i)
      in dot_slash_scan i i (drop i p))"

partial_function (option) strip_loop :: "bool \<Rightarrow> bytes \<Rightarrow> nat \<Rightarrow> nat option" where
  "strip_loop strip_drive_specs p dest_pos =
     (if dest_pos < length p
      then let i = strip_step strip_drive_specs p dest_pos
           in if i = dest_pos then Some dest_pos else strip_loop strip_drive_specs p i
      else Some dest_pos)"

declare strip_loop.simps [code]

definition convert_path_start :: "bytes \<Rightarrow> bool \<Rightarrow> nat option" where
  "convert_path_start p strip_drive_specs = strip_loop strip_drive_specs p (last_traversal p)"

section \<open>The sanitisers\<close>

definition sanitize_path :: "bytes \<Rightarrow> bytes option" where
  "sanitize_path raw =
     (let normalized = str_replace backslash slash (until_nul raw)
      in Option.bind (convert_path_start normalized True) (str_from normalized))"

definition sanitize_file_redirection_path :: "bool \<Rightarrow> bytes \<Rightarrow> bytes option" where
  "sanitize_file_redirection_path windows raw =
     (let normalized = str_replace backslash slash (until_nul raw)
      in Option.bind (convert_path_start normalized windows) (str_from normalized))"

text \<open>\<open>to_ascii_uppercase\<close>, \<open>is_ascii_digit\<close>, \<open>is_ascii_alphabetic\<close>.\<close>

definition ascii_upper :: "u8 \<Rightarrow> u8" where
  "ascii_upper b = (if 0x61 \<le> b \<and> b \<le> 0x7A then b - 0x20 else b)"

definition is_ascii_digit :: "u8 \<Rightarrow> bool" where
  "is_ascii_digit b = (0x30 \<le> b \<and> b \<le> 0x39)"

definition is_ascii_alphabetic :: "u8 \<Rightarrow> bool" where
  "is_ascii_alphabetic b = (0x41 \<le> b \<and> b \<le> 0x5A \<or> 0x61 \<le> b \<and> b \<le> 0x7A)"

definition windows_reserved_device_component :: "bytes \<Rightarrow> bool" where
  "windows_reserved_device_component component =
     (let upper = map ascii_upper component in
      upper \<in> {[0x43, 0x4F, 0x4E], [0x50, 0x52, 0x4E], [0x41, 0x55, 0x58], [0x4E, 0x55, 0x4C]}
      \<or> length upper = 4
        \<and> (starts_with [0x43, 0x4F, 0x4D] upper \<or> starts_with [0x4C, 0x50, 0x54] upper)
        \<and> is_ascii_digit (upper ! 3))"

text \<open>The characters Windows forbids: the control characters and the seven signs
  question mark, asterisk, less, greater, bar, double quote and colon.\<close>

definition windows_forbidden :: "u8 \<Rightarrow> bool" where
  "windows_forbidden ch = (ch < 0x20 \<or> ch \<in> {0x3F, 0x2A, 0x3C, 0x3E, 0x7C, 0x22, 0x3A})"

definition replace_forbidden :: "bytes \<Rightarrow> bytes" where
  "replace_forbidden = map (\<lambda>ch. if windows_forbidden ch then underscore else ch)"

definition ends_in_dot_or_space :: "bytes \<Rightarrow> bool" where
  "ends_in_dot_or_space c = (c \<noteq> [] \<and> last c \<in> {dot, 0x20})"

definition make_windows_component_compatible :: "bytes \<Rightarrow> bytes" where
  "make_windows_component_compatible component =
     (let converted = replace_forbidden component;
          converted = (if converted \<notin> {[dot], [dot, dot]} \<and> ends_in_dot_or_space converted
                       then butlast converted @ [underscore] else converted)
      in if windows_reserved_device_component converted then underscore # converted else converted)"

definition make_windows_member_name_compatible :: "bytes \<Rightarrow> bytes" where
  "make_windows_member_name_compatible path =
     foldl (\<lambda>converted (idx, component).
              (if idx \<noteq> 0 then converted @ [slash] else converted)
                @ make_windows_component_compatible component)
       [] (enumerate (0 :: nat) (str_split slash path))"

definition make_unix_windows_share_component_compatible :: "bytes \<Rightarrow> bool \<Rightarrow> bytes" where
  "make_unix_windows_share_component_compatible component has_following_separator =
     (let converted = replace_forbidden component
      in if has_following_separator \<and> converted \<notin> {[dot], [dot, dot]} \<and> ends_in_dot_or_space converted
         then butlast converted @ [underscore] else converted)"

fun share_components :: "bytes list \<Rightarrow> bytes" where
  "share_components [] = []"
| "share_components (component # parts) =
     (let has_following_separator = (parts \<noteq> [])
      in make_unix_windows_share_component_compatible component has_following_separator
         @ (if has_following_separator then [slash] else []) @ share_components parts)"

definition make_unix_windows_share_member_name_compatible :: "bytes \<Rightarrow> bytes" where
  "make_unix_windows_share_member_name_compatible path = share_components (str_split slash path)"

definition sanitize_member_path_for_target ::
    "(bytes \<Rightarrow> bytes) \<Rightarrow> archive_format \<Rightarrow> host_os \<Rightarrow> bytes \<Rightarrow> bool \<Rightarrow> bytes option" where
  "sanitize_member_path_for_target nfc format host raw target_is_windows =
     (let cleaned = until_nul raw;
          converted = (case format of
              Rar5 \<Rightarrow> if target_is_windows \<or> host = Windows then str_replace backslash underscore cleaned
                      else cleaned
            | Rar4 \<Rightarrow> str_replace backslash slash cleaned
            | Rar14 \<Rightarrow> str_replace backslash slash cleaned)
      in Option.bind (convert_path_start converted target_is_windows) (\<lambda>start.
         Option.bind (str_from converted start) (\<lambda>sanitized.
         Some (if target_is_windows
               then let sanitized = str_replace colon underscore sanitized;
                        sanitized = (if host = Unix \<or> host = Darwin then nfc sanitized else sanitized)
                    in make_windows_member_name_compatible sanitized
               else sanitized))))"

section \<open>Link targets\<close>

definition normalize_backslash_for_path_check :: "bytes \<Rightarrow> bool \<Rightarrow> bytes" where
  "normalize_backslash_for_path_check path backslash_is_separator =
     (if backslash_is_separator then str_replace backslash slash path else path)"

definition drive_letter :: "bytes \<Rightarrow> bool" where
  "drive_letter p = (2 \<le> length p \<and> is_ascii_alphabetic (p ! 0) \<and> p ! 1 = colon)"

definition is_full_root_path :: "bytes \<Rightarrow> bool \<Rightarrow> bool" where
  "is_full_root_path path windows_drive_is_root =
     (starts_with [slash] path \<or> windows_drive_is_root \<and> drive_letter path)"

fun depth_loop :: "bytes \<Rightarrow> int \<Rightarrow> nat list \<Rightarrow> nat" where
  "depth_loop p depth [] = nat (max depth 0)"
| "depth_loop p depth (i # is) =
     (if p ! i \<noteq> slash then depth_loop p depth is
      else if i + 1 < length p \<and> p ! (i + 1) = slash then 0
      else let one = (i + 1 < length p \<and> p ! (i + 1) = dot
                      \<and> (i + 2 = length p \<or> p ! (i + 2) = slash));
               two = (i + 2 < length p \<and> p ! (i + 1) = dot \<and> p ! (i + 2) = dot
                      \<and> (i + 3 = length p \<or> p ! (i + 3) = slash))
           in depth_loop p (if two then depth - 1 else if \<not> one then depth + 1 else depth) is)"

definition allowed_link_source_depth :: "bytes \<Rightarrow> nat" where
  "allowed_link_source_depth member_path = depth_loop member_path 0 [0..<length member_path]"

definition target_parent_traversal_count :: "bytes \<Rightarrow> nat" where
  "target_parent_traversal_count target =
     length (filter (\<lambda>component. component = [dot, dot]) (str_split slash target))"

definition is_safe_link_target_inner ::
    "bytes \<Rightarrow> bytes \<Rightarrow> bool \<Rightarrow> bool \<Rightarrow> bool \<Rightarrow> bool \<Rightarrow> bool" where
  "is_safe_link_target_inner member_path target allow_windows_drive_relative
     member_backslash_is_separator target_backslash_is_separator member_windows_drive_is_root =
     (let member_path = normalize_backslash_for_path_check member_path member_backslash_is_separator
      in if is_full_root_path member_path member_windows_drive_is_root then False
         else let target = normalize_backslash_for_path_check target target_backslash_is_separator
         in if starts_with [slash] target then False
         else if \<not> allow_windows_drive_relative \<and> drive_letter target then False
         else if 0 \<in> set target then False
         else target_parent_traversal_count target \<le> allowed_link_source_depth member_path)"

definition is_safe_link_target :: "bytes \<Rightarrow> bytes \<Rightarrow> bool" where
  "is_safe_link_target member_path target =
     is_safe_link_target_inner member_path target False True True True"

definition is_safe_symlink_target_for_member :: "bytes \<Rightarrow> bytes \<Rightarrow> bytes \<Rightarrow> bool \<Rightarrow> bool" where
  "is_safe_symlink_target_for_member member_path raw_member_path target allow_windows_drive_relative =
     (is_safe_link_target_inner member_path target allow_windows_drive_relative True True True
      \<and> is_safe_link_target_inner raw_member_path target allow_windows_drive_relative True True True)"

definition is_safe_symlink_target_for_archive_member_on_host ::
    "archive_format \<Rightarrow> bytes \<Rightarrow> bytes \<Rightarrow> bytes \<Rightarrow> bool \<Rightarrow> bool" where
  "is_safe_symlink_target_for_archive_member_on_host format member_path raw_member_path target windows_host =
     (let raw_member_backslash_is_separator = (format \<noteq> Rar5);
          allow_drive_relative = (\<not> windows_host)
      in is_safe_link_target_inner member_path target allow_drive_relative False False False
         \<and> is_safe_link_target_inner raw_member_path target allow_drive_relative
             raw_member_backslash_is_separator False False)"

text \<open>What \<open>archive/member.rs\<close> does to the target of a redirection record before it is checked,
  and its test for a target that climbs at all.\<close>

definition normalize_windows_redirection_target :: "bytes \<Rightarrow> bytes" where
  "normalize_windows_redirection_target target =
     (let target = (if starts_with [0x5C, 0x3F, 0x3F, 0x5C] target then drop 4 target
                    else if starts_with [0x2F, 0x3F, 0x3F, 0x2F] target then drop 4 target
                    else target)
      in str_replace backslash slash target)"

definition normalized_rar5_redirection_target :: "bool \<Rightarrow> redirection_type \<Rightarrow> bytes \<Rightarrow> bytes option" where
  "normalized_rar5_redirection_target windows redir_type target =
     (case redir_type of
        UnixSymlink \<Rightarrow> Some target
      | WindowsSymlink \<Rightarrow> Some (normalize_windows_redirection_target target)
      | WindowsJunction \<Rightarrow> Some (normalize_windows_redirection_target target)
      | Hardlink \<Rightarrow> sanitize_file_redirection_path windows target
      | FileCopy \<Rightarrow> sanitize_file_redirection_path windows target
      | UnknownRedirection _ \<Rightarrow> Some target)"

definition link_target_has_parent_traversal :: "bytes \<Rightarrow> bool \<Rightarrow> bool" where
  "link_target_has_parent_traversal target backslash_is_separator =
     (if backslash_is_separator
      then list_ex (\<lambda>part. part = [dot, dot]) (str_split slash (str_replace backslash slash target))
      else list_ex (\<lambda>part. part = [dot, dot]) (str_split slash target))"


section \<open>Traversals\<close>

lemma is_traversal_Suc [simp]: "is_traversal (b # q) (Suc i) = is_traversal q i"
  by (auto simp: is_traversal_def add.commute)

lemma leading_dotdot:
  "takeWhile (\<lambda>b. b \<noteq> slash) q = [dot, dot] \<longleftrightarrow>
     2 \<le> length q \<and> q ! 0 = dot \<and> q ! 1 = dot \<and> (2 = length q \<or> q ! 2 = slash)"
proof (cases q)
  case (Cons a q1)
  show ?thesis
  proof (cases q1)
    case Nil
    then show ?thesis using Cons by simp
  next
    case (Cons b q2)
    then show ?thesis using \<open>q = a # q1\<close> by (cases q2) auto
  qed
qed simp

lemma leading_dot:
  "takeWhile (\<lambda>b. b \<noteq> slash) q = [dot] \<longleftrightarrow>
     1 \<le> length q \<and> q ! 0 = dot \<and> (1 = length q \<or> q ! 1 = slash)"
proof (cases q)
  case (Cons a q1)
  then show ?thesis by (cases q1) auto
qed simp

lemma is_traversal_0: "is_traversal (b # q) 0 \<longleftrightarrow> b = slash \<and> hd (str_split slash q) = [dot, dot]"
  unfolding hd_str_split leading_dotdot by (auto simp: is_traversal_def)

lemma is_traversal_bound: "is_traversal p i \<Longrightarrow> i + 3 \<le> length p"
  by (simp add: is_traversal_def)

lemma dotdot_component:
  "[dot, dot] \<in> set (tl (str_split slash q)) \<longleftrightarrow> (\<exists>i. is_traversal q i)"
proof (induction q)
  case Nil
  then show ?case by (auto dest: is_traversal_bound)
next
  case (Cons b q)
  have "(\<exists>i. is_traversal (b # q) i) \<longleftrightarrow> is_traversal (b # q) 0 \<or> (\<exists>i. is_traversal q i)"
    by (metis is_traversal_Suc not0_implies_Suc)
  moreover have "set (str_split slash q) = insert (hd (str_split slash q)) (set (tl (str_split slash q)))"
    by (metis list.exhaust_sel list.simps(15) str_split_nonempty(1))
  ultimately show ?case using Cons.IH by (auto simp: is_traversal_0)
qed

lemma is_traversal_drop: "is_traversal (drop s p) i \<Longrightarrow> is_traversal p (s + i)"
  by (auto simp: is_traversal_def algebra_simps)

text \<open>The first loop ends after the last traversal of the path.\<close>

lemma last_traversal_prefix:
  fixes p n
  defines "dest \<equiv> foldl (\<lambda>dest_pos i. if is_traversal p i
     then (if i + 3 = length p then i + 3 else i + 4) else dest_pos) 0 [0..<n]"
  shows "(\<forall>i<n. is_traversal p i \<longrightarrow> i < dest)
     \<and> (dest = 0 \<or> dest \<le> length p \<and> (dest = length p \<or> p ! (dest - 1) = slash))"
  unfolding dest_def
proof (induction n)
  case (Suc n)
  show ?case
  proof (cases "is_traversal p n")
    case True
    then show ?thesis by (auto simp: is_traversal_def less_Suc_eq add.commute)
  next
    case False
    then show ?thesis using Suc by (auto simp: less_Suc_eq)
  qed
qed simp

lemma last_traversal_after: "is_traversal p i \<Longrightarrow> i < last_traversal p"
  using last_traversal_prefix [of "length p" p] is_traversal_bound [of p i]
  unfolding last_traversal_def by auto

lemma last_traversal_start:
  "last_traversal p = 0 \<or> last_traversal p \<le> length p
     \<and> (last_traversal p = length p \<or> p ! (last_traversal p - 1) = slash)"
  using last_traversal_prefix [of "length p" p] unfolding last_traversal_def by auto

lemma no_traversal_after_last:
  "last_traversal p \<le> s \<Longrightarrow> \<not> is_traversal (drop s p) i"
  using is_traversal_drop [of s p i] last_traversal_after [of p "s + i"] by auto


section \<open>Stripping\<close>

lemma unc_scan_range:
  "i \<le> j \<Longrightarrow> i \<le> unc_scan i k j bs \<and> unc_scan i k j bs \<le> j + length bs"
  by (induction i k j bs rule: unc_scan.induct) auto

lemma unc_scan_ends:
  "unc_scan i k j bs = i \<or> (\<exists>n < length bs. unc_scan i k j bs = j + n + 1 \<and> bs ! n = slash)"
proof (induction i k j bs rule: unc_scan.induct)
  case (2 i k j b bs)
  show ?case
  proof (cases "b = slash \<and> k + 1 = 2")
    case True
    then show ?thesis by auto
  next
    case False
    then have eq: "unc_scan i k j (b # bs) = unc_scan i (if b = slash then k + 1 else k) (j + 1) bs"
      by simp
    from False "2.IH" consider
        "unc_scan i (if b = slash then k + 1 else k) (j + 1) bs = i"
      | n where "n < length bs" "bs ! n = slash"
          "unc_scan i (if b = slash then k + 1 else k) (j + 1) bs = j + 1 + n + 1"
      by (cases "b = slash") auto
    then show ?thesis
    proof cases
      case 1
      then show ?thesis using eq by simp
    next
      case (2 n)
      then show ?thesis using eq by (intro disjI2 exI [of _ "Suc n"]) simp
    qed
  qed
qed simp

lemma dot_slash_scan_range:
  "i \<le> j \<Longrightarrow> i \<le> dot_slash_scan i j bs \<and> dot_slash_scan i j bs \<le> j + length bs"
proof (induction i j bs rule: dot_slash_scan.induct)
  case (2 i j b bs)
  then show ?case by (auto intro: order_trans)
qed simp

lemma dot_slash_scan_ends:
  "dot_slash_scan i j bs = i
     \<or> (\<exists>n < length bs. dot_slash_scan i j bs = j + n + 1 \<and> bs ! n = slash)"
proof (induction i j bs rule: dot_slash_scan.induct)
  case (2 i j b bs)
  consider "b = slash" | "b = dot" | "b \<noteq> slash" "b \<noteq> dot" by blast
  then show ?case
  proof cases
    case 1
    from "2.IH"(1) [OF 1] show ?thesis
    proof (elim disjE exE conjE)
      fix n
      assume "n < length bs" "dot_slash_scan (j + 1) (j + 1) bs = j + 1 + n + 1" "bs ! n = slash"
      then show ?thesis using 1 by (intro disjI2 exI [of _ "Suc n"]) simp
    qed (use 1 in auto)
  next
    case 2
    then have "b \<noteq> slash" by simp
    from "2.IH"(2) [OF this] 2 show ?thesis
    proof (elim meta_impE disjE exE conjE)
      fix n
      assume "n < length bs" "dot_slash_scan i (j + 1) bs = j + 1 + n + 1" "bs ! n = slash"
      then show ?thesis using 2 by (intro disjI2 exI [of _ "Suc n"]) simp
    qed auto
  qed simp
qed simp

text \<open>The last loop leaves a position alone exactly if no slash follows a run of dots there.\<close>

lemma dot_slash_scan_stays:
  "i \<le> j \<Longrightarrow> dot_slash_scan i j bs = i \<Longrightarrow>
     bs = replicate n dot @ slash # rest \<Longrightarrow> False"
proof (induction n arbitrary: j bs)
  case 0
  then show ?case using dot_slash_scan_range [of "j + 1" "j + 1" rest] by simp
next
  case (Suc n)
  then show ?case using Suc.IH [of "j + 1" "tl bs"] by simp
qed


lemma dot_slash_scan_keeps:
  "(\<And>n rest. bs \<noteq> replicate n dot @ slash # rest) \<Longrightarrow> dot_slash_scan i j bs = i"
proof (induction i j bs rule: dot_slash_scan.induct)
  case (2 i j b bs)
  have "b \<noteq> slash" using "2.prems" [of 0 bs] by simp
  moreover have "dot_slash_scan i (j + 1) bs = i" if "b = dot"
  proof (rule "2.IH"(2))
    fix n rest
    show "bs \<noteq> replicate n dot @ slash # rest" using "2.prems" [of "Suc n" rest] that by auto
  qed (use that in auto)
  ultimately show ?case by simp
qed simp

text \<open>A path the stripping loop has nothing to take from: no drive specification (where they are
  stripped), and no slash after a run of dots at its start.\<close>

definition stripped :: "bool \<Rightarrow> bytes \<Rightarrow> bool" where
  "stripped drive q \<longleftrightarrow> \<not> (drive \<and> 1 < length q \<and> q ! 1 = colon)
     \<and> (\<forall>n rest. q \<noteq> replicate n dot @ slash # rest)"

definition step_drive :: "bool \<Rightarrow> bytes \<Rightarrow> nat \<Rightarrow> nat" where
  "step_drive drive p dest_pos =
     (if drive \<and> dest_pos + 1 < length p \<and> p ! (dest_pos + 1) = colon then dest_pos + 2 else dest_pos)"

definition step_unc :: "bytes \<Rightarrow> nat \<Rightarrow> nat" where
  "step_unc p i = (if i + 1 < length p \<and> p ! i = slash \<and> p ! (i + 1) = slash
                   then unc_scan i 0 (i + 2) (drop (i + 2) p) else i)"

lemma strip_step_alt:
  "strip_step drive p dest =
     (let i = step_unc p (step_drive drive p dest) in dot_slash_scan i i (drop i p))"
  by (simp add: strip_step_def step_unc_def step_drive_def Let_def)

definition after_sign :: "bytes \<Rightarrow> nat \<Rightarrow> bool" where
  "after_sign p r \<longleftrightarrow> 0 < r \<and> r \<le> length p \<and> p ! (r - 1) \<in> {slash, colon}"

lemma step_drive_range:
  "dest < length p \<Longrightarrow> step_drive drive p dest = dest
     \<or> dest < step_drive drive p dest \<and> after_sign p (step_drive drive p dest)"
  by (auto simp: step_drive_def after_sign_def)

lemma step_unc_range:
  "i \<le> length p \<Longrightarrow> step_unc p i = i \<or> i < step_unc p i \<and> after_sign p (step_unc p i)"
  using unc_scan_ends [of i 0 "i + 2" "drop (i + 2) p"]
  by (auto simp: step_unc_def after_sign_def)

lemma dot_slash_scan_drop_range:
  "i \<le> length p \<Longrightarrow> dot_slash_scan i i (drop i p) = i
     \<or> i < dot_slash_scan i i (drop i p) \<and> after_sign p (dot_slash_scan i i (drop i p))"
  using dot_slash_scan_ends [of i i "drop i p"] by (auto simp: after_sign_def)

lemma strip_step_range:
  assumes "dest < length p"
  shows "strip_step drive p dest = dest
    \<or> dest < strip_step drive p dest \<and> after_sign p (strip_step drive p dest)"
proof -
  let ?a = "step_drive drive p dest"
  let ?b = "step_unc p ?a"
  let ?c = "dot_slash_scan ?b ?b (drop ?b p)"
  note a = step_drive_range [OF assms, of drive]
  have la: "?a \<le> length p" using a assms by (auto simp: after_sign_def)
  note b = step_unc_range [OF la]
  have lb: "?b \<le> length p" using b la by (auto simp: after_sign_def)
  note c = dot_slash_scan_drop_range [OF lb]
  have "?c = dest \<or> dest < ?c \<and> after_sign p ?c"
    using a b c by (elim disjE conjE) simp_all
  then show ?thesis by (simp add: strip_step_alt Let_def)
qed

lemma strip_step_fixed:
  assumes "dest < length p"
  shows "strip_step drive p dest = dest \<longleftrightarrow> stripped drive (drop dest p)"
proof
  let ?a = "step_drive drive p dest"
  let ?b = "step_unc p ?a"
  let ?c = "dot_slash_scan ?b ?b (drop ?b p)"
  assume fixed: "strip_step drive p dest = dest"
  note a = step_drive_range [OF assms, of drive]
  have la: "?a \<le> length p" using a assms by (auto simp: after_sign_def)
  note b = step_unc_range [OF la]
  have lb: "?b \<le> length p" using b la by (auto simp: after_sign_def)
  note c = dot_slash_scan_drop_range [OF lb]
  have "?c = dest" using fixed by (simp add: strip_step_alt Let_def)
  then have eqs: "?a = dest" "?b = dest" using a b c by auto
  then have "dot_slash_scan dest dest (drop dest p) = dest" using \<open>?c = dest\<close> by simp
  then have "drop dest p \<noteq> replicate n dot @ slash # rest" for n rest
    using dot_slash_scan_stays [of dest dest "drop dest p" n rest] by auto
  moreover have "\<not> (drive \<and> 1 < length (drop dest p) \<and> drop dest p ! 1 = colon)"
    using eqs(1) assms by (auto simp: step_drive_def split: if_splits)
  ultimately show "stripped drive (drop dest p)" by (simp add: stripped_def)
next
  assume s: "stripped drive (drop dest p)"
  have no: "drop dest p \<noteq> replicate n dot @ slash # rest" for n rest
    using s by (simp add: stripped_def)
  have "step_drive drive p dest = dest" using s assms by (auto simp: stripped_def step_drive_def)
  moreover have "p ! dest \<noteq> slash"
    using no [of 0 "drop (Suc dest) p"] Cons_nth_drop_Suc [OF assms] by auto
  then have "step_unc p dest = dest" by (simp add: step_unc_def)
  moreover have "dot_slash_scan dest dest (drop dest p) = dest"
    by (rule dot_slash_scan_keeps) (rule no)
  ultimately show "strip_step drive p dest = dest" by (simp add: strip_step_alt)
qed

text \<open>The loop ends, because every pass that changes the position moves it forward.\<close>

lemma strip_loop_ends:
  "\<exists>r. strip_loop drive p dest = Some r \<and> (r = dest \<or> dest < r \<and> after_sign p r)
     \<and> (r < length p \<longrightarrow> stripped drive (drop r p))"
proof (induction "length p - dest" arbitrary: dest rule: less_induct)
  case less
  consider "length p \<le> dest" | "dest < length p" "strip_step drive p dest = dest"
    | "dest < length p" "dest < strip_step drive p dest" "after_sign p (strip_step drive p dest)"
    using strip_step_range [of dest p drive] by linarith
  then show ?case
  proof cases
    case 3
    then have "length p - strip_step drive p dest < length p - dest" by linarith
    from less [OF this] obtain r where "strip_loop drive p (strip_step drive p dest) = Some r"
        "r = strip_step drive p dest \<or> strip_step drive p dest < r \<and> after_sign p r"
        "r < length p \<longrightarrow> stripped drive (drop r p)"
      by blast
    then show ?thesis using 3 by (subst strip_loop.simps) (auto simp: Let_def)
  qed (auto simp: strip_loop.simps strip_step_fixed)
qed


section \<open>Character boundaries\<close>

lemma all_bytes: "list_all P (map of_nat [0..<256]) \<Longrightarrow> P (b :: u8)"
proof -
  assume all: "list_all P (map of_nat [0..<256])"
  have "unat b < 256" using unsigned_less [of b, where ?'a = nat] by simp
  then have "of_nat (unat b) \<in> (of_nat ` set [0..<256] :: u8 set)" by (intro imageI) simp
  then show "P b" using all unfolding list_all_iff by auto
qed

lemma is_cont_range: "is_cont b \<longleftrightarrow> 0x80 \<le> b \<and> b \<le> 0xBF"
proof -
  have "list_all (\<lambda>b. is_cont b \<longleftrightarrow> 0x80 \<le> b \<and> b \<le> 0xBF) (map of_nat [0..<256])"
    by code_simp
  then show ?thesis by (rule all_bytes)
qed

lemma second_ok_cont: "second_ok b b1 \<Longrightarrow> 0x80 \<le> b1"
  by (auto simp: second_ok_def word_le_nat_alt split: if_splits)

lemma utf8_step_lead: "utf8_step b rest = (Some c, n) \<Longrightarrow> \<not> is_cont b"
proof
  assume step: "utf8_step b rest = (Some c, n)" and "is_cont b"
  then have "\<not> b < 0x80" "\<not> 0xC2 \<le> b" "\<not> 0xE0 \<le> b" "\<not> 0xF0 \<le> b"
    by (auto simp: is_cont_range word_le_nat_alt word_less_nat_alt)
  then show False using step by (simp add: utf8_step_def)
qed

lemma byte_at_high: "0x80 \<le> byte_at bs i \<Longrightarrow> i < length bs \<and> 0x80 \<le> bs ! i"
  by (auto simp: byte_at_def split: if_splits)

lemma utf8_step_ascii: "utf8_step b rest = (Some c, n) \<Longrightarrow> b < 0x80 \<Longrightarrow> n = 0"
  by (simp add: utf8_step_def Let_def)

lemma utf8_step_conts:
  assumes "utf8_step b rest = (Some c, n)"
  shows "n \<le> 3" "0 < n \<Longrightarrow> 0x80 \<le> byte_at rest 0" "1 < n \<Longrightarrow> 0x80 \<le> byte_at rest 1"
    "2 < n \<Longrightarrow> 0x80 \<le> byte_at rest 2"
  using assms second_ok_cont [of b "byte_at rest 0"]
  unfolding utf8_step_def Let_def is_cont_range by (simp_all split: if_splits)

lemma utf8_step_taken:
  assumes "utf8_step b rest = (Some c, n)" "i < n"
  shows "i < length rest \<and> 0x80 \<le> rest ! i"
proof -
  have "i = 0 \<or> i = 1 \<or> i = 2" using utf8_step_conts(1) [OF assms(1)] assms(2) by linarith
  then have "0x80 \<le> byte_at rest i"
    using utf8_step_conts(2,3,4) [OF assms(1)] assms(2) by (elim disjE) simp_all
  then show ?thesis by (rule byte_at_high)
qed

definition ascii_closed :: "bytes \<Rightarrow> bool" where
  "ascii_closed p \<longleftrightarrow> (\<forall>i. Suc i < length p \<longrightarrow> p ! i < 0x80 \<longrightarrow> \<not> is_cont (p ! Suc i))"

lemma ascii_closed_after:
  assumes "utf8_step b rest = (Some c, n)" "from_utf8 (drop n rest) \<noteq> None" "ascii_closed (drop n rest)"
  shows "ascii_closed (b # rest)"
  unfolding ascii_closed_def
proof (intro allI impI)
  fix i
  assume i: "Suc i < length (b # rest)" and low: "(b # rest) ! i < 0x80"
  show "\<not> is_cont ((b # rest) ! Suc i)"
  proof (cases i)
    case 0
    then have "n = 0" using utf8_step_ascii [OF assms(1)] low by simp
    then have "from_utf8 rest \<noteq> None" using assms(2) by simp
    moreover obtain d ds where "rest = d # ds" using i 0 by (cases rest) auto
    ultimately have "\<not> is_cont d" using utf8_step_lead
      by (auto split: prod.splits option.splits)
    then show ?thesis using 0 \<open>rest = d # ds\<close> by simp
  next
    case (Suc k)
    have "\<not> k < n"
    proof
      assume "k < n"
      from utf8_step_taken [OF assms(1) this] show False using low Suc by auto
    qed
    then obtain m where "k = n + m" using le_Suc_ex not_less by blast
    then show ?thesis using assms(3) i low Suc unfolding ascii_closed_def
      by (auto dest: spec [of _ m])
  qed
qed

lemma from_utf8_ascii_closed: "from_utf8 p \<noteq> None \<Longrightarrow> ascii_closed p"
proof (induction p rule: from_utf8.induct)
  case 1
  then show ?case by (simp add: ascii_closed_def)
next
  case (2 b rest)
  then obtain c n where step: "utf8_step b rest = (Some c, n)"
    by (auto split: prod.splits option.splits)
  moreover have "from_utf8 (drop n rest) \<noteq> None" using 2(2) step by auto
  moreover have "ascii_closed (drop n rest)"
    using "2.IH" [OF step [symmetric]] \<open>from_utf8 (drop n rest) \<noteq> None\<close> by simp
  ultimately show ?case by (rule ascii_closed_after)
qed


lemma ascii_closed_replace:
  "ascii_closed p \<Longrightarrow> old < 0x80 \<Longrightarrow> new < 0x80 \<Longrightarrow> ascii_closed (str_replace old new p)"
  unfolding ascii_closed_def str_replace_def
  by (auto simp: is_cont_range word_le_nat_alt word_less_nat_alt)

lemma ascii_closed_prefix: "ascii_closed (p @ q) \<Longrightarrow> ascii_closed p"
  unfolding ascii_closed_def by (metis Suc_lessD length_append nth_append trans_less_add1)

lemma ascii_closed_until_nul: "ascii_closed p \<Longrightarrow> ascii_closed (until_nul p)"
  unfolding until_nul_takeWhile by (rule ascii_closed_prefix [of _ "dropWhile (\<lambda>b. b \<noteq> 0) p"]) simp

lemma after_sign_boundary: "ascii_closed p \<Longrightarrow> after_sign p s \<Longrightarrow> is_char_boundary p s"
  unfolding ascii_closed_def after_sign_def is_char_boundary_def
  by (cases s) (auto dest!: spec [of _ "s - 1"])

section \<open>What is kept\<close>

text \<open>The start of the kept path exists, is a character boundary of a well-formed string, and what
  is kept has no traversal and nothing left to strip.\<close>

lemma convert_path_start_ends:
  obtains s where "convert_path_start p drive = Some s" "s \<le> length p"
    "s = 0 \<or> s = length p \<or> after_sign p s"
    "\<And>i. \<not> is_traversal (drop s p) i" "stripped drive (drop s p)"
proof -
  obtain s where s: "strip_loop drive p (last_traversal p) = Some s"
      "s = last_traversal p \<or> last_traversal p < s \<and> after_sign p s"
      "s < length p \<longrightarrow> stripped drive (drop s p)"
    using strip_loop_ends by blast
  have l: "s \<le> length p"
    using s(2) last_traversal_start [of p] by (auto simp: after_sign_def)
  show ?thesis
  proof
    show "convert_path_start p drive = Some s" by (simp add: convert_path_start_def s(1))
    show "s = 0 \<or> s = length p \<or> after_sign p s"
      using s(2) last_traversal_start [of p] by (auto simp: after_sign_def)
    show "\<not> is_traversal (drop s p) i" for i
      using s(2) by (intro no_traversal_after_last) auto
    show "stripped drive (drop s p)"
      using s(3) l by (cases "s = length p") (auto simp: stripped_def)
  qed (rule l)
qed

definition kept :: "bool \<Rightarrow> bytes \<Rightarrow> bool" where
  "kept drive q \<longleftrightarrow> (\<forall>i. \<not> is_traversal q i) \<and> stripped drive q"

lemma kept_of_slice:
  "Option.bind (convert_path_start p drive) (str_from p) = Some q \<Longrightarrow>
     kept drive q \<and> (\<exists>s \<le> length p. q = drop s p)"
  by (rule convert_path_start_ends [of p drive])
     (auto simp: str_from_def kept_def split: if_splits)

lemma slice_ok:
  assumes "ascii_closed p"
  shows "\<exists>q. Option.bind (convert_path_start p drive) (str_from p) = Some q"
proof (rule convert_path_start_ends [of p drive])
  fix s
  assume "convert_path_start p drive = Some s" "s = 0 \<or> s = length p \<or> after_sign p s"
  moreover from this(2) have "is_char_boundary p s"
    using after_sign_boundary [OF assms] by (auto simp: is_char_boundary_def)
  ultimately show ?thesis by (simp add: str_from_def)
qed

lemma kept_not_absolute: "kept drive q \<Longrightarrow> \<not> starts_with [slash] q"
proof
  assume k: "kept drive q" and "starts_with [slash] q"
  then obtain rest where "q = replicate 0 dot @ slash # rest"
    by (cases q) (auto simp: starts_with_def)
  then show False using k unfolding kept_def stripped_def by blast
qed

lemma str_split_cases:
  "str_split slash q = [q] \<and> slash \<notin> set q \<or>
     (\<exists>rest. q = hd (str_split slash q) @ slash # rest
        \<and> str_split slash q = hd (str_split slash q) # str_split slash rest)"
proof (cases "slash \<in> set q")
  case True
  then obtain w rest where "q = w @ slash # rest" "slash \<notin> set w"
    by (meson split_list_first)
  then show ?thesis by (auto simp: str_split_append_sep)
qed (simp add: str_split_plain)

text \<open>The first of several components is a proper name.\<close>

lemma kept_first_component:
  assumes "kept drive q" "hd (str_split slash q) \<in> {[], [dot], [dot, dot]}"
  shows "str_split slash q = [q] \<and> q \<in> {[], [dot], [dot, dot]}"
proof (rule disjE [OF str_split_cases [of q]])
  assume "\<exists>rest. q = hd (str_split slash q) @ slash # rest
        \<and> str_split slash q = hd (str_split slash q) # str_split slash rest"
  then obtain rest where "q = hd (str_split slash q) @ slash # rest" by blast
  moreover obtain n where "hd (str_split slash q) = replicate n dot"
    using assms(2) by (auto simp: numeral_eq_Suc intro: that [of 0] that [of 1] that [of 2])
  ultimately have "q = replicate n dot @ slash # rest" by simp
  then show ?thesis using assms(1) unfolding kept_def stripped_def by blast
qed (use assms(2) in auto)

lemma kept_dotdot:
  assumes "kept drive q"
  shows "[dot, dot] \<in> set (str_split slash q) \<longleftrightarrow> q = [dot, dot]"
proof
  assume "[dot, dot] \<in> set (str_split slash q)"
  then have "hd (str_split slash q) = [dot, dot] \<or> [dot, dot] \<in> set (tl (str_split slash q))"
    by (cases "str_split slash q") auto
  then have "hd (str_split slash q) = [dot, dot]"
    using assms dotdot_component [of q] by (auto simp: kept_def)
  then show "q = [dot, dot]" using kept_first_component [OF assms] by simp
qed (simp add: str_split_plain)

lemma kept_start: "kept drive q \<Longrightarrow> convert_path_start q drive = Some 0"
proof -
  assume k: "kept drive q"
  have "last_traversal q = 0"
  proof -
    have "foldl (\<lambda>dest_pos i. if is_traversal q i then (if i + 3 = length q then i + 3 else i + 4)
                         else dest_pos) 0 [0..<n] = (0 :: nat)" for n
      using k by (induction n) (auto simp: kept_def)
    then show ?thesis by (simp add: last_traversal_def)
  qed
  then show ?thesis using k strip_step_fixed [of 0 q drive]
    by (simp add: convert_path_start_def strip_loop.simps kept_def Let_def)
qed


section \<open>Windows names\<close>





















section \<open>Depth\<close>

text \<open>What following a relative path does to the depth below the directory it starts in;
  \<open>None\<close> is a climb above that directory.\<close>

fun walk_depth :: "nat \<Rightarrow> bytes list \<Rightarrow> nat option" where
  "walk_depth d [] = Some d"
| "walk_depth d (c # cs) =
     (if c = [] \<or> c = [dot] then walk_depth d cs
      else if c = [dot, dot] then (if d = 0 then None else walk_depth (d - 1) cs)
      else walk_depth (d + 1) cs)"

lemma walk_depth_append:
  "walk_depth d (xs @ ys) = Option.bind (walk_depth d xs) (\<lambda>e. walk_depth e ys)"
  by (induction d xs rule: walk_depth.induct) auto

lemma walk_depth_down:
  "[dot, dot] \<notin> set xs \<Longrightarrow>
     walk_depth d xs = Some (d + length (filter (\<lambda>c. c \<noteq> [] \<and> c \<noteq> [dot]) xs))"
  by (induction d xs rule: walk_depth.induct) auto

lemma walk_depth_climbs:
  "length (filter (\<lambda>c. c = [dot, dot]) ys) \<le> d \<Longrightarrow> walk_depth d ys \<noteq> None"
  by (induction d ys rule: walk_depth.induct) auto

definition weight :: "bytes \<Rightarrow> int" where
  "weight c = (if c = [dot, dot] then - 1 else if c = [dot] then 0 else 1)"

fun depth_rec :: "int \<Rightarrow> bytes \<Rightarrow> nat" where
  "depth_rec d [] = nat (max d 0)"
| "depth_rec d (b # q) =
     (if b \<noteq> slash then depth_rec d q
      else if starts_with [slash] q then 0
      else depth_rec (d + weight (hd (str_split slash q))) q)"

lemma depth_loop_Suc: "depth_loop (b # p) d (map Suc is) = depth_loop p d is"
  by (induction p d "is" rule: depth_loop.induct) (simp_all add: Let_def add.commute)

lemma starts_with_single: "starts_with [c] p \<longleftrightarrow> 0 < length p \<and> p ! 0 = c"
  by (cases p) (auto simp: starts_with_def)

lemma depth_loop_first:
  "depth_loop (b # p) d (0 # is) =
     (if b \<noteq> slash then depth_loop (b # p) d is
      else if starts_with [slash] p then 0
      else depth_loop (b # p) (d + weight (hd (str_split slash p))) is)"
proof -
  have one: "hd (str_split slash p) = [dot] \<longleftrightarrow> 0 + 1 < length (b # p) \<and> (b # p) ! (0 + 1) = dot
      \<and> (0 + 2 = length (b # p) \<or> (b # p) ! (0 + 2) = slash)"
    unfolding hd_str_split leading_dot by (cases p) auto
  have two: "hd (str_split slash p) = [dot, dot] \<longleftrightarrow> 0 + 2 < length (b # p)
      \<and> (b # p) ! (0 + 1) = dot \<and> (b # p) ! (0 + 2) = dot
      \<and> (0 + 3 = length (b # p) \<or> (b # p) ! (0 + 3) = slash)"
    unfolding hd_str_split leading_dotdot by (auto simp: numeral_eq_Suc)
  have dbl: "starts_with [slash] p \<longleftrightarrow> 0 + 1 < length (b # p) \<and> (b # p) ! (0 + 1) = slash"
    by (simp add: starts_with_single)
  show ?thesis
    unfolding depth_loop.simps Let_def one [symmetric] two [symmetric] dbl [symmetric]
    by (simp add: weight_def)
qed

lemma depth_loop_rec: "depth_loop p d [0..<length p] = depth_rec d p"
proof (induction p arbitrary: d)
  case (Cons b p)
  have idx: "[0..<length (b # p)] = 0 # map Suc [0..<length p]"
    by (simp add: upt_conv_Cons map_Suc_upt del: upt_Suc)
  show ?case
    unfolding idx depth_loop_first depth_loop_Suc Cons.IH by simp
qed simp


text \<open>The permitted depth counts the components after the first; a doubled separator gives zero.\<close>

lemma depth_rec_components:
  "depth_rec d q = 0 \<or> depth_rec d q = nat (max (d + (\<Sum>c\<leftarrow>tl (str_split slash q). weight c)) 0)
     \<and> [] \<notin> set (butlast (tl (str_split slash q)))"
proof (induction d q rule: depth_rec.induct)
  case (2 d b q)
  consider "b \<noteq> slash" | "b = slash" "starts_with [slash] q" | "b = slash" "\<not> starts_with [slash] q"
    by blast
  then show ?case
  proof cases
    case 3
    let ?h = "hd (str_split slash q)" and ?t = "tl (str_split slash q)"
    have split: "str_split slash q = ?h # ?t" by simp
    have "[] \<notin> set (butlast (?h # ?t))" if "[] \<notin> set (butlast ?t)"
    proof (cases "?t = []")
      case False
      then have "?h \<noteq> []" using str_split_cases [of q] 3(2)
        by (auto simp: starts_with_single split: if_splits)
      then show ?thesis using that False by (simp del: list.collapse)
    qed simp
    then have mid: "[] \<notin> set (butlast ?t) \<Longrightarrow> [] \<notin> set (butlast (str_split slash q))"
      using split by simp
    have sum: "(\<Sum>c\<leftarrow>str_split slash q. weight c) = weight ?h + (\<Sum>c\<leftarrow>?t. weight c)"
      by (subst split) (simp only: list.map sum_list.Cons)
    show ?thesis using "2.IH"(2) 3 mid by (auto simp: sum add.assoc)
  qed (use 2 in auto)
qed simp

lemma safe_target_depth:
  assumes kept: "kept drive m" and m: "m \<noteq> [dot, dot]"
    and few: "target_parent_traversal_count t \<le> allowed_link_source_depth m"
  shows "walk_depth 0 (butlast (str_split slash m) @ str_split slash t) \<noteq> None"
proof -
  let ?ms = "str_split slash m" and ?proper = "\<lambda>c. c \<noteq> [] \<and> c \<noteq> [dot]"
  have nodd: "[dot, dot] \<notin> set ?ms" using kept_dotdot [OF kept] m by simp
  then have down: "walk_depth 0 (butlast ?ms) = Some (length (filter ?proper (butlast ?ms)))"
    by (subst walk_depth_down) (auto dest: in_set_butlastD)
  have "allowed_link_source_depth m \<le> length (filter ?proper (butlast ?ms))"
  proof (cases "depth_rec 0 m = 0 \<or> tl ?ms = []")
    case True
    then show ?thesis using depth_rec_components [of 0 m]
      by (auto simp: allowed_link_source_depth_def depth_loop_rec)
  next
    case False
    then have d: "depth_rec 0 m = nat (max (\<Sum>c\<leftarrow>tl ?ms. weight c) 0)"
        and ne: "[] \<notin> set (butlast (tl ?ms))"
      using depth_rec_components [of 0 m] by auto
    obtain c0 mid cl where ms: "?ms = c0 # mid @ [cl]"
      using False by (metis append_butlast_last_id list.exhaust_sel str_split_nonempty(1))
    have c0: "?proper c0" using kept_first_component [OF kept] ms by auto
    have "(\<Sum>c\<leftarrow>xs. weight c) = int (length (filter ?proper xs))"
      if "[] \<notin> set xs" "[dot, dot] \<notin> set xs" for xs
      using that by (induction xs) (auto simp: weight_def)
    from this [of mid] have "(\<Sum>c\<leftarrow>mid. weight c) = int (length (filter ?proper mid))"
      using ne nodd ms by auto
    moreover have "weight cl \<le> 1" by (simp add: weight_def)
    ultimately have "depth_rec 0 m \<le> 1 + length (filter ?proper mid)"
      using d ms by simp
    then show ?thesis using c0 ms by (simp add: allowed_link_source_depth_def depth_loop_rec)
  qed
  then have "walk_depth (length (filter ?proper (butlast ?ms))) (str_split slash t) \<noteq> None"
    using few by (intro walk_depth_climbs) (simp add: target_parent_traversal_count_def)
  then show ?thesis by (simp add: walk_depth_append down)
qed


section \<open>Properties\<close>

lemma sanitize_path_kept:
  assumes "sanitize_path raw = Some p"
  shows "kept True p" "backslash \<notin> set p" "0 \<notin> set p"
proof -
  let ?n = "str_replace backslash slash (until_nul raw)"
  obtain s where p: "kept True p" "p = drop s ?n"
    using assms kept_of_slice [of ?n True p] by (auto simp: sanitize_path_def Let_def)
  have "b \<noteq> backslash \<and> b \<noteq> 0" if "b \<in> set ?n" for b
    using that by (auto simp: str_replace_def until_nul_takeWhile dest: set_takeWhileD split: if_splits)
  then show "kept True p" "backslash \<notin> set p" "0 \<notin> set p"
    using p by (auto dest: in_set_dropD)
qed

text \<open>C11: A sanitised path is relative and stays inside the directory it is resolved in: it does not
  start with a separator or a drive specification, has no backslash and no NUL, and none of its
  components is a parent directory, unless the whole path is.\<close>

theorem sanitize_path_confined:
  assumes "sanitize_path raw = Some p"
  shows "\<not> starts_with [slash] p \<and> \<not> (1 < length p \<and> p ! 1 = colon) \<and> backslash \<notin> set p \<and> 0 \<notin> set p
    \<and> ([dot, dot] \<in> set (str_split slash p) \<longleftrightarrow> p = [dot, dot])"
proof -
  note k = sanitize_path_kept [OF assms]
  have "\<not> (1 < length p \<and> p ! 1 = colon)" using k(1) by (simp add: kept_def stripped_def)
  then show ?thesis using k kept_not_absolute kept_dotdot by blast
qed

theorem sanitize_path_confined_witness:
  "sanitize_path [0x43, 0x3A, 0x5C, 0x61, 0x2F, 0x2E, 0x2E, 0x5C, 0x62, 0x2F, 0x63, 0, 0x64]
     = Some [0x62, 0x2F, 0x63]
   \<and> [dot, dot] \<notin> set (str_split slash [0x62, 0x2F, 0x63])"
proof -
  have "sanitize_path [0x43, 0x3A, 0x5C, 0x61, 0x2F, 0x2E, 0x2E, 0x5C, 0x62, 0x2F, 0x63, 0, 0x64]
     = Some [0x62, 0x2F, 0x63]" by code_simp
  then show ?thesis using sanitize_path_confined by fastforce
qed

text \<open>A path that consists of a parent reference alone, with or without drive specifications
  before it, passes the sanitisers and names the parent of the extraction directory.\<close>

lemma sanitize_path_lets_parent_pass:
  "sanitize_path [dot, dot] = Some [dot, dot]
   \<and> sanitize_path [0x43, 0x3A, dot, dot] = Some [dot, dot]
   \<and> sanitize_member_path_for_target nfc Rar5 Unix [dot, dot] False = Some [dot, dot]
   \<and> walk_depth 0 (str_split slash [dot, dot]) = None"
proof (intro conjI)
  show "sanitize_path [dot, dot] = Some [dot, dot]" by code_simp
  show "sanitize_path [0x43, 0x3A, dot, dot] = Some [dot, dot]" by code_simp
  have "convert_path_start [dot, dot] False = Some 0" by code_simp
  then show "sanitize_member_path_for_target nfc Rar5 Unix [dot, dot] False = Some [dot, dot]"
    by (simp add: sanitize_member_path_for_target_def until_nul_takeWhile str_from_def is_char_boundary_def)
  show "walk_depth 0 (str_split slash [dot, dot]) = None" by code_simp
qed

text \<open>C26: The sanitisers return on every string: the stripping loop ends, and the slice they take
  starts at a character boundary.\<close>

theorem sanitizers_return:
  assumes "from_utf8 raw \<noteq> None"
  shows "(\<exists>p. sanitize_path raw = Some p)
    \<and> (\<exists>p. sanitize_file_redirection_path windows raw = Some p)
    \<and> (\<exists>p. sanitize_member_path_for_target nfc format host raw windows = Some p)"
proof -
  have c: "ascii_closed (until_nul raw)"
    using assms by (intro ascii_closed_until_nul from_utf8_ascii_closed)
  have r: "ascii_closed (str_replace backslash new (until_nul raw))" if "new < 0x80" for new
    using c that by (intro ascii_closed_replace) auto
  have "(\<exists>p. sanitize_path raw = Some p)"
    unfolding sanitize_path_def Let_def by (intro slice_ok r) simp
  moreover have "(\<exists>p. sanitize_file_redirection_path windows raw = Some p)"
    unfolding sanitize_file_redirection_path_def Let_def by (intro slice_ok r) simp
  moreover have "\<exists>p. sanitize_member_path_for_target nfc format host raw windows = Some p"
  proof -
    let ?v = "case format of
              Rar5 \<Rightarrow> if windows \<or> host = Windows then str_replace backslash underscore (until_nul raw)
                      else until_nul raw
            | Rar4 \<Rightarrow> str_replace backslash slash (until_nul raw)
            | Rar14 \<Rightarrow> str_replace backslash slash (until_nul raw)"
    have "ascii_closed ?v" using c r by (cases format) auto
    from slice_ok [OF this, of windows] obtain q s
      where "convert_path_start ?v windows = Some s" "str_from ?v s = Some q"
      by (auto simp: bind_eq_Some_conv)
    then show ?thesis unfolding sanitize_member_path_for_target_def Let_def by simp
  qed
  ultimately show ?thesis by blast
qed

theorem sanitizers_return_witness:
  "\<exists>p. sanitize_file_redirection_path True [0xC3, 0xA9, 0x3A, 0x2F, 0x2E, 0x2F, 0x78] = Some p"
proof -
  have "from_utf8 [0xC3, 0xA9, 0x3A, 0x2F, 0x2E, 0x2F, 0x78] \<noteq> None" by code_simp
  from sanitizers_return [OF this] show ?thesis by blast
qed

text \<open>Sanitising is idempotent.\<close>

theorem sanitize_path_idempotent:
  assumes "sanitize_path raw = Some p"
  shows "sanitize_path p = Some p"
proof -
  note k = sanitize_path_kept [OF assms]
  have "until_nul p = p" using k(3) by (auto simp: until_nul_takeWhile takeWhile_eq_all_conv)
  moreover have "str_replace backslash slash p = p"
    using k(2) by (auto simp: str_replace_def intro!: map_idI)
  ultimately show ?thesis using kept_start [OF k(1)]
    by (simp add: sanitize_path_def str_from_def is_char_boundary_def)
qed

theorem sanitize_path_idempotent_witness:
  "sanitize_path [0x2E, 0x2F, 0x2F, 0x61] = Some [0x61] \<and> sanitize_path [0x61] = Some [0x61]"
proof -
  have "sanitize_path [0x2E, 0x2F, 0x2F, 0x61] = Some [0x61]" by code_simp
  then show ?thesis using sanitize_path_idempotent by blast
qed






lemma member_path_kept:
  assumes "sanitize_member_path_for_target nfc format host raw windows = Some m"
  obtains q where "kept windows q" "\<not> windows \<Longrightarrow> m = q"
    "windows \<Longrightarrow> m = make_windows_member_name_compatible
        ((if host = Unix \<or> host = Darwin then nfc else (\<lambda>p. p)) (str_replace colon underscore q))"
proof -
  obtain v s q where v: "convert_path_start v windows = Some s" "str_from v s = Some q"
    and m: "m = (if windows then make_windows_member_name_compatible
        ((if host = Unix \<or> host = Darwin then nfc else (\<lambda>p. p)) (str_replace colon underscore q)) else q)"
    using assms unfolding sanitize_member_path_for_target_def Let_def bind_eq_Some_conv
    by (elim exE conjE) (auto split: if_splits)
  have "kept windows q" using v kept_of_slice [of v windows q] by simp
  then show ?thesis using m by (intro that [of q]) auto
qed



text \<open>C12: A symbolic link that passes the check of the archive layer on a Unix host points, from the
  directory its sanitised member name puts it in, to a place inside the extraction root: its
  target is relative and following it never climbs above the root, not even on the way.\<close>

theorem accepted_symlink_confined:
  assumes "sanitize_member_path_for_target nfc format host raw False = Some m" and "m \<noteq> [dot, dot]"
    and "is_safe_symlink_target_for_archive_member_on_host format m raw target False"
  shows "\<not> starts_with [slash] target
    \<and> walk_depth 0 (butlast (str_split slash m) @ str_split slash target) \<noteq> None"
proof -
  obtain q where "kept False q" "m = q" using member_path_kept [OF assms(1)] by blast
  then have k: "kept False m" by simp
  have "is_safe_link_target_inner m target True False False False"
    using assms(3) by (simp add: is_safe_symlink_target_for_archive_member_on_host_def Let_def)
  then have "\<not> starts_with [slash] target"
      "target_parent_traversal_count target \<le> allowed_link_source_depth m"
    by (simp_all add: is_safe_link_target_inner_def normalize_backslash_for_path_check_def Let_def
        split: if_splits)
  then show ?thesis using safe_target_depth [OF k assms(2)] by blast
qed

theorem accepted_symlink_confined_witness:
  "is_safe_symlink_target_for_archive_member_on_host Rar5
      [0x61, 0x2F, 0x62, 0x2F, 0x6C] [0x61, 0x2F, 0x62, 0x2F, 0x6C] [0x2E, 0x2E, 0x2F, 0x2E, 0x2E, 0x2F, 0x78] False
   \<and> walk_depth 0 (butlast (str_split slash [0x61, 0x2F, 0x62, 0x2F, 0x6C])
        @ str_split slash [0x2E, 0x2E, 0x2F, 0x2E, 0x2E, 0x2F, 0x78]) \<noteq> None"
proof -
  have "sanitize_member_path_for_target (\<lambda>p. p) Rar5 Unix [0x61, 0x2F, 0x62, 0x2F, 0x6C] False
      = Some [0x61, 0x2F, 0x62, 0x2F, 0x6C]" by code_simp
  moreover have "is_safe_symlink_target_for_archive_member_on_host Rar5
      [0x61, 0x2F, 0x62, 0x2F, 0x6C] [0x61, 0x2F, 0x62, 0x2F, 0x6C]
      [0x2E, 0x2E, 0x2F, 0x2E, 0x2E, 0x2F, 0x78] False" by code_simp
  moreover have "[0x61, 0x2F, 0x62, 0x2F, 0x6C] \<noteq> [dot, dot]" by simp
  ultimately show ?thesis using accepted_symlink_confined by blast
qed

end
