(* ===== verification/Gf8.thy ===== *)
theory Gf8
  imports Rarpar_Prelude
begin

text \<open>
  The field with 256 elements that the RAR 3 erasure coder computes in
  (\<open>reedsolomon-rs/src/rar3.rs\<close>): its exponential and logarithm tables as the
  coder builds them, and the multiplication that looks them up.

  The elements are bytes, addition is exclusive or, and multiplication is that
  of polynomials modulo \<open>0x11D\<close>. They form an instance \<open>gf8\<close> of the library's
  class of fields, so that sums, products and powers of them are the library's;
  \<open>gf_mult_val\<close> shows that the table lookup multiplies in it. \<open>usize\<close> values of
  the source are \<open>nat\<close>; the tables' entries stay below 256.
\<close>

section \<open>The tables\<close>

definition MAX_PAR :: nat where "MAX_PAR = 255"
definition MAX_POL :: nat where "MAX_POL = 512"

definition gf_init_step :: "nat \<Rightarrow> nat \<times> nat list \<times> nat list \<Rightarrow> nat \<times> nat list \<times> nat list" where
  "gf_init_step i st = (case st of (j, gf_log, gf_exp) \<Rightarrow>
     (let gf_log = gf_log[j := i];
          gf_exp = gf_exp[i := j];
          j = 2 * j
      in (if j > MAX_PAR then j XOR 0x11D else j, gf_log, gf_exp)))"

definition gf_init :: "nat list \<times> nat list" where
  "gf_init = (case fold gf_init_step [0..<MAX_PAR]
                     (1, replicate (MAX_PAR + 1) 0, replicate MAX_POL 0) of
     (j, gf_log, gf_exp) \<Rightarrow>
       (fold (\<lambda>i gf_exp. gf_exp[i := gf_exp ! (i - MAX_PAR)]) [MAX_PAR..<MAX_POL] gf_exp, gf_log))"

definition gf_mult_tables :: "nat list \<Rightarrow> nat list \<Rightarrow> nat \<Rightarrow> nat \<Rightarrow> nat" where
  "gf_mult_tables gf_exp gf_log a b =
     (if a = 0 \<or> b = 0 then 0 else gf_exp ! (gf_log ! a + gf_log ! b))"

section \<open>Doubling\<close>

definition xtime :: "u8 \<Rightarrow> u8" where
  "xtime b = push_bit 1 b XOR (if bit b 7 then 0x1D else 0)"

lemma xtime_xor: "xtime (a XOR b) = xtime a XOR xtime b"
  by (auto simp: xtime_def push_bit_xor bit_xor_iff xor.assoc xor.left_commute)

lemma xtime_zero [simp]: "xtime 0 = 0"
  by (simp add: xtime_def)

abbreviation xtimes :: "nat \<Rightarrow> u8 \<Rightarrow> u8" where
  "xtimes n \<equiv> xtime ^^ n"

lemma xtimes_n_xor: "xtimes n (a XOR b) = xtimes n a XOR xtimes n b"
  by (induction n) (simp_all add: xtime_xor)

lemma xtimes_zero [simp]: "xtimes n 0 = 0"
  by (induction n) simp_all

definition orbit :: "u8 list" where
  "orbit = map (\<lambda>i. xtimes i 1) [0..<255]"

text \<open>The order of the generator is 255: it divides 255 and none of its maximal proper divisors.\<close>

lemma xtimes_step: "0 < n \<Longrightarrow> xtimes n b = xtimes (n - 1) (xtime b)"
  by (cases n) (simp_all add: funpow_swap1)

lemma xtimes_small:
  "xtimes 15 1 \<noteq> 1" "xtimes 51 1 \<noteq> 1" "xtimes 85 1 \<noteq> 1" "xtimes 255 1 = 1"
  by (simp_all add: xtimes_step xtime_def)

lemma xtimes_mult_one: "xtimes n 1 = 1 \<Longrightarrow> xtimes (n * k) 1 = 1"
  by (induction k) (simp_all add: funpow_add)

lemma divisor_of_255:
  assumes "g dvd (255 :: nat)" "g \<noteq> 255"
  shows "g dvd 15 \<or> g dvd 51 \<or> g dvd 85"
proof -
  have "list_all (\<lambda>g :: int. g dvd 255 \<longrightarrow> g dvd 15 \<or> g dvd 51 \<or> g dvd 85) [1..254]" by code_simp
  moreover have "int g \<in> set [1..254]"
    using assms dvd_imp_le [OF assms(1)] by (cases "g = 0") auto
  ultimately have "int g dvd 255 \<longrightarrow> int g dvd 15 \<or> int g dvd 51 \<or> int g dvd 85"
    unfolding list_all_iff by blast
  then show ?thesis using assms(1) by (metis int_dvd_int_iff of_nat_numeral)
qed

lemma xtimes_order:
  assumes "0 < n" "n < 255"
  shows "xtimes n 1 \<noteq> 1"
proof
  assume one: "xtimes n 1 = 1"
  define g where "g = gcd n 255"
  obtain x y where "n * x = 255 * y + g"
    using bezout_nat [of n 255] assms(1) by (auto simp: g_def)
  then have "xtimes (255 * y + g) 1 = 1" using xtimes_mult_one [OF one, of x] by simp
  then have g: "xtimes g 1 = 1"
    using xtimes_mult_one [OF xtimes_small(4), of y] by (simp add: add.commute funpow_add)
  have "g \<le> n" using assms(1) by (simp add: g_def)
  then have "g dvd 15 \<or> g dvd 51 \<or> g dvd 85"
    using assms(2) by (intro divisor_of_255) (auto simp: g_def)
  then show False using xtimes_mult_one [OF g] xtimes_small by (metis dvd_def)
qed

lemma orbit_distinct: "distinct orbit"
proof -
  have "i = j" if "xtimes i 1 = xtimes j 1" "i \<le> j" "j < 255" for i j
  proof (rule ccontr)
    assume "i \<noteq> j"
    have "xtimes (255 - i) (xtimes i 1) = 1"
      using that xtimes_small(4) funpow_add [of "255 - i" i xtime] by simp
    then have "xtimes (255 - i + j) 1 = 1" using that(1) by (simp add: funpow_add)
    moreover have "255 - i + j = (j - i) + 255" using that by simp
    ultimately have "xtimes (j - i) 1 = 1" by (simp only: funpow_add comp_apply xtimes_small(4))
    then show False using xtimes_order [of "j - i"] that \<open>i \<noteq> j\<close> by simp
  qed
  then have "inj_on (\<lambda>i. xtimes i 1) {0..<255}"
    by (intro inj_onI) (metis atLeastLessThan_iff nat_le_linear)
  then show ?thesis by (simp add: orbit_def distinct_map)
qed

lemma orbit_nonzero: "xtimes i 1 \<noteq> 0"
proof
  assume "xtimes i 1 = 0"
  then have "xtimes (255 * i) 1 = 0"
    using funpow_add [of "254 * i" i xtime] by simp
  then show False using xtimes_mult_one [OF xtimes_small(4), of i] by simp
qed

lemma orbit_set: "set orbit = UNIV - {0}"
proof (rule card_subset_eq)
  show "set orbit \<subseteq> UNIV - {0}" using orbit_nonzero by (auto simp: orbit_def)
  have "card (set orbit) = 255" using distinct_card [OF orbit_distinct] by (simp add: orbit_def)
  then show "card (set orbit) = card (UNIV - {0} :: u8 set)"
    by (simp add: card_Diff_singleton card_word)
qed simp

text \<open>The discrete logarithm.\<close>

definition dlog :: "u8 \<Rightarrow> nat" where
  "dlog a = length (takeWhile (\<lambda>x. x \<noteq> a) orbit)"

lemma dlog_lt: "a \<noteq> 0 \<Longrightarrow> dlog a < 255"
proof -
  assume "a \<noteq> 0"
  then have "a \<in> set orbit" by (simp add: orbit_set)
  then have "takeWhile (\<lambda>x. x \<noteq> a) orbit \<noteq> orbit" by (metis (mono_tags, lifting) takeWhile_eq_all_conv)
  then have "length (takeWhile (\<lambda>x. x \<noteq> a) orbit) < length orbit"
    by (metis length_takeWhile_le le_neq_implies_less takeWhile_eq_take take_all_iff order_refl)
  then show ?thesis by (simp add: dlog_def orbit_def)
qed

lemma xtimes_dlog [simp]: "a \<noteq> 0 \<Longrightarrow> xtimes (dlog a) 1 = a"
  using nth_length_takeWhile [of "\<lambda>x. x \<noteq> a" orbit] dlog_lt [of a] by (auto simp: dlog_def orbit_def)

lemma xtimes_255: "xtimes 255 b = b"
proof (cases "b = 0")
  case False
  then have "xtimes 255 b = xtimes 255 (xtimes (dlog b) 1)" by simp
  also have "\<dots> = xtimes (dlog b) (xtimes 255 1)"
    using funpow_add [of 255 "dlog b" xtime] funpow_add [of "dlog b" 255 xtime]
    by (metis add.commute comp_apply)
  finally show ?thesis using False by (simp add: xtimes_small)
qed simp

lemma xtimes_mod: "xtimes (n mod 255) b = xtimes n b"
proof -
  have "xtimes (255 * k) b = b" for k by (induction k) (simp_all add: funpow_add xtimes_255)
  moreover have "xtimes n b = xtimes (n mod 255) (xtimes (255 * (n div 255)) b)"
    using funpow_add [of "n mod 255" "255 * (n div 255)" xtime] by simp
  ultimately show ?thesis by simp
qed

lemma dlog_xtimes: "dlog (xtimes n 1) = n mod 255"
proof -
  have "xtimes (dlog (xtimes n 1)) 1 = xtimes (n mod 255) 1"
    using orbit_nonzero by (simp add: xtimes_mod)
  then show ?thesis
    using orbit_distinct dlog_lt [OF orbit_nonzero, of n]
    by (auto simp: orbit_def distinct_map inj_on_def)
qed


section \<open>The field\<close>

datatype gf8 = Gf8 (byte_of: u8)

definition gf8_mul :: "gf8 \<Rightarrow> gf8 \<Rightarrow> gf8" where
  "gf8_mul a b = Gf8 (if byte_of a = 0 then 0 else xtimes (dlog (byte_of a)) (byte_of b))"

definition gf8_inv :: "gf8 \<Rightarrow> gf8" where
  "gf8_inv a = Gf8 (if byte_of a = 0 then 0 else xtimes (255 - dlog (byte_of a)) 1)"

lemma gf8_mul_pow: "gf8_mul (Gf8 (xtimes i 1)) (Gf8 (xtimes j 1)) = Gf8 (xtimes (i + j) 1)"
  by (simp add: gf8_mul_def orbit_nonzero dlog_xtimes xtimes_mod funpow_add)

lemma gf8_cases: obtains "a = Gf8 0" | i where "a = Gf8 (xtimes i 1)"
  by (metis gf8.exhaust xtimes_dlog)

lemma gf8_mul_zero: "gf8_mul (Gf8 0) a = Gf8 0" "gf8_mul a (Gf8 0) = Gf8 0"
  by (simp_all add: gf8_mul_def)

lemma gf8_mul_comm: "gf8_mul a b = gf8_mul b a"
  by (rule gf8_cases [of a]; rule gf8_cases [of b])
     (simp_all add: gf8_mul_zero gf8_mul_pow add.commute)

lemma gf8_mul_assoc: "gf8_mul (gf8_mul a b) c = gf8_mul a (gf8_mul b c)"
  by (rule gf8_cases [of a]; rule gf8_cases [of b]; rule gf8_cases [of c])
     (simp_all add: gf8_mul_zero gf8_mul_pow add.assoc)

lemma gf8_mul_xor:
  "gf8_mul a (Gf8 (b XOR c)) = Gf8 (byte_of (gf8_mul a (Gf8 b)) XOR byte_of (gf8_mul a (Gf8 c)))"
  by (simp add: gf8_mul_def xtimes_n_xor)

lemma gf8_mul_inv:
  assumes "byte_of a \<noteq> 0"
  shows "gf8_mul (gf8_inv a) a = Gf8 1"
proof -
  have "gf8_mul (gf8_inv a) a =
      gf8_mul (Gf8 (xtimes (255 - dlog (byte_of a)) 1)) (Gf8 (xtimes (dlog (byte_of a)) 1))"
    using assms by (simp add: gf8_inv_def)
  also have "\<dots> = Gf8 (xtimes 255 1)" using dlog_lt [OF assms] unfolding gf8_mul_pow by simp
  finally show ?thesis by (simp add: xtimes_small)
qed

instantiation gf8 :: field
begin

definition zero_gf8 :: gf8 where "0 = Gf8 0"
definition one_gf8 :: gf8 where "1 = Gf8 1"
definition plus_gf8 :: "gf8 \<Rightarrow> gf8 \<Rightarrow> gf8" where "a + b = Gf8 (byte_of a XOR byte_of b)"
definition minus_gf8 :: "gf8 \<Rightarrow> gf8 \<Rightarrow> gf8" where "a - b = Gf8 (byte_of a XOR byte_of b)"
definition uminus_gf8 :: "gf8 \<Rightarrow> gf8" where "- a = (a :: gf8)"
definition times_gf8 :: "gf8 \<Rightarrow> gf8 \<Rightarrow> gf8" where "a * b = gf8_mul a b"
definition inverse_gf8 :: "gf8 \<Rightarrow> gf8" where "inverse a = gf8_inv a"
definition divide_gf8 :: "gf8 \<Rightarrow> gf8 \<Rightarrow> gf8" where "a div b = gf8_mul a (gf8_inv b)"

instance
proof
  fix a b c :: gf8
  show "a * b * c = a * (b * c)" by (simp add: times_gf8_def gf8_mul_assoc)
  show "a * b = b * a" unfolding times_gf8_def by (rule gf8_mul_comm)
  show "1 * a = a" using dlog_xtimes [of 0] by (simp add: times_gf8_def gf8_mul_def one_gf8_def)
  show "a + b + c = a + (b + c)" by (simp add: plus_gf8_def xor.assoc)
  show "a + b = b + a" by (simp add: plus_gf8_def xor.commute)
  show "0 + a = a" by (simp add: plus_gf8_def zero_gf8_def)
  show "- a + a = 0" by (simp add: plus_gf8_def zero_gf8_def uminus_gf8_def)
  show "a - b = a + - b" by (simp add: plus_gf8_def minus_gf8_def uminus_gf8_def)
  show "(a + b) * c = a * c + b * c"
    using gf8_mul_xor [of c "byte_of a" "byte_of b"]
    by (simp add: times_gf8_def plus_gf8_def gf8_mul_comm [of _ c])
  show "(0 :: gf8) \<noteq> 1" by (simp add: zero_gf8_def one_gf8_def)
  show "inverse (0 :: gf8) = 0" by (simp add: zero_gf8_def inverse_gf8_def gf8_inv_def)
  show "a div b = a * inverse b" by (simp add: divide_gf8_def times_gf8_def inverse_gf8_def)
  assume "a \<noteq> 0"
  then have "byte_of a \<noteq> 0" by (cases a) (simp add: zero_gf8_def)
  then show "inverse a * a = 1"
    by (simp add: times_gf8_def inverse_gf8_def one_gf8_def gf8_mul_inv)
qed

end

lemma gf8_double [simp]: "a + a = (0 :: gf8)"
  by (simp add: plus_gf8_def zero_gf8_def)

lemma gf8_double_left [simp]: "a + (a + b) = (b :: gf8)"
  by (simp flip: add.assoc)

lemma gf8_uminus [simp]: "- a = (a :: gf8)"
  by (simp add: uminus_gf8_def)

lemma gf8_add_eq_0: "a + b = 0 \<longleftrightarrow> a = (b :: gf8)"
  by (metis add_eq_0_iff gf8_uminus)

section \<open>The generator\<close>

definition alpha :: gf8 where "alpha = Gf8 2"

lemma alpha_power: "alpha ^ n = Gf8 (xtimes n 1)"
proof (induction n)
  case (Suc n)
  have "alpha = Gf8 (xtimes 1 1)" by (simp add: alpha_def xtime_def)
  then show ?case using gf8_mul_pow [of 1 n] by (simp add: Suc times_gf8_def)
qed (simp add: one_gf8_def)

lemma alpha_255 [simp]: "alpha ^ 255 = 1"
  by (simp add: alpha_power xtimes_small one_gf8_def)

lemma alpha_mod: "alpha ^ (n mod 255) = alpha ^ n"
  by (simp add: alpha_power xtimes_mod)

lemma alpha_power_nonzero [simp]: "alpha ^ n \<noteq> 0"
  by (simp add: alpha_power zero_gf8_def orbit_nonzero)

lemma alpha_inj: "alpha ^ i = alpha ^ j \<Longrightarrow> i mod 255 = j mod 255"
  by (metis alpha_power dlog_xtimes gf8.inject)

lemma alpha_times: "alpha * Gf8 b = Gf8 (xtime b)"
proof (cases "b = 0")
  case False
  have "alpha * Gf8 b = alpha ^ Suc (dlog b)" using False by (simp add: alpha_power [of "dlog b"])
  then show ?thesis using False unfolding alpha_power by simp
qed (simp add: times_gf8_def gf8_mul_zero)

text \<open>The number the source stores for a field element.\<close>

definition val :: "gf8 \<Rightarrow> nat" where "val a = unat (byte_of a)"

lemma val_lt [simp]: "val a < 256"
  using unsigned_less [of "byte_of a", where ?'a = nat] by (simp add: val_def)

lemma val_inject [simp]: "val a = val b \<longleftrightarrow> a = b"
  unfolding val_def by (metis gf8.expand unsigned_word_eqI)

lemma val_zero [simp]: "val 0 = 0" "val a = 0 \<longleftrightarrow> a = 0" "val 1 = 1"
  by (auto simp: val_def zero_gf8_def one_gf8_def unat_eq_0 intro: gf8.expand)

lemma val_add: "val (a + b) = val a XOR val b"
  by (simp add: val_def plus_gf8_def unsigned_xor_eq)

lemma val_byte [simp]: "val (Gf8 b) = unat b" "of_nat (val a) = byte_of a"
  by (simp_all add: val_def)


section \<open>The tables compute in the field\<close>

lemma xor_below_256: "a < 512 \<Longrightarrow> 256 \<le> a \<Longrightarrow> (a XOR 0x11D :: nat) < 256"
proof -
  assume a: "a < 512" "256 \<le> a"
  have "drop_bit 8 (a XOR 0x11D) = drop_bit 8 a XOR drop_bit 8 (0x11D :: nat)" by (rule drop_bit_xor)
  also have "drop_bit 8 a = 1" using a by (simp add: drop_bit_eq_div div_nat_eqI)
  finally have "(a XOR 0x11D) div 256 = 0" by (simp add: drop_bit_eq_div)
  then show ?thesis by simp
qed

lemma val_alpha_times:
  "val (alpha * x) = (if 2 * val x > 255 then (2 * val x) XOR 0x11D else 2 * val x)"
proof -
  obtain b where x: "x = Gf8 b" by (cases x)
  have lt: "unat b < 256" using unsigned_less [of b, where ?'a = nat] by simp
  have "bit b 7 \<longleftrightarrow> bit (unat b) 7" by (simp add: bit_unsigned_iff)
  also have "\<dots> \<longleftrightarrow> odd (unat b div 128)" by (simp add: bit_iff_odd)
  also have "\<dots> \<longleftrightarrow> 128 \<le> unat b"
  proof -
    consider "unat b div 128 = 0" | "unat b div 128 = 1" using lt by linarith
    then show ?thesis by cases (auto simp: div_eq_0_iff)
  qed
  finally have high: "bit b 7 \<longleftrightarrow> 128 \<le> unat b" .
  have push: "unat (push_bit 1 b) = take_bit 8 (2 * unat b)"
    using unsigned_push_bit_eq [of 1 b, where ?'a = nat] by (simp only: push_bit_eq_mult) (simp add: mult.commute)
  have "val (alpha * x) = take_bit 8 (2 * unat b) XOR (if bit b 7 then 0x1D else 0)"
    unfolding x alpha_times val_byte xtime_def unsigned_xor_eq push by simp
  moreover have "take_bit 8 (2 * unat b) XOR 0x1D = (2 * unat b) XOR 0x11D" if "128 \<le> unat b"
  proof -
    have "(2 * unat b) XOR 0x11D < 256" using that lt by (intro xor_below_256) auto
    then have "(2 * unat b) XOR 0x11D = take_bit 8 ((2 * unat b) XOR 0x11D)"
      by (intro take_bit_nat_eq_self [symmetric]) simp
    also have "\<dots> = take_bit 8 (2 * unat b) XOR take_bit 8 0x11D" by (rule take_bit_xor)
    finally show ?thesis by simp
  qed
  ultimately show ?thesis unfolding x val_byte high
    by (auto simp: take_bit_nat_eq_self)
qed

lemma gf_init_tables_prefix:
  assumes "n \<le> 255"
  shows "\<exists>lg ex. fold gf_init_step [0..<n] (1, replicate 256 0, replicate 512 0)
      = (val (alpha ^ n), lg, ex)
    \<and> length lg = 256 \<and> length ex = 512
    \<and> (\<forall>i<n. ex ! i = val (alpha ^ i) \<and> lg ! val (alpha ^ i) = i)"
  using assms
proof (induction n)
  case (Suc n)
  then obtain lg ex where f: "fold gf_init_step [0..<n] (1, replicate 256 0, replicate 512 0)
      = (val (alpha ^ n), lg, ex)" and l: "length lg = 256" "length ex = 512"
      and t: "\<And>i. i < n \<Longrightarrow> ex ! i = val (alpha ^ i) \<and> lg ! val (alpha ^ i) = i"
    by auto
  have new: "val (alpha ^ i) \<noteq> val (alpha ^ n)" if "i < n" for i
    using alpha_inj [of i n] that Suc.prems by auto
  have "fold gf_init_step [0..<Suc n] (1, replicate 256 0, replicate 512 0)
      = (val (alpha ^ Suc n), lg[val (alpha ^ n) := n], ex[n := val (alpha ^ n)])"
    using f by (simp add: gf_init_step_def MAX_PAR_def val_alpha_times)
  moreover have "(ex[n := val (alpha ^ n)]) ! i = val (alpha ^ i)
      \<and> (lg[val (alpha ^ n) := n]) ! val (alpha ^ i) = i" if "i < Suc n" for i
    using that t [of i] new [of i] l Suc.prems
    by (cases "i = n") (auto simp: nth_list_update)
  ultimately show ?case using l by simp
qed simp

lemma gf_init_tables:
  obtains ex lg where "gf_init = (ex, lg)" "length ex = 512" "length lg = 256"
    "\<And>i. i < 512 \<Longrightarrow> ex ! i = val (alpha ^ i)" "\<And>i. i < 255 \<Longrightarrow> lg ! val (alpha ^ i) = i"
proof -
  obtain lg ex where f: "fold gf_init_step [0..<255] (1, replicate 256 0, replicate 512 0)
      = (val (alpha ^ 255), lg, ex)" and l: "length lg = 256" "length ex = 512"
      and t: "\<And>i. i < 255 \<Longrightarrow> ex ! i = val (alpha ^ i) \<and> lg ! val (alpha ^ i) = i"
    using gf_init_tables_prefix [of 255] by auto
  have ext: "length (fold (\<lambda>i ex. ex[i := ex ! (i - 255)]) [255..<n] ex) = 512
      \<and> (\<forall>i<n. fold (\<lambda>i ex. ex[i := ex ! (i - 255)]) [255..<n] ex ! i = val (alpha ^ i))"
    if "255 \<le> n" "n \<le> 512" for n
    using that
  proof (induction n rule: dec_induct)
    case base
    then show ?case using l t by simp
  next
    case (step n)
    let ?f = "fold (\<lambda>i ex. ex[i := ex ! (i - 255)]) [255..<n] ex"
    have IH: "length ?f = 512" "\<And>i. i < n \<Longrightarrow> ?f ! i = val (alpha ^ i)" using step by auto
    have "alpha ^ n = alpha ^ (n - 255)"
      using step.hyps power_add [of alpha "n - 255" 255] by simp
    then show ?case using IH step by (auto simp: nth_list_update less_Suc_eq)
  qed
  have eq: "gf_init = (fold (\<lambda>i ex. ex[i := ex ! (i - 255)]) [255..<512] ex, lg)"
    unfolding gf_init_def MAX_PAR_def MAX_POL_def
    using f by (simp only: prod.case one_plus_numeral numeral_plus_one add_num_simps)
  have wide: "(255 :: nat) \<le> 512" by simp
  have "length (fold (\<lambda>i ex. ex[i := ex ! (i - 255)]) [255..<512] ex) = 512"
      "\<And>i. i < 512 \<Longrightarrow> fold (\<lambda>i ex. ex[i := ex ! (i - 255)]) [255..<512] ex ! i = val (alpha ^ i)"
    using ext [OF wide order_refl] by blast+
  then show ?thesis using that [OF eq] l(1) t by blast
qed

definition tables_ok :: "nat list \<Rightarrow> nat list \<Rightarrow> bool" where
  "tables_ok ex lg \<longleftrightarrow> (\<forall>i<512. ex ! i = val (alpha ^ i)) \<and> (\<forall>i<255. lg ! val (alpha ^ i) = i)"

lemma gf_init_ok:
  assumes "gf_init = (ex, lg)"
  shows "tables_ok ex lg"
proof -
  obtain e l where "gf_init = (e, l)" "\<And>i. i < 512 \<Longrightarrow> e ! i = val (alpha ^ i)"
      "\<And>i. i < 255 \<Longrightarrow> l ! val (alpha ^ i) = i"
    by (rule gf_init_tables) blast
  moreover from this(1) assms have "e = ex" "l = lg" by (metis prod.inject)+
  ultimately show ?thesis by (simp add: tables_ok_def)
qed

lemma gf_exp_val: "tables_ok ex lg \<Longrightarrow> i < 512 \<Longrightarrow> ex ! i = val (alpha ^ i)"
  by (simp add: tables_ok_def)

lemma nonzero_power: "a \<noteq> 0 \<Longrightarrow> \<exists>i<255. a = alpha ^ i"
  by (cases a) (metis alpha_power dlog_lt xtimes_dlog zero_gf8_def)

text \<open>The table lookup multiplies, and its index stays inside the table.\<close>

lemma gf_mult_val:
  assumes "tables_ok ex lg"
  shows "gf_mult_tables ex lg (val a) (val b) = val (a * b)"
proof (cases "a = 0 \<or> b = 0")
  case False
  then obtain i j where "i < 255" "a = alpha ^ i" "j < 255" "b = alpha ^ j"
    using nonzero_power by metis
  then show ?thesis using assms by (auto simp: gf_mult_tables_def tables_ok_def power_add)
qed (auto simp: gf_mult_tables_def)

lemma gf_inverse_val:
  assumes "tables_ok ex lg" "a \<noteq> 0"
  shows "ex ! (255 - lg ! val a) = val (inverse a)"
proof -
  obtain i where i: "i < 255" "a = alpha ^ i" using nonzero_power [OF assms(2)] by blast
  have "alpha ^ (255 - i) * alpha ^ i = 1" using i by (simp flip: power_add)
  then have "inverse a = alpha ^ (255 - i)" using i(2) by (metis inverse_unique mult.commute)
  then show ?thesis using assms i by (simp add: tables_ok_def)
qed

end
