(* ===== verification/Rar3_Rs.thy ===== *)
theory Rar3_Rs
  imports Gf8
begin

text \<open>
  The RAR 3 erasure coder (\<open>reedsolomon-rs/src/rar3.rs\<close>, type \<open>Rar3RsCoder\<close>):
  its state with the scratch arrays and the cached error locator, the encoder
  as a shift register, the decoder (syndromes, locator, root search, evaluator
  and the corrections), and the decode matrix derived from it.

  The arrays are lists of the source's lengths and every loop is a fold over
  the range the source iterates. Indices into them stay inside: products look
  up sums of two logarithms below 255, powers are reduced modulo 255 first, and
  the other indices are bounded by \<open>par_size\<close>, which \<open>new\<close> bounds by 255.
\<close>

section \<open>The coder\<close>

record rar3_rs_coder =
  rs_par_size :: nat
  rs_first_block_done :: bool
  rs_gf_exp :: "nat list"
  rs_gf_log :: "nat list"
  rs_gx_pol :: "nat list"
  rs_error_locs :: "nat list"
  rs_err_count :: nat
  rs_dnm :: "nat list"
  rs_el_pol :: "nat list"
  rs_syn_data :: "nat list"
  rs_ee_pol :: "nat list"
  rs_locator_erasures :: "nat list"
  rs_locator_len :: nat
  rs_locator_data_size :: nat

definition gf_mult :: "rar3_rs_coder \<Rightarrow> nat \<Rightarrow> nat \<Rightarrow> nat" where
  "gf_mult coder a b = gf_mult_tables (rs_gf_exp coder) (rs_gf_log coder) a b"

definition pn_mult :: "nat \<Rightarrow> nat list \<Rightarrow> nat list \<Rightarrow> nat list \<Rightarrow> nat list \<Rightarrow> nat list \<Rightarrow> nat list" where
  "pn_mult par_size gf_exp gf_log p1 p2 result =
     fold (\<lambda>i result.
        if p1 ! i = 0 then result
        else fold (\<lambda>j result.
               result[i + j := result ! (i + j) XOR gf_mult_tables gf_exp gf_log (p1 ! i) (p2 ! j)])
             [0..<par_size - i] result)
       [0..<par_size] (replicate par_size 0 @ drop par_size result)"

definition pn_init_step :: "rar3_rs_coder \<Rightarrow> nat \<Rightarrow> nat list \<times> nat list \<Rightarrow> nat list \<times> nat list" where
  "pn_init_step coder i st = (case st of (p2, gx_pol) \<Rightarrow>
     (let par_size = rs_par_size coder;
          p1 = (replicate (MAX_POL * 2) 0)[0 := rs_gf_exp coder ! i, 1 := 1];
          result = pn_mult par_size (rs_gf_exp coder) (rs_gf_log coder) p1 p2 (replicate (MAX_POL * 2) 0);
          gx_pol = take par_size result @ drop par_size gx_pol
      in (take par_size gx_pol @ drop par_size p2, gx_pol)))"

definition pn_init :: "rar3_rs_coder \<Rightarrow> rar3_rs_coder" where
  "pn_init coder = coder\<lparr>rs_gx_pol :=
     snd (fold (pn_init_step coder) [1..<Suc (rs_par_size coder)]
            ((replicate (MAX_POL * 2) 0)[0 := 1], rs_gx_pol coder))\<rparr>"

definition new_coder :: "nat \<Rightarrow> rar3_rs_coder option" where
  "new_coder par_size =
     (if par_size = 0 \<or> par_size > MAX_PAR then None
      else case gf_init of (gf_exp, gf_log) \<Rightarrow>
        Some (pn_init \<lparr>rs_par_size = par_size, rs_first_block_done = False,
          rs_gf_exp = gf_exp, rs_gf_log = gf_log, rs_gx_pol = replicate (MAX_POL * 2) 0,
          rs_error_locs = replicate (MAX_PAR + 1) 0, rs_err_count = 0,
          rs_dnm = replicate (MAX_PAR + 1) 0, rs_el_pol = replicate MAX_POL 0,
          rs_syn_data = replicate (MAX_PAR + 1) 0, rs_ee_pol = replicate (MAX_PAR + 1) 0,
          rs_locator_erasures = replicate (MAX_PAR + 1) 0, rs_locator_len = 0,
          rs_locator_data_size = 0\<rparr>))"

section \<open>Encoding\<close>

definition shift_step :: "rar3_rs_coder \<Rightarrow> u8 \<Rightarrow> nat list \<Rightarrow> nat list" where
  "shift_step coder byte shift_reg =
     (let d = unat byte XOR shift_reg ! (rs_par_size coder - 1);
          shift_reg = fold (\<lambda>j shift_reg.
              shift_reg[j := shift_reg ! (j - 1) XOR gf_mult coder (rs_gx_pol coder ! j) d])
            (rev [1..<rs_par_size coder]) shift_reg
      in shift_reg[0 := gf_mult coder (rs_gx_pol coder ! 0) d])"

text \<open>The length of \<open>dest\<close> is an argument; the result is what is written to it, and \<open>None\<close> is the
  failing assertion.\<close>

definition encode :: "rar3_rs_coder \<Rightarrow> bytes \<Rightarrow> nat \<Rightarrow> bytes option" where
  "encode coder data dest_len =
     (if dest_len \<noteq> rs_par_size coder then None
      else let shift_reg = fold (shift_step coder) data (replicate (MAX_PAR + 1) 0)
           in Some (map (\<lambda>i. of_nat (shift_reg ! (rs_par_size coder - i - 1))) [0..<rs_par_size coder]))"

section \<open>Decoding\<close>

definition syndrome :: "rar3_rs_coder \<Rightarrow> bytes \<Rightarrow> nat \<Rightarrow> nat" where
  "syndrome coder data root =
     foldl (\<lambda>sum byte. unat byte XOR gf_mult coder root sum) 0 data"

definition syndromes :: "rar3_rs_coder \<Rightarrow> bytes \<Rightarrow> nat list \<times> bool" where
  "syndromes coder data =
     fold (\<lambda>i (syn_data, all_zeroes).
        let sum = syndrome coder data (rs_gf_exp coder ! (i + 1))
        in (syn_data[i := sum], all_zeroes \<and> sum = 0))
       [0..<rs_par_size coder] (rs_syn_data coder, True)"

definition locator_stale :: "rar3_rs_coder \<Rightarrow> nat \<Rightarrow> nat list \<Rightarrow> bool" where
  "locator_stale coder data_size erasures =
     (\<not> rs_first_block_done coder \<or> rs_locator_data_size coder \<noteq> data_size
      \<or> take (rs_locator_len coder) (rs_locator_erasures coder) \<noteq> erasures)"

definition locator_pol :: "rar3_rs_coder \<Rightarrow> nat \<Rightarrow> nat list \<Rightarrow> nat list" where
  "locator_pol coder data_size erasures =
     fold (\<lambda>era_pos el_pol.
        let m = rs_gf_exp coder ! (data_size - era_pos - 1)
        in fold (\<lambda>i el_pol. el_pol[i := el_pol ! i XOR gf_mult coder m (el_pol ! (i - 1))])
             (rev [1..<Suc (rs_par_size coder)]) el_pol)
       erasures ((replicate MAX_POL 0)[0 := 1])"

definition locator_at :: "rar3_rs_coder \<Rightarrow> nat list \<Rightarrow> nat \<Rightarrow> nat" where
  "locator_at coder el_pol root =
     fold (\<lambda>b sum. sum XOR gf_mult coder (rs_gf_exp coder ! ((b * root) mod MAX_PAR)) (el_pol ! b))
       [0..<Suc (rs_par_size coder)] 0"

definition denominator_at :: "rar3_rs_coder \<Rightarrow> nat list \<Rightarrow> nat \<Rightarrow> nat" where
  "denominator_at coder el_pol root =
     fold (\<lambda>i d. d XOR gf_mult coder (el_pol ! i) (rs_gf_exp coder ! (root * (i - 1) mod MAX_PAR)))
       (filter odd [1..<Suc (rs_par_size coder)]) 0"

definition root_step ::
    "rar3_rs_coder \<Rightarrow> nat list \<Rightarrow> nat \<Rightarrow> nat list \<times> nat list \<times> nat \<Rightarrow> nat list \<times> nat list \<times> nat" where
  "root_step coder el_pol root st = (case st of (error_locs, dnm, err_count) \<Rightarrow>
     (if locator_at coder el_pol root = 0
      then (error_locs[err_count := MAX_PAR - root],
            dnm[err_count := denominator_at coder el_pol root], err_count + 1)
      else st))"

definition rebuild_locator :: "rar3_rs_coder \<Rightarrow> nat \<Rightarrow> nat list \<Rightarrow> rar3_rs_coder" where
  "rebuild_locator coder data_size erasures =
     (let el_pol = locator_pol coder data_size erasures
      in case fold (root_step coder el_pol) [MAX_PAR - data_size..<Suc MAX_PAR]
                (rs_error_locs coder, rs_dnm coder, 0) of (error_locs, dnm, err_count) \<Rightarrow>
         coder\<lparr>rs_first_block_done := True, rs_locator_data_size := data_size,
           rs_locator_len := length erasures,
           rs_locator_erasures := erasures @ drop (length erasures) (rs_locator_erasures coder),
           rs_el_pol := el_pol, rs_error_locs := error_locs, rs_dnm := dnm,
           rs_err_count := err_count\<rparr>)"

definition evaluator_at :: "rar3_rs_coder \<Rightarrow> nat \<Rightarrow> nat" where
  "evaluator_at coder dloc =
     fold (\<lambda>j n. n XOR gf_mult coder (rs_ee_pol coder ! j) (rs_gf_exp coder ! (dloc * j mod MAX_PAR)))
       [0..<rs_par_size coder] 0"

definition correct_step :: "rar3_rs_coder \<Rightarrow> nat \<Rightarrow> nat \<Rightarrow> bytes \<Rightarrow> bytes" where
  "correct_step coder data_size i data =
     (let loc = rs_error_locs coder ! i;
          dloc = MAX_PAR - loc;
          n = evaluator_at coder dloc;
          data_pos = int data_size - int loc - 1
      in if 0 \<le> data_pos \<and> nat data_pos < data_size
         then data[nat data_pos := data ! nat data_pos XOR
                of_nat (gf_mult coder n
                          (rs_gf_exp coder ! (MAX_PAR - rs_gf_log coder ! (rs_dnm coder ! i))))]
         else data)"

definition decode :: "rar3_rs_coder \<Rightarrow> bytes \<Rightarrow> nat list \<Rightarrow> bool \<times> bytes \<times> rar3_rs_coder" where
  "decode coder data erasures =
     (let data_size = length data
      in if data_size = 0 \<or> data_size > MAX_PAR \<or> length erasures > rs_par_size coder
            \<or> list_ex (\<lambda>loc. loc \<ge> data_size) erasures
         then (False, data, coder)
         else case syndromes coder data of (syn_data, all_zeroes) \<Rightarrow>
           let coder = coder\<lparr>rs_syn_data := syn_data\<rparr>
           in if all_zeroes then (True, data, coder)
              else let
                coder = (if locator_stale coder data_size erasures
                         then rebuild_locator coder data_size erasures else coder);
                coder = coder\<lparr>rs_ee_pol := pn_mult (rs_par_size coder) (rs_gf_exp coder)
                          (rs_gf_log coder) (rs_el_pol coder) (rs_syn_data coder) (rs_ee_pol coder)\<rparr>;
                data = (if rs_err_count coder \<le> rs_par_size coder \<and> rs_err_count coder > 0
                        then fold (correct_step coder data_size) [0..<rs_err_count coder] data
                        else data)
                in (rs_err_count coder \<le> rs_par_size coder, data, coder))"

section \<open>The decode matrix\<close>

definition matrix_column ::
    "nat \<Rightarrow> nat list \<Rightarrow> nat \<Rightarrow> rar3_rs_coder \<times> bytes \<Rightarrow> (rar3_rs_coder \<times> bytes) option" where
  "matrix_column total_len erasures column st = (case st of (coder, matrix) \<Rightarrow>
     (case decode coder ((replicate total_len 0)[column := 1]) erasures of (ok, block, coder) \<Rightarrow>
        if \<not> ok then None
        else if list_ex (\<lambda>pos. pos \<notin> set erasures \<and> block ! pos \<noteq> (if pos = column then 1 else 0))
                  [0..<total_len]
        then None
        else Some (coder, fold (\<lambda>(row, era) matrix. matrix[row * total_len + column := block ! era])
                            (enumerate 0 erasures) matrix)))"

definition decode_matrix :: "rar3_rs_coder \<Rightarrow> nat \<Rightarrow> nat list \<Rightarrow> bytes option" where
  "decode_matrix self total_len erasures =
     (if total_len = 0 \<or> total_len > MAX_PAR then None
      else map_option snd
        (fold (\<lambda>column st. Option.bind st (matrix_column total_len erasures column)) [0..<total_len]
           (Some (self\<lparr>rs_first_block_done := False\<rparr>, replicate (length erasures * total_len) 0))))"

end
