(* ===== verification/Rar3_Algebra.thy ===== *)
theory Rar3_Algebra
  imports Gf8
begin

text \<open>
  The algebra behind the RAR 3 erasure decoder, over the field \<open>gf8\<close>: a block
  as a polynomial, the generator polynomial, the locator polynomial of a list
  of erasure locators by its coefficients, its values and its formal
  derivative, and the key equation with Forney's formula, from which the
  magnitude of every erasure is read.
\<close>

section \<open>Blocks as polynomials\<close>

text \<open>The first byte is the highest coefficient, as the syndrome loop reads it.\<close>

definition ev :: "bytes \<Rightarrow> gf8 \<Rightarrow> gf8" where
  "ev data x = (\<Sum>k<length data. Gf8 (data ! k) * x ^ (length data - 1 - k))"

lemma ev_Nil [simp]: "ev [] x = 0"
  by (simp add: ev_def)

lemma ev_snoc: "ev (data @ [b]) x = Gf8 b + x * ev data x"
proof -
  have "(\<Sum>k<length data. Gf8 ((data @ [b]) ! k) * x ^ (length data - k))
      = (\<Sum>k<length data. x * (Gf8 (data ! k) * x ^ (length data - 1 - k)))"
  proof (rule sum.cong [OF refl])
    fix k
    assume "k \<in> {..<length data}"
    then have "length data - k = Suc (length data - 1 - k)" "k < length data" by auto
    then show "Gf8 ((data @ [b]) ! k) * x ^ (length data - k)
        = x * (Gf8 (data ! k) * x ^ (length data - 1 - k))"
      by (simp add: nth_append)
  qed
  then show ?thesis by (simp add: ev_def sum_distrib_left nth_append add.commute)
qed

lemma ev_append: "ev (xs @ ys) x = ev xs x * x ^ length ys + ev ys x"
proof (induction ys rule: rev_induct)
  case (snoc b ys)
  have "ev (xs @ ys @ [b]) x = Gf8 b + x * ev (xs @ ys) x" using ev_snoc [of "xs @ ys"] by simp
  then show ?case by (simp add: snoc ev_snoc algebra_simps)
qed simp

text \<open>Changing a block at some positions changes its value by the changes there.\<close>

lemma ev_difference:
  assumes "length r = length c" "\<And>k. k < length c \<Longrightarrow> k \<notin> E \<Longrightarrow> r ! k = c ! k" "E \<subseteq> {..<length c}"
  shows "ev r x + ev c x = (\<Sum>k\<in>E. (Gf8 (r ! k) + Gf8 (c ! k)) * x ^ (length c - 1 - k))"
proof -
  have "ev r x + ev c x = (\<Sum>k<length c. (Gf8 (r ! k) + Gf8 (c ! k)) * x ^ (length c - 1 - k))"
    by (simp add: ev_def assms(1) sum.distrib [symmetric] distrib_right)
  also have "\<dots> = (\<Sum>k\<in>E. (Gf8 (r ! k) + Gf8 (c ! k)) * x ^ (length c - 1 - k))"
    using assms(2,3) by (intro sum.mono_neutral_right) auto
  finally show ?thesis .
qed

section \<open>The generator polynomial\<close>

fun gen_coeff :: "nat \<Rightarrow> nat \<Rightarrow> gf8" where
  "gen_coeff 0 j = (if j = 0 then 1 else 0)"
| "gen_coeff (Suc m) j = alpha ^ Suc m * gen_coeff m j + (if j = 0 then 0 else gen_coeff m (j - 1))"

lemma gen_coeff_high: "m < j \<Longrightarrow> gen_coeff m j = 0"
  by (induction m arbitrary: j) auto

lemma gen_coeff_monic: "gen_coeff m m = 1"
  by (induction m) (simp_all add: gen_coeff_high)

lemma shifted_sum:
  "(\<Sum>j\<le>n. (if j = 0 then 0 else f (j - 1)) * x ^ j) = x * (\<Sum>j<n. f j * x ^ j :: gf8)"
proof (induction n)
  case (Suc n)
  then show ?case by (simp add: algebra_simps)
qed simp

lemma gen_coeff_eval: "(\<Sum>j\<le>m. gen_coeff m j * x ^ j) = (\<Prod>i\<in>{1..m}. x + alpha ^ i)"
proof (induction m)
  case (Suc m)
  have "(\<Sum>j\<le>Suc m. gen_coeff (Suc m) j * x ^ j)
      = alpha ^ Suc m * (\<Sum>j\<le>Suc m. gen_coeff m j * x ^ j)
        + (\<Sum>j\<le>Suc m. (if j = 0 then 0 else gen_coeff m (j - 1)) * x ^ j)"
    unfolding gen_coeff.simps by (simp only: distrib_right sum.distrib mult.assoc sum_distrib_left)
  also have "\<dots> = (x + alpha ^ Suc m) * (\<Sum>j\<le>m. gen_coeff m j * x ^ j)"
    by (simp only: shifted_sum lessThan_Suc_atMost) (simp add: gen_coeff_high algebra_simps)
  also have "\<dots> = (\<Prod>i\<in>{1..Suc m}. x + alpha ^ i)" unfolding Suc by (simp add: mult.commute)
  finally show ?case .
qed simp

lemma generator_root:
  assumes "1 \<le> i" "i \<le> p"
  shows "(\<Sum>j<p. gen_coeff p j * (alpha ^ i) ^ j) = (alpha ^ i) ^ p"
proof -
  have "(\<Sum>j\<le>p. gen_coeff p j * (alpha ^ i) ^ j) = 0"
    unfolding gen_coeff_eval using assms by (intro prod_zero) (auto intro!: bexI [of _ i])
  then show ?thesis by (simp add: gen_coeff_monic gf8_add_eq_0 flip: lessThan_Suc_atMost)
qed

section \<open>The locator polynomial\<close>

text \<open>Coefficients of the product of \<open>1 + x * y\<close> over the locators \<open>x\<close>.\<close>

fun loc_coeff :: "gf8 list \<Rightarrow> nat \<Rightarrow> gf8" where
  "loc_coeff [] i = (if i = 0 then 1 else 0)"
| "loc_coeff (x # xs) i = loc_coeff xs i + x * (if i = 0 then 0 else loc_coeff xs (i - 1))"

lemma loc_coeff_high: "length xs < i \<Longrightarrow> loc_coeff xs i = 0"
  by (induction xs arbitrary: i) auto

lemma loc_coeff_swap: "loc_coeff (x # y # zs) i = loc_coeff (y # x # zs) i"
  by (cases i; cases "i - 1") (auto simp: algebra_simps)

lemma loc_coeff_front: "x \<in> set xs \<Longrightarrow> loc_coeff xs i = loc_coeff (x # remove1 x xs) i"
proof (induction xs arbitrary: i)
  case (Cons y xs)
  show ?case
  proof (cases "x = y")
    case False
    then have "\<And>i. loc_coeff xs i = loc_coeff (x # remove1 x xs) i" using Cons by simp
    then have "loc_coeff (y # xs) i = loc_coeff (y # x # remove1 x xs) i"
      by (simp only: loc_coeff.simps(2) [of y])
    then show ?thesis using False loc_coeff_swap [of y x "remove1 x xs" i] by simp
  qed simp
qed simp

definition loc_eval :: "gf8 list \<Rightarrow> gf8 \<Rightarrow> gf8" where
  "loc_eval xs y = (\<Prod>x\<leftarrow>xs. 1 + x * y)"

lemma loc_coeff_eval:
  "length xs \<le> d \<Longrightarrow> (\<Sum>i\<le>d. loc_coeff xs i * y ^ i) = loc_eval xs y"
proof (induction xs arbitrary: d)
  case Nil
  have "(\<Sum>i\<le>d. loc_coeff [] i * y ^ i) = (\<Sum>i\<in>{0}. loc_coeff [] i * y ^ i)"
    by (rule sum.mono_neutral_right) auto
  then show ?case by (simp add: loc_eval_def)
next
  case (Cons x xs)
  then obtain e where d: "d = Suc e" "length xs \<le> e" by (cases d) auto
  have "(\<Sum>i\<le>d. loc_coeff (x # xs) i * y ^ i) = (\<Sum>i\<le>d. loc_coeff xs i * y ^ i)
      + x * (\<Sum>i\<le>d. (if i = 0 then 0 else loc_coeff xs (i - 1)) * y ^ i)"
    unfolding loc_coeff.simps
    by (simp only: distrib_right sum.distrib mult.assoc sum_distrib_left)
  also have "\<dots> = loc_eval xs y + x * (y * loc_eval xs y)"
    using Cons.IH [of d] Cons.IH [of e] Cons.prems d
    by (simp only: shifted_sum lessThan_Suc_atMost)
  finally show ?case by (simp add: loc_eval_def algebra_simps)
qed

lemma loc_eval_zero: "loc_eval xs y = 0 \<longleftrightarrow> (\<exists>x\<in>set xs. x * y = 1)"
  by (induction xs) (auto simp: loc_eval_def gf8_add_eq_0)

text \<open>The formal derivative: its value at the inverse of a locator is that locator times the
  product over the others.\<close>

definition even_part :: "gf8 list \<Rightarrow> nat \<Rightarrow> gf8 \<Rightarrow> gf8" where
  "even_part xs d y = (\<Sum>i | i \<le> d \<and> even i. loc_coeff xs i * y ^ i)"

definition odd_part :: "gf8 list \<Rightarrow> nat \<Rightarrow> gf8 \<Rightarrow> gf8" where
  "odd_part xs d y = (\<Sum>i | i \<le> d \<and> odd i. loc_coeff xs i * y ^ (i - 1))"

lemma parts: "loc_eval xs y = even_part xs d y + y * odd_part xs d y" if "length xs \<le> d"
proof -
  have "loc_eval xs y = (\<Sum>i\<in>{i. i \<le> d \<and> even i} \<union> {i. i \<le> d \<and> odd i}. loc_coeff xs i * y ^ i)"
    unfolding loc_coeff_eval [OF that, symmetric] by (rule sum.cong) auto
  also have "\<dots> = even_part xs d y + (\<Sum>i | i \<le> d \<and> odd i. loc_coeff xs i * y ^ i)"
    unfolding even_part_def by (rule sum.union_disjoint) auto
  also have "(\<Sum>i | i \<le> d \<and> odd i. loc_coeff xs i * y ^ i) = y * odd_part xs d y"
    unfolding odd_part_def sum_distrib_left
  proof (rule sum.cong [OF refl])
    fix i
    assume "i \<in> {i. i \<le> d \<and> odd i}"
    then obtain k where "i = Suc k" by (cases i) auto
    then show "loc_coeff xs i * y ^ i = y * (loc_coeff xs i * y ^ (i - 1))" by simp
  qed
  finally show ?thesis .
qed

lemma odd_part_Cons:
  assumes "length xs < d"
  shows "odd_part (x # xs) d y = odd_part xs d y + x * even_part xs d y"
proof -
  have "(\<Sum>i | i \<le> d \<and> odd i. loc_coeff xs (i - 1) * y ^ (i - 1))
      = (\<Sum>i | Suc i \<le> d \<and> even i. loc_coeff xs i * y ^ i)"
    by (rule sum.reindex_bij_witness [of _ Suc "\<lambda>i. i - 1"]) (auto elim: oddE)
  also have "\<dots> = even_part xs d y"
    unfolding even_part_def
  proof (rule sum.mono_neutral_left)
    show "\<forall>i\<in>{i. i \<le> d \<and> even i} - {i. Suc i \<le> d \<and> even i}. loc_coeff xs i * y ^ i = 0"
      using assms by (auto simp: loc_coeff_high)
  qed auto
  finally have shift: "(\<Sum>i | i \<le> d \<and> odd i. loc_coeff xs (i - 1) * y ^ (i - 1)) = even_part xs d y" .
  have "odd_part (x # xs) d y = (\<Sum>i | i \<le> d \<and> odd i. loc_coeff xs i * y ^ (i - 1)
      + x * (loc_coeff xs (i - 1) * y ^ (i - 1)))"
    unfolding odd_part_def by (rule sum.cong) (auto simp: algebra_simps elim: oddE)
  also have "\<dots> = odd_part xs d y
      + x * (\<Sum>i | i \<le> d \<and> odd i. loc_coeff xs (i - 1) * y ^ (i - 1))"
    by (simp only: sum.distrib odd_part_def sum_distrib_left)
  finally show ?thesis by (simp only: shift)
qed

lemma odd_part_at_inverse:
  assumes "length xs < d" "x * y = 1"
  shows "odd_part (x # xs) d y = x * loc_eval xs y"
proof -
  have "x * loc_eval xs y = x * even_part xs d y + (x * y) * odd_part xs d y"
    using parts [of xs d y] assms(1) by (simp add: algebra_simps)
  then show ?thesis using odd_part_Cons [OF assms(1), of x y] assms(2) by (simp add: add.commute)
qed

section \<open>The key equation\<close>

lemma loc_coeff_convolve:
  "(\<Sum>i\<le>m. loc_coeff (x # ys) i * x ^ (m - i)) = loc_coeff ys m"
proof (induction m)
  case (Suc m)
  have "(\<Sum>i\<le>Suc m. loc_coeff (x # ys) i * x ^ (Suc m - i))
      = x * (\<Sum>i\<le>m. loc_coeff (x # ys) i * x ^ (m - i)) + loc_coeff (x # ys) (Suc m)"
    by (simp add: sum_distrib_left Suc_diff_le mult.left_commute del: loc_coeff.simps)
  then show ?case using Suc by (simp add: algebra_simps)
qed simp

text \<open>The syndromes of erasures with magnitudes \<open>e\<close> at locators \<open>X\<close>, multiplied by the locator
  polynomial and cut at \<open>p\<close> coefficients, evaluated at the inverse of one locator.\<close>

lemma key_equation:
  assumes "finite E" "\<And>k. k \<in> E \<Longrightarrow> X k \<in> set xs"
  shows "(\<Sum>i\<le>m. loc_coeff xs i * (\<Sum>k\<in>E. e k * X k ^ Suc (m - i)))
    = (\<Sum>k\<in>E. e k * X k * loc_coeff (remove1 (X k) xs) m)"
proof -
  have "(\<Sum>i\<le>m. loc_coeff xs i * (\<Sum>k\<in>E. e k * X k ^ Suc (m - i)))
      = (\<Sum>i\<le>m. \<Sum>k\<in>E. e k * X k * (loc_coeff xs i * X k ^ (m - i)))"
    by (simp add: sum_distrib_left algebra_simps)
  also have "\<dots> = (\<Sum>k\<in>E. \<Sum>i\<le>m. e k * X k * (loc_coeff xs i * X k ^ (m - i)))"
    by (rule sum.swap)
  also have "\<dots> = (\<Sum>k\<in>E. e k * X k * loc_coeff (remove1 (X k) xs) m)"
  proof (rule sum.cong [OF refl])
    fix k
    assume "k \<in> E"
    then have "\<And>i. loc_coeff xs i = loc_coeff (X k # remove1 (X k) xs) i"
      using assms(2) loc_coeff_front by blast
    then show "(\<Sum>i\<le>m. e k * X k * (loc_coeff xs i * X k ^ (m - i)))
        = e k * X k * loc_coeff (remove1 (X k) xs) m"
      using loc_coeff_convolve [of "X k" "remove1 (X k) xs" m]
      by (simp flip: sum_distrib_left del: loc_coeff.simps)
  qed
  finally show ?thesis .
qed

lemma evaluator_value:
  assumes "finite E" "\<And>k. k \<in> E \<Longrightarrow> X k \<in> set xs" "distinct xs" "inj_on X E" "length xs \<le> p" "0 < p"
    and l: "l \<in> E" "X l * y = 1"
  shows "(\<Sum>m<p. (\<Sum>i\<le>m. loc_coeff xs i * (\<Sum>k\<in>E. e k * X k ^ Suc (m - i))) * y ^ m)
    = e l * X l * loc_eval (remove1 (X l) xs) y"
proof -
  obtain q where p: "p = Suc q" using assms(6) by (cases p) auto
  have len: "length (remove1 (X k) xs) \<le> q" if "k \<in> E" for k
    using assms(2) [OF that] assms(5) p by (simp add: length_remove1)
  have "(\<Sum>m<p. (\<Sum>i\<le>m. loc_coeff xs i * (\<Sum>k\<in>E. e k * X k ^ Suc (m - i))) * y ^ m)
      = (\<Sum>m<p. \<Sum>k\<in>E. e k * X k * (loc_coeff (remove1 (X k) xs) m * y ^ m))"
  proof (rule sum.cong [OF refl])
    fix m
    show "(\<Sum>i\<le>m. loc_coeff xs i * (\<Sum>k\<in>E. e k * X k ^ Suc (m - i))) * y ^ m
        = (\<Sum>k\<in>E. e k * X k * (loc_coeff (remove1 (X k) xs) m * y ^ m))"
      using key_equation [of E X xs e m, OF assms(1,2)] by (simp only: sum_distrib_right mult.assoc)
  qed
  also have "\<dots> = (\<Sum>k\<in>E. \<Sum>m<p. e k * X k * (loc_coeff (remove1 (X k) xs) m * y ^ m))"
    by (rule sum.swap)
  also have "\<dots> = (\<Sum>k\<in>E. e k * X k * loc_eval (remove1 (X k) xs) y)"
    using len by (intro sum.cong [OF refl])
      (simp add: p lessThan_Suc_atMost loc_coeff_eval flip: sum_distrib_left)
  also have "\<dots> = (\<Sum>k\<in>{l}. e k * X k * loc_eval (remove1 (X k) xs) y)"
  proof (rule sum.mono_neutral_right [OF assms(1)])
    show "\<forall>k\<in>E - {l}. e k * X k * loc_eval (remove1 (X k) xs) y = 0"
    proof
      fix k
      assume "k \<in> E - {l}"
      then have "X l \<noteq> X k" using assms(4) l(1) by (auto dest: inj_onD)
      then have "X l \<in> set (remove1 (X k) xs)" using assms(2,3) l(1) by simp
      then show "e k * X k * loc_eval (remove1 (X k) xs) y = 0" using l(2) loc_eval_zero by auto
    qed
  qed (use l in auto)
  finally show ?thesis by simp
qed

lemma forney:
  assumes "finite E" "\<And>k. k \<in> E \<Longrightarrow> X k \<in> set xs" "distinct xs" "inj_on X E" "length xs \<le> p"
    and "l \<in> E" "X l * y = 1"
  shows "odd_part xs p y \<noteq> 0"
    and "(\<Sum>m<p. (\<Sum>i\<le>m. loc_coeff xs i * (\<Sum>k\<in>E. e k * X k ^ Suc (m - i))) * y ^ m)
      = e l * odd_part xs p y"
proof -
  have X: "X l \<in> set xs" using assms(2,6) by blast
  then have "0 < p" using assms(5) by (cases xs) auto
  have len: "length (remove1 (X l) xs) < p"
    using X assms(5) \<open>0 < p\<close> by (simp add: length_remove1)
  have "odd_part xs p y = odd_part (X l # remove1 (X l) xs) p y"
    unfolding odd_part_def using loc_coeff_front [OF X] by (simp del: loc_coeff.simps)
  then have odd: "odd_part xs p y = X l * loc_eval (remove1 (X l) xs) y"
    using odd_part_at_inverse [OF len assms(7)] by simp
  have "x * y \<noteq> 1" if "x \<in> set (remove1 (X l) xs)" for x
  proof
    assume "x * y = 1"
    then have "x = X l" using assms(7) by (metis mult_cancel_right mult_zero_right zero_neq_one)
    then show False using that assms(3) by (simp add: set_remove1_eq)
  qed
  then have "loc_eval (remove1 (X l) xs) y \<noteq> 0" using loc_eval_zero by blast
  moreover have "X l \<noteq> 0" using assms(7) by auto
  ultimately show "odd_part xs p y \<noteq> 0" using odd by simp
  show "(\<Sum>m<p. (\<Sum>i\<le>m. loc_coeff xs i * (\<Sum>k\<in>E. e k * X k ^ Suc (m - i))) * y ^ m)
      = e l * odd_part xs p y"
    using evaluator_value [of E X xs, OF assms(1-5) \<open>0 < p\<close> assms(6,7)] odd by (simp add: mult.assoc)
qed

end
