(* ===== verification/Rar3_Decoder.thy ===== *)
theory Rar3_Decoder
  imports Rar3_Rs Rar3_Algebra
begin

text \<open>
  Correctness of the RAR 3 erasure coder: what each loop computes in the field,
  the encoder's block vanishes at the powers of the generator, and the decoder
  restores every block whose erased symbols number at most the parity symbols,
  from any state the coder can be in. One case is left out and shown to fail:
  a block of 255 symbols with as many erasures as parity symbols, the last
  symbol among them.
\<close>

section \<open>Loops\<close>

lemma xor_fold_sum:
  "(\<And>b s. b \<in> set bs \<Longrightarrow> f b s = s XOR val (t b)) \<Longrightarrow>
     fold f bs (val s0) = val (s0 + (\<Sum>b\<leftarrow>bs. t b))"
proof (induction bs arbitrary: s0)
  case (Cons b bs)
  have "f b (val s0) = val (s0 + t b)" using Cons.prems [of b] by (simp add: val_add)
  then show ?case using Cons.IH [of "s0 + t b"] Cons.prems by (simp add: add.assoc)
qed simp

lemma xor_fold_sum_0:
  "(\<And>b s. b \<in> set bs \<Longrightarrow> f b s = s XOR val (t b)) \<Longrightarrow> fold f bs 0 = val (\<Sum>b\<leftarrow>bs. t b)"
  using xor_fold_sum [of bs f t 0] by simp

lemma fold_descending:
  assumes "n < length a"
  shows "length (fold (\<lambda>i a. a[i := f i (a ! i) (a ! (i - 1))]) (rev [1..<Suc n]) a) = length a"
    and "k < length a \<Longrightarrow> fold (\<lambda>i a. a[i := f i (a ! i) (a ! (i - 1))]) (rev [1..<Suc n]) a ! k
      = (if 1 \<le> k \<and> k \<le> n then f k (a ! k) (a ! (k - 1)) else a ! k)"
proof -
  have "length (fold (\<lambda>i a. a[i := f i (a ! i) (a ! (i - 1))]) (rev [1..<Suc n]) a) = length a
    \<and> (\<forall>k<length a. fold (\<lambda>i a. a[i := f i (a ! i) (a ! (i - 1))]) (rev [1..<Suc n]) a ! k
      = (if 1 \<le> k \<and> k \<le> n then f k (a ! k) (a ! (k - 1)) else a ! k))"
    using assms
  proof (induction n arbitrary: a)
    case (Suc n)
    let ?a = "a[Suc n := f (Suc n) (a ! Suc n) (a ! n)]"
    let ?F = "fold (\<lambda>i a. a[i := f i (a ! i) (a ! (i - 1))])"
    have eq: "?F (rev [1..<Suc (Suc n)]) a = ?F (rev [1..<Suc n]) ?a" by simp
    have IH: "length (?F (rev [1..<Suc n]) ?a) = length a"
        "\<And>k. k < length a \<Longrightarrow> ?F (rev [1..<Suc n]) ?a ! k
            = (if 1 \<le> k \<and> k \<le> n then f k (?a ! k) (?a ! (k - 1)) else ?a ! k)"
      using Suc.IH [of ?a] Suc.prems by simp_all
    show ?case unfolding eq
    proof (intro conjI allI impI)
      fix k
      assume k: "k < length a"
      consider "k = 0" | "1 \<le> k" "k \<le> n" | "k = Suc n" | "Suc n < k" by linarith
      then show "?F (rev [1..<Suc n]) ?a ! k
          = (if 1 \<le> k \<and> k \<le> Suc n then f k (a ! k) (a ! (k - 1)) else a ! k)"
        unfolding IH(2) [OF k] using k by cases simp_all
    qed (rule IH(1))
  qed simp
  then show "length (fold (\<lambda>i a. a[i := f i (a ! i) (a ! (i - 1))]) (rev [1..<Suc n]) a) = length a"
    and "k < length a \<Longrightarrow> fold (\<lambda>i a. a[i := f i (a ! i) (a ! (i - 1))]) (rev [1..<Suc n]) a ! k
      = (if 1 \<le> k \<and> k \<le> n then f k (a ! k) (a ! (k - 1)) else a ! k)"
    by blast+
qed

text \<open>An array whose first \<open>n\<close> entries are the numbers of given field elements.\<close>

definition holds :: "nat list \<Rightarrow> nat \<Rightarrow> (nat \<Rightarrow> gf8) \<Rightarrow> bool" where
  "holds a n c \<longleftrightarrow> n \<le> length a \<and> (\<forall>i<n. a ! i = val (c i))"

lemma holdsD: "holds a n c \<Longrightarrow> i < n \<Longrightarrow> a ! i = val (c i)"
  by (simp add: holds_def)

lemma pn_mult_inner:
  assumes "tables_ok ex lg" "holds p2 p B" "p1i = val A" "i \<le> p" "holds r p R"
  shows "k \<le> p - i \<Longrightarrow>
    length (fold (\<lambda>j r. r[i + j := r ! (i + j) XOR gf_mult_tables ex lg p1i (p2 ! j)]) [0..<k] r) = length r
    \<and> holds (fold (\<lambda>j r. r[i + j := r ! (i + j) XOR gf_mult_tables ex lg p1i (p2 ! j)]) [0..<k] r) p
        (\<lambda>m. R m + (if i \<le> m \<and> m < i + k then A * B (m - i) else 0))"
proof (induction k)
  case 0
  then show ?case using assms(5) by (auto simp: holds_def)
next
  case (Suc k)
  let ?f = "fold (\<lambda>j r. r[i + j := r ! (i + j) XOR gf_mult_tables ex lg p1i (p2 ! j)]) [0..<k] r"
  have IH: "length ?f = length r" "p \<le> length r"
      "\<And>m. m < p \<Longrightarrow> ?f ! m = val (R m + (if i \<le> m \<and> m < i + k then A * B (m - i) else 0))"
    using Suc by (auto simp: holds_def)
  have "i + k < p" using Suc.prems assms(4) by simp
  moreover have "p2 ! k = val (B k)" using assms(2) \<open>i + k < p\<close> by (simp add: holds_def)
  ultimately show ?case using IH assms(3)
    by (auto simp: holds_def nth_list_update gf_mult_val [OF assms(1)] val_add)
qed

lemma pn_mult_holds:
  assumes "tables_ok ex lg" "holds p1 p A" "holds p2 p B" "p \<le> length result"
  shows "length (pn_mult p ex lg p1 p2 result) = length result"
    and "holds (pn_mult p ex lg p1 p2 result) p (\<lambda>m. \<Sum>i\<le>m. A i * B (m - i))"
proof -
  let ?g = "\<lambda>i result. if p1 ! i = 0 then result
        else fold (\<lambda>j result.
               result[i + j := result ! (i + j) XOR gf_mult_tables ex lg (p1 ! i) (p2 ! j)])
             [0..<p - i] result"
  let ?z = "replicate p 0 @ drop p result"
  have "length (fold ?g [0..<n] ?z) = length result
      \<and> holds (fold ?g [0..<n] ?z) p (\<lambda>m. \<Sum>i\<in>{i. i < n \<and> i \<le> m}. A i * B (m - i))" if "n \<le> p" for n
    using that
  proof (induction n)
    case 0
    then show ?case using assms(4) by (auto simp: holds_def nth_append)
  next
    case (Suc n)
    let ?r = "fold ?g [0..<n] ?z"
    have IH: "length ?r = length result" "holds ?r p (\<lambda>m. \<Sum>i\<in>{i. i < n \<and> i \<le> m}. A i * B (m - i))"
      using Suc by auto
    have np: "n \<le> p" using Suc.prems by simp
    have pn: "p1 ! n = val (A n)" using assms(2) Suc.prems by (simp add: holds_def)
    have split: "(\<Sum>i\<in>{i. i < Suc n \<and> i \<le> m}. A i * B (m - i))
        = (\<Sum>i\<in>{i. i < n \<and> i \<le> m}. A i * B (m - i)) + (if n \<le> m then A n * B (m - n) else 0)" for m
    proof (cases "n \<le> m")
      case True
      then have "{i. i < Suc n \<and> i \<le> m} = insert n {i. i < n \<and> i \<le> m}" by auto
      then show ?thesis using True by (simp add: add.commute)
    next
      case False
      then have "{i. i < Suc n \<and> i \<le> m} = {i. i < n \<and> i \<le> m}" by auto
      then show ?thesis using False by simp
    qed
    have "length (?g n ?r) = length result
        \<and> holds (?g n ?r) p (\<lambda>m. (\<Sum>i\<in>{i. i < n \<and> i \<le> m}. A i * B (m - i))
              + (if n \<le> m \<and> m < n + (p - n) then A n * B (m - n) else 0))"
    proof (cases "p1 ! n = 0")
      case True
      then have "A n = 0" using pn by simp
      then show ?thesis using True IH by (simp add: holds_def)
    next
      case False
      then show ?thesis
        using pn_mult_inner [OF assms(1,3) pn np IH(2) order_refl] IH(1) by (simp only: if_False)
    qed
    then show ?case using Suc.prems by (auto simp: holds_def split)
  qed
  from this [OF order_refl]
  have "length (fold ?g [0..<p] ?z) = length result"
      "holds (fold ?g [0..<p] ?z) p (\<lambda>m. \<Sum>i\<in>{i. i < p \<and> i \<le> m}. A i * B (m - i))" by blast+
  moreover have "{i. i < p \<and> i \<le> m} = {..m}" if "m < p" for m using that by auto
  ultimately show "length (pn_mult p ex lg p1 p2 result) = length result"
      "holds (pn_mult p ex lg p1 p2 result) p (\<lambda>m. \<Sum>i\<le>m. A i * B (m - i))"
    by (simp_all add: pn_mult_def holds_def)
qed


section \<open>A coder that is ready\<close>

abbreviation coder_tables :: "rar3_rs_coder \<Rightarrow> bool" where
  "coder_tables coder \<equiv> tables_ok (rs_gf_exp coder) (rs_gf_log coder)"

lemma gf_mult_coder: "coder_tables coder \<Longrightarrow> gf_mult coder (val a) (val b) = val (a * b)"
  by (simp add: gf_mult_def gf_mult_val)

lemma gf_exp_coder: "coder_tables coder \<Longrightarrow> i \<le> MAX_PAR \<Longrightarrow> rs_gf_exp coder ! i = val (alpha ^ i)"
  by (simp add: gf_exp_val MAX_PAR_def)

lemma gf_exp_coder_mod: "coder_tables coder \<Longrightarrow> rs_gf_exp coder ! (i mod MAX_PAR) = val (alpha ^ i)"
  by (subst gf_exp_coder) (simp_all add: MAX_PAR_def alpha_mod less_imp_le)

lemma pn_init_steps:
  assumes tab: "coder_tables coder" and p: "0 < rs_par_size coder" "rs_par_size coder \<le> MAX_PAR"
    and g: "length gx = MAX_POL * 2" and n: "n \<le> rs_par_size coder"
  shows "case fold (pn_init_step coder) [1..<Suc n] ((replicate (MAX_POL * 2) 0)[0 := 1], gx) of
      (p2, gx') \<Rightarrow> length p2 = MAX_POL * 2 \<and> length gx' = MAX_POL * 2
        \<and> holds p2 (rs_par_size coder) (gen_coeff n)
        \<and> (0 < n \<longrightarrow> holds gx' (rs_par_size coder) (gen_coeff n))"
  using n
proof (induction n)
  case 0
  then show ?case using g p by (auto simp: holds_def nth_list_update MAX_PAR_def MAX_POL_def)
next
  case (Suc n)
  let ?p = "rs_par_size coder"
  obtain p2 gx' where st: "fold (pn_init_step coder) [1..<Suc n] ((replicate (MAX_POL * 2) 0)[0 := 1], gx) = (p2, gx')"
    by fastforce
  have IH: "length p2 = MAX_POL * 2" "length gx' = MAX_POL * 2" "holds p2 ?p (gen_coeff n)"
    using Suc st by auto
  let ?p1 = "(replicate (MAX_POL * 2) 0)[0 := rs_gf_exp coder ! Suc n, 1 := 1]"
  let ?A = "\<lambda>i. if i = 0 then alpha ^ Suc n else if i = 1 then 1 else 0"
  have "rs_gf_exp coder ! Suc n = val (alpha ^ Suc n)"
    using gf_exp_coder [OF tab, of "Suc n"] Suc.prems p(2) by simp
  then have h1: "holds ?p1 ?p ?A"
    using p(2) by (auto simp: holds_def nth_list_update MAX_PAR_def MAX_POL_def)
  let ?r = "pn_mult ?p (rs_gf_exp coder) (rs_gf_log coder) ?p1 p2 (replicate (MAX_POL * 2) 0)"
  have pl: "?p \<le> MAX_POL * 2" using p(2) by (simp add: MAX_PAR_def MAX_POL_def)
  have r: "length ?r = MAX_POL * 2" "holds ?r ?p (\<lambda>m. \<Sum>i\<le>m. ?A i * gen_coeff n (m - i))"
    using pn_mult_holds [OF tab h1 IH(3), of "replicate (MAX_POL * 2) 0"] pl by simp_all
  have "(\<Sum>i\<le>m. ?A i * gen_coeff n (m - i)) = gen_coeff (Suc n) m" for m
  proof -
    have "(\<Sum>i\<le>m. ?A i * gen_coeff n (m - i))
        = (\<Sum>i\<in>(if m = 0 then {0} else {0, 1}). ?A i * gen_coeff n (m - i))"
      by (rule sum.mono_neutral_right) auto
    then show ?thesis by (simp split: if_splits)
  qed
  then have "holds ?r ?p (gen_coeff (Suc n))" using r(2) by (simp add: holds_def)
  moreover have "fold (pn_init_step coder) [1..<Suc (Suc n)] ((replicate (MAX_POL * 2) 0)[0 := 1], gx)
      = (take ?p (take ?p ?r @ drop ?p gx') @ drop ?p p2, take ?p ?r @ drop ?p gx')"
    using st by (simp add: pn_init_step_def Let_def)
  ultimately show ?case using r(1) IH pl by (simp add: holds_def nth_append)
qed

definition gx_ok :: "rar3_rs_coder \<Rightarrow> bool" where
  "gx_ok coder \<longleftrightarrow> holds (rs_gx_pol coder) (rs_par_size coder) (gen_coeff (rs_par_size coder))"

text \<open>The roots the search finds for a block length and locators.\<close>

definition root_list :: "gf8 list \<Rightarrow> nat \<Rightarrow> nat list" where
  "root_list xs data_size = filter (\<lambda>root. loc_eval xs (alpha ^ root) = 0) [MAX_PAR - data_size..<Suc MAX_PAR]"

definition locators :: "nat \<Rightarrow> nat list \<Rightarrow> gf8 list" where
  "locators data_size erasures = rev (map (\<lambda>era. alpha ^ (data_size - 1 - era)) erasures)"

text \<open>The cached locator is the one of the given block length and erasures.\<close>

definition locator_ok :: "rar3_rs_coder \<Rightarrow> nat \<Rightarrow> nat list \<Rightarrow> bool" where
  "locator_ok coder data_size erasures \<longleftrightarrow>
     (let xs = locators data_size erasures; roots = root_list xs data_size in
      holds (rs_el_pol coder) (Suc (rs_par_size coder)) (loc_coeff xs)
      \<and> rs_err_count coder = length roots
      \<and> take (length roots) (rs_error_locs coder) = map (\<lambda>root. MAX_PAR - root) roots
      \<and> take (length roots) (rs_dnm coder) =
          map (\<lambda>root. val (odd_part xs (rs_par_size coder) (alpha ^ root))) roots)"

definition coder_ok :: "rar3_rs_coder \<Rightarrow> bool" where
  "coder_ok coder \<longleftrightarrow> coder_tables coder \<and> 0 < rs_par_size coder \<and> rs_par_size coder \<le> MAX_PAR
     \<and> gx_ok coder \<and> length (rs_syn_data coder) = MAX_PAR + 1 \<and> length (rs_ee_pol coder) = MAX_PAR + 1
     \<and> length (rs_error_locs coder) = MAX_PAR + 1 \<and> length (rs_dnm coder) = MAX_PAR + 1
     \<and> length (rs_locator_erasures coder) = MAX_PAR + 1
     \<and> (rs_first_block_done coder \<longrightarrow>
          locator_ok coder (rs_locator_data_size coder)
            (take (rs_locator_len coder) (rs_locator_erasures coder))
          \<and> rs_locator_data_size coder \<le> MAX_PAR
          \<and> rs_locator_len coder \<le> rs_par_size coder)"

lemma new_coder_ok:
  assumes "new_coder par_size = Some coder"
  shows "coder_ok coder \<and> rs_par_size coder = par_size"
proof -
  have par: "0 < par_size" "par_size \<le> MAX_PAR"
    using assms by (auto simp: new_coder_def split: if_splits)
  obtain ex lg where init: "gf_init = (ex, lg)" by fastforce
  let ?c = "\<lparr>rs_par_size = par_size, rs_first_block_done = False,
          rs_gf_exp = ex, rs_gf_log = lg, rs_gx_pol = replicate (MAX_POL * 2) 0,
          rs_error_locs = replicate (MAX_PAR + 1) 0, rs_err_count = 0,
          rs_dnm = replicate (MAX_PAR + 1) 0, rs_el_pol = replicate MAX_POL 0,
          rs_syn_data = replicate (MAX_PAR + 1) 0, rs_ee_pol = replicate (MAX_PAR + 1) 0,
          rs_locator_erasures = replicate (MAX_PAR + 1) 0, rs_locator_len = 0,
          rs_locator_data_size = 0\<rparr>"
  have c: "coder = pn_init ?c" using assms par unfolding new_coder_def init by simp
  have "gx_ok coder"
    using pn_init_steps [of ?c "replicate (MAX_POL * 2) 0" par_size] gf_init_ok [OF init] par
    unfolding gx_ok_def c pn_init_def by (auto split: prod.splits)
  then show ?thesis using gf_init_ok [OF init] par unfolding coder_ok_def c pn_init_def by simp
qed


section \<open>Encoding\<close>

lemma shift_step_holds:
  fixes byte
  assumes ok: "coder_ok coder" and sr: "holds sr (rs_par_size coder) s" "length sr = MAX_PAR + 1"
  defines "p \<equiv> rs_par_size coder" and "d \<equiv> Gf8 byte + s (rs_par_size coder - 1)"
  shows "length (shift_step coder byte sr) = MAX_PAR + 1"
    and "holds (shift_step coder byte sr) p
      (\<lambda>j. (if j = 0 then 0 else s (j - 1)) + gen_coeff p j * d)"
proof -
  have tab: "coder_tables coder" and pp: "0 < p" "p \<le> MAX_PAR" and gx: "holds (rs_gx_pol coder) p (gen_coeff p)"
    using ok by (simp_all add: coder_ok_def p_def gx_ok_def)
  obtain q where q: "p = Suc q" using pp(1) by (cases p) auto
  have dv: "unat byte XOR sr ! (p - 1) = val d"
    using sr(1) pp(1) by (simp add: holds_def p_def d_def val_add)
  let ?f = "\<lambda>j (_ :: nat) x. x XOR gf_mult coder (rs_gx_pol coder ! j) (val d)"
  let ?r = "fold (\<lambda>i a. a[i := ?f i (a ! i) (a ! (i - 1))]) (rev [1..<Suc q]) sr"
  have step: "shift_step coder byte sr = ?r[0 := gf_mult coder (rs_gx_pol coder ! 0) (val d)]"
    using dv q by (simp add: shift_step_def Let_def p_def)
  have ql: "q < length sr" using q pp(2) sr(2) by simp
  note desc = fold_descending [OF ql, where f = ?f]
  show "length (shift_step coder byte sr) = MAX_PAR + 1" using desc(1) sr(2) by (simp add: step)
  have g: "gf_mult coder (rs_gx_pol coder ! j) (val d) = val (gen_coeff p j * d)" if "j < p" for j
    using gx that by (simp add: holds_def gf_mult_coder [OF tab])
  have "shift_step coder byte sr ! j = val ((if j = 0 then 0 else s (j - 1)) + gen_coeff p j * d)"
    if "j < p" for j
  proof (cases "j = 0")
    case True
    then show ?thesis using g [of 0] pp desc(1) sr(2) by (simp add: step)
  next
    case False
    have "j < length sr" using that pp(2) sr(2) by simp
    then show ?thesis using False desc(2) [of j] g [OF that] that q sr(1)
      by (simp add: step holds_def p_def val_add)
  qed
  then show "holds (shift_step coder byte sr) p
      (\<lambda>j. (if j = 0 then 0 else s (j - 1)) + gen_coeff p j * d)"
    using desc(1) sr(2) pp(2) by (simp add: holds_def step)
qed

lemma gf8_move: "a + b = c \<Longrightarrow> a = c + (b :: gf8)"
  by (metis add.assoc add.right_neutral gf8_double)

lemma gf8_cancel: "(a + c) + (b + c) = b + (a :: gf8)"
  by (metis add.assoc add.commute add.right_neutral gf8_double)

lemma shift_register:
  assumes ok: "coder_ok coder"
  defines "p \<equiv> rs_par_size coder"
  shows "\<exists>s. holds (fold (shift_step coder) data (replicate (MAX_PAR + 1) 0)) p s
    \<and> length (fold (shift_step coder) data (replicate (MAX_PAR + 1) 0)) = MAX_PAR + 1
    \<and> (\<forall>i. 1 \<le> i \<longrightarrow> i \<le> p \<longrightarrow> (\<Sum>j<p. s j * (alpha ^ i) ^ j) = ev data (alpha ^ i) * (alpha ^ i) ^ p)"
proof (induction data rule: rev_induct)
  case Nil
  have "p \<le> MAX_PAR" using ok by (simp add: coder_ok_def p_def)
  then show ?case by (intro exI [of _ "\<lambda>_. 0"]) (auto simp: holds_def nth_Cons split: nat.splits)
next
  case (snoc b data)
  let ?sr = "fold (shift_step coder) data (replicate (MAX_PAR + 1) 0)"
  obtain s where s: "holds ?sr p s" "length ?sr = MAX_PAR + 1"
      "\<And>i. 1 \<le> i \<Longrightarrow> i \<le> p \<Longrightarrow> (\<Sum>j<p. s j * (alpha ^ i) ^ j) = ev data (alpha ^ i) * (alpha ^ i) ^ p"
    using snoc by blast
  let ?d = "Gf8 b + s (p - 1)"
  let ?t = "\<lambda>j. (if j = 0 then 0 else s (j - 1)) + gen_coeff p j * ?d"
  obtain q where q: "p = Suc q" using ok by (cases p) (auto simp: coder_ok_def p_def)
  have "(\<Sum>j<p. ?t j * x ^ j) = ev (data @ [b]) x * x ^ p"
    if "1 \<le> i" "i \<le> p" "x = alpha ^ i" for i x
  proof -
    have "(\<Sum>j<p. ?t j * x ^ j) = (\<Sum>j<p. (if j = 0 then 0 else s (j - 1)) * x ^ j)
        + ?d * (\<Sum>j<p. gen_coeff p j * x ^ j)"
      by (simp add: distrib_right sum.distrib sum_distrib_left mult.assoc mult.left_commute)
    also have "(\<Sum>j<p. gen_coeff p j * x ^ j) = x ^ p"
      using generator_root [OF that(1,2)] that(3) by simp
    also have "(\<Sum>j<p. (if j = 0 then 0 else s (j - 1)) * x ^ j) = x * (\<Sum>j<q. s j * x ^ j)"
      using shifted_sum [of s x q] by (simp add: q lessThan_Suc_atMost)
    also have "(\<Sum>j<q. s j * x ^ j) = ev data x * x ^ p + s q * x ^ q"
      by (rule gf8_move) (use s(3) [OF that(1,2)] that(3) q in simp)
    also have "x * (ev data x * x ^ p + s q * x ^ q) + ?d * x ^ p
        = (x * ev data x * x ^ p + s q * x ^ p) + (Gf8 b * x ^ p + s q * x ^ p)"
      by (simp only: q distrib_left distrib_right power_Suc mult.left_commute mult.assoc diff_Suc_1)
    also have "\<dots> = ev (data @ [b]) x * x ^ p" by (simp only: gf8_cancel ev_snoc distrib_right)
    finally show ?thesis .
  qed
  moreover have "holds (shift_step coder b ?sr) p ?t" "length (shift_step coder b ?sr) = MAX_PAR + 1"
    using shift_step_holds [OF ok _ s(2)] s(1) by (simp_all add: p_def)
  ultimately show ?case by (intro exI [of _ ?t]) simp
qed

text \<open>The data followed by the parity the encoder writes vanishes at the powers of the generator.\<close>

lemma encode_codeword:
  assumes ok: "coder_ok coder" and enc: "encode coder data (rs_par_size coder) = Some parity"
  shows "length parity = rs_par_size coder"
    and "1 \<le> i \<Longrightarrow> i \<le> rs_par_size coder \<Longrightarrow> ev (data @ parity) (alpha ^ i) = 0"
proof -
  let ?p = "rs_par_size coder"
  obtain s where s: "holds (fold (shift_step coder) data (replicate (MAX_PAR + 1) 0)) ?p s"
      "\<And>i. 1 \<le> i \<Longrightarrow> i \<le> ?p \<Longrightarrow> (\<Sum>j<?p. s j * (alpha ^ i) ^ j) = ev data (alpha ^ i) * (alpha ^ i) ^ ?p"
    using shift_register [OF ok] by blast
  have par: "parity = map (\<lambda>i. byte_of (s (?p - i - 1))) [0..<?p]"
    using enc s(1) by (auto simp: encode_def Let_def holds_def intro!: map_cong split: if_splits)
  then show len: "length parity = ?p" by simp
  assume i: "1 \<le> i" "i \<le> ?p"
  have "ev parity x = (\<Sum>j<?p. s j * x ^ j)" for x
    unfolding ev_def len
    by (rule sum.reindex_bij_witness [of _ "\<lambda>j. ?p - 1 - j" "\<lambda>j. ?p - 1 - j"])
       (auto simp: par)
  then show "ev (data @ parity) (alpha ^ i) = 0" by (simp add: ev_append len s(2) [OF i])
qed


section \<open>Syndromes and locator\<close>

lemma syndrome_val: "coder_tables coder \<Longrightarrow> syndrome coder data (val x) = val (ev data x)"
  unfolding syndrome_def
  by (induction data rule: rev_induct) (simp_all add: ev_snoc val_add gf_mult_coder)

lemma syndromes_holds:
  assumes ok: "coder_ok coder"
  obtains syn where "syndromes coder data =
      (syn, \<forall>i<rs_par_size coder. ev data (alpha ^ Suc i) = 0)"
    "length syn = MAX_PAR + 1" "holds syn (rs_par_size coder) (\<lambda>i. ev data (alpha ^ Suc i))"
proof -
  have tab: "coder_tables coder" and p: "rs_par_size coder \<le> MAX_PAR"
      and len: "length (rs_syn_data coder) = MAX_PAR + 1"
    using ok by (simp_all add: coder_ok_def)
  let ?f = "\<lambda>i (syn_data, all_zeroes).
        let sum = syndrome coder data (rs_gf_exp coder ! (i + 1))
        in (syn_data[i := sum], all_zeroes \<and> sum = 0)"
  have "\<exists>syn. fold ?f [0..<n] (rs_syn_data coder, True) = (syn, \<forall>i<n. ev data (alpha ^ Suc i) = 0)
      \<and> length syn = MAX_PAR + 1 \<and> holds syn n (\<lambda>i. ev data (alpha ^ Suc i))"
    if "n \<le> rs_par_size coder" for n
    using that
  proof (induction n)
    case 0
    then show ?case using len by (simp add: holds_def)
  next
    case (Suc n)
    then obtain syn where IH: "fold ?f [0..<n] (rs_syn_data coder, True)
        = (syn, \<forall>i<n. ev data (alpha ^ Suc i) = 0)"
        "length syn = MAX_PAR + 1" "holds syn n (\<lambda>i. ev data (alpha ^ Suc i))" by auto
    have "syndrome coder data (rs_gf_exp coder ! (n + 1)) = val (ev data (alpha ^ Suc n))"
      using gf_exp_coder [OF tab, of "n + 1"] Suc.prems p by (simp add: syndrome_val [OF tab])
    then have "fold ?f [0..<Suc n] (rs_syn_data coder, True)
        = (syn[n := val (ev data (alpha ^ Suc n))], \<forall>i<Suc n. ev data (alpha ^ Suc i) = 0)"
      using IH(1) by (simp add: Let_def All_less_Suc conj_commute)
    then show ?case using IH(2,3) Suc.prems p by (auto simp: holds_def nth_list_update less_Suc_eq)
  qed
  from this [OF order_refl] show ?thesis using that unfolding syndromes_def by blast
qed

lemma locators_Nil [simp]: "locators n [] = []"
  by (simp add: locators_def)

lemma locators_snoc: "locators n (es @ [e]) = alpha ^ (n - 1 - e) # locators n es"
  by (simp add: locators_def)

lemma length_locators [simp]: "length (locators n es) = length es"
  by (simp add: locators_def)

lemma set_locators: "set (locators n es) = (\<lambda>e. alpha ^ (n - 1 - e)) ` set es"
  by (auto simp: locators_def)

lemma locator_pol_holds:
  assumes ok: "coder_ok coder" and n: "n \<le> MAX_PAR"
  shows "length (locator_pol coder n es) = MAX_POL
    \<and> holds (locator_pol coder n es) (Suc (rs_par_size coder)) (loc_coeff (locators n es))"
proof (induction es rule: rev_induct)
  case Nil
  have "rs_par_size coder \<le> MAX_PAR" using ok by (simp add: coder_ok_def)
  then show ?case
    by (auto simp: locator_pol_def holds_def nth_list_update MAX_PAR_def MAX_POL_def)
next
  case (snoc e es)
  have tab: "coder_tables coder" and p: "rs_par_size coder \<le> MAX_PAR"
    using ok by (simp_all add: coder_ok_def)
  let ?el = "locator_pol coder n es" and ?p = "rs_par_size coder" and ?x = "alpha ^ (n - 1 - e)"
  have IH: "length ?el = MAX_POL" "\<And>i. i \<le> ?p \<Longrightarrow> ?el ! i = val (loc_coeff (locators n es) i)"
    using snoc by (simp_all add: holds_def)
  have m: "rs_gf_exp coder ! (n - e - 1) = val ?x"
    using gf_exp_coder [OF tab, of "n - e - 1"] n by (simp add: diff_commute)
  let ?f = "\<lambda>i a b. a XOR gf_mult coder (val ?x) b"
  have step: "locator_pol coder n (es @ [e]) =
      fold (\<lambda>i a. a[i := ?f i (a ! i) (a ! (i - 1))]) (rev [1..<Suc ?p]) ?el"
    by (simp only: locator_pol_def fold_append comp_apply fold_simps Let_def m)
  have pl: "?p < length ?el" using IH(1) p by (simp add: MAX_PAR_def MAX_POL_def)
  note desc = fold_descending [OF pl, where f = ?f]
  have "locator_pol coder n (es @ [e]) ! i = val (loc_coeff (locators n (es @ [e])) i)" if "i \<le> ?p" for i
    using desc(2) [of i] that pl IH(2) [of i] IH(2) [of "i - 1"]
    by (auto simp: step locators_snoc val_add gf_mult_coder [OF tab])
  then show ?case using desc(1) IH(1) pl by (simp add: step holds_def)
qed

lemma locator_at_val:
  assumes tab: "coder_tables coder" and el: "holds el (Suc (rs_par_size coder)) (loc_coeff xs)"
    and len: "length xs \<le> rs_par_size coder"
  shows "locator_at coder el root = val (loc_eval xs (alpha ^ root))"
proof -
  let ?t = "\<lambda>b. loc_coeff xs b * (alpha ^ root) ^ b"
  have "locator_at coder el root = val (\<Sum>b\<leftarrow>[0..<Suc (rs_par_size coder)]. ?t b)"
    unfolding locator_at_def
  proof (rule xor_fold_sum_0)
    fix b s
    assume "b \<in> set [0..<Suc (rs_par_size coder)]"
    then have "el ! b = val (loc_coeff xs b)" using el by (auto simp: holds_def)
    moreover have "alpha ^ (b * root) = (alpha ^ root) ^ b" by (simp flip: power_mult add: mult.commute)
    ultimately show "s XOR gf_mult coder (rs_gf_exp coder ! (b * root mod MAX_PAR)) (el ! b)
        = s XOR val (?t b)"
      by (simp add: gf_exp_coder_mod [OF tab] gf_mult_coder [OF tab] mult.commute)
  qed
  also have "(\<Sum>b\<leftarrow>[0..<Suc (rs_par_size coder)]. ?t b) = loc_eval xs (alpha ^ root)"
    unfolding interv_sum_list_conv_sum_set_nat loc_coeff_eval [OF len, symmetric]
    by (rule sum.cong) auto
  finally show ?thesis .
qed

lemma denominator_at_val:
  assumes tab: "coder_tables coder" and el: "holds el (Suc (rs_par_size coder)) (loc_coeff xs)"
  shows "denominator_at coder el root = val (odd_part xs (rs_par_size coder) (alpha ^ root))"
proof -
  let ?t = "\<lambda>b. loc_coeff xs b * (alpha ^ root) ^ (b - 1)"
  let ?is = "filter odd [1..<Suc (rs_par_size coder)]"
  have "denominator_at coder el root = val (\<Sum>b\<leftarrow>?is. ?t b)"
    unfolding denominator_at_def
  proof (rule xor_fold_sum_0)
    fix b s
    assume "b \<in> set ?is"
    then have "el ! b = val (loc_coeff xs b)" using el by (auto simp: holds_def)
    then show "s XOR gf_mult coder (el ! b) (rs_gf_exp coder ! (root * (b - 1) mod MAX_PAR))
        = s XOR val (?t b)"
      by (simp add: gf_exp_coder_mod [OF tab] gf_mult_coder [OF tab] power_mult)
  qed
  also have "(\<Sum>b\<leftarrow>?is. ?t b) = (\<Sum>b\<in>set ?is. ?t b)"
    by (rule sum_list_distinct_conv_sum_set) simp
  also have "\<dots> = odd_part xs (rs_par_size coder) (alpha ^ root)"
    unfolding odd_part_def by (rule sum.cong) (auto simp: Suc_le_eq elim: oddE)
  finally show ?thesis .
qed


lemma take_update_snoc: "n < length xs \<Longrightarrow> take (Suc n) (xs[n := v]) = take n xs @ [v]"
  by (simp add: take_Suc_conv_app_nth)

lemma root_search:
  assumes zero: "\<And>root. locator_at coder el root = 0 \<longleftrightarrow> z root"
    and den: "\<And>root. denominator_at coder el root = d root"
  shows "cnt + length rs \<le> length locs \<Longrightarrow> length dnm = length locs \<Longrightarrow>
    (case fold (root_step coder el) rs (locs, dnm, cnt) of (locs', dnm', cnt') \<Rightarrow>
       cnt' = cnt + length (filter z rs) \<and> length locs' = length locs \<and> length dnm' = length locs
       \<and> take cnt' locs' = take cnt locs @ map (\<lambda>root. MAX_PAR - root) (filter z rs)
       \<and> take cnt' dnm' = take cnt dnm @ map d (filter z rs))"
proof (induction rs arbitrary: locs dnm cnt)
  case (Cons r rs)
  show ?case
  proof (cases "z r")
    case True
    then have step: "root_step coder el r (locs, dnm, cnt)
        = (locs[cnt := MAX_PAR - r], dnm[cnt := d r], Suc cnt)"
      by (simp add: root_step_def zero den)
    have "cnt < length locs" using Cons.prems by simp
    then show ?thesis using Cons.IH [of "Suc cnt" "locs[cnt := MAX_PAR - r]" "dnm[cnt := d r]"] Cons.prems True
      by (simp add: step take_update_snoc split: prod.splits)
  next
    case False
    then have "root_step coder el r (locs, dnm, cnt) = (locs, dnm, cnt)"
      by (simp add: root_step_def zero)
    then show ?thesis using Cons.IH [of cnt locs dnm] Cons.prems False by (simp split: prod.splits)
  qed
qed simp

lemma locator_ok_cong:
  assumes "rs_el_pol c = rs_el_pol c'" "rs_par_size c = rs_par_size c'" "rs_err_count c = rs_err_count c'"
    "rs_error_locs c = rs_error_locs c'" "rs_dnm c = rs_dnm c'"
  shows "locator_ok c n es \<longleftrightarrow> locator_ok c' n es"
  using assms by (simp add: locator_ok_def)

lemma rebuild_locator_ok:
  assumes ok: "coder_ok coder" and n: "n \<le> MAX_PAR" and len: "length es \<le> rs_par_size coder"
  defines "c' \<equiv> rebuild_locator coder n es"
  shows "coder_ok c' \<and> locator_ok c' n es \<and> rs_par_size c' = rs_par_size coder
    \<and> rs_syn_data c' = rs_syn_data coder"
proof -
  let ?p = "rs_par_size coder" and ?el = "locator_pol coder n es" and ?xs = "locators n es"
  have tab: "coder_tables coder" and p: "?p \<le> MAX_PAR" using ok by (simp_all add: coder_ok_def)
  have el: "holds ?el (Suc ?p) (loc_coeff ?xs)" using locator_pol_holds [OF ok n] by blast
  obtain locs dnm cnt where st: "fold (root_step coder ?el) [MAX_PAR - n..<Suc MAX_PAR]
      (rs_error_locs coder, rs_dnm coder, 0) = (locs, dnm, cnt)"
    by (metis prod_cases3)
  have lens: "length (rs_error_locs coder) = MAX_PAR + 1" "length (rs_dnm coder) = MAX_PAR + 1"
      "length (rs_locator_erasures coder) = MAX_PAR + 1"
    using ok by (simp_all add: coder_ok_def)
  have zero: "locator_at coder ?el root = 0 \<longleftrightarrow> loc_eval ?xs (alpha ^ root) = 0" for root
    using locator_at_val [OF tab el] len by simp
  have fits: "0 + length [MAX_PAR - n..<Suc MAX_PAR] \<le> length (rs_error_locs coder)"
    using lens n by simp
  have same: "length (rs_dnm coder) = length (rs_error_locs coder)" using lens by simp
  have rs: "cnt = length (root_list ?xs n)" "length locs = MAX_PAR + 1" "length dnm = MAX_PAR + 1"
      "take cnt locs = map (\<lambda>root. MAX_PAR - root) (root_list ?xs n)"
      "take cnt dnm = map (\<lambda>root. val (odd_part ?xs ?p (alpha ^ root))) (root_list ?xs n)"
    using root_search [OF zero denominator_at_val [OF tab el] fits same]
    unfolding st prod.case root_list_def [symmetric] lens take_0 append_Nil add_0 by blast+
  have c': "c' = coder\<lparr>rs_first_block_done := True, rs_locator_data_size := n,
           rs_locator_len := length es,
           rs_locator_erasures := es @ drop (length es) (rs_locator_erasures coder),
           rs_el_pol := ?el, rs_error_locs := locs, rs_dnm := dnm, rs_err_count := cnt\<rparr>"
    unfolding c'_def rebuild_locator_def Let_def st by simp
  have lok: "locator_ok c' n es" using el rs by (simp add: locator_ok_def c' Let_def)
  moreover have "coder_ok c'"
    using ok lok len n p rs lens by (simp add: coder_ok_def gx_ok_def c' Let_def)
  ultimately show ?thesis by (simp add: c')
qed

section \<open>The roots\<close>

text \<open>The root the search finds for an erased position.\<close>

definition root_of :: "nat \<Rightarrow> nat \<Rightarrow> nat" where
  "root_of n k = MAX_PAR - (n - 1 - k)"

lemma alpha_power_one: "alpha ^ m = 1 \<longleftrightarrow> m mod 255 = 0"
  using alpha_inj [of m 0] alpha_mod [of m] by (auto simp: mod_eq_0_iff_dvd)

lemma locator_inverse:
  assumes "k < n" "n \<le> MAX_PAR"
  shows "alpha ^ (n - 1 - k) * alpha ^ root_of n k = 1"
  using assms by (simp add: root_of_def MAX_PAR_def flip: power_add)

lemma root_of_position:
  assumes "k < n" "n \<le> MAX_PAR" "root \<le> MAX_PAR"
  shows "MAX_PAR - root < n \<and> n - 1 - (MAX_PAR - root) = k \<longleftrightarrow> root = root_of n k"
  using assms by (auto simp: root_of_def MAX_PAR_def)

lemma root_list_cases:
  assumes n: "n \<le> MAX_PAR" and es: "\<And>e. e \<in> set es \<Longrightarrow> e < n"
  shows "root \<in> set (root_list (locators n es) n) \<longleftrightarrow>
    root \<in> root_of n ` set es \<or> root = 0 \<and> n = MAX_PAR \<and> n - 1 \<in> set es"
proof -
  have key: "alpha ^ (n - 1 - e) * alpha ^ root = 1 \<longleftrightarrow> root = root_of n e \<or> root = 0 \<and> e = n - 1"
    if "e \<in> set es" "root \<le> MAX_PAR" for e
  proof -
    have "n - 1 - e + root < 510" using that(2) n by (simp add: MAX_PAR_def)
    then have "(n - 1 - e + root) mod 255 = 0 \<longleftrightarrow> n - 1 - e + root = 0 \<or> n - 1 - e + root = 255"
      by (auto elim!: dvdE simp: mod_eq_0_iff_dvd)
    then show ?thesis using es [OF that(1)] n that(2)
      by (auto simp: alpha_power_one root_of_def MAX_PAR_def simp flip: power_add)
  qed
  have "root \<in> set (root_list (locators n es) n) \<longleftrightarrow> MAX_PAR - n \<le> root \<and> root \<le> MAX_PAR
      \<and> (\<exists>e\<in>set es. alpha ^ (n - 1 - e) * alpha ^ root = 1)"
    by (auto simp: root_list_def loc_eval_zero set_locators simp del: upt_Suc)
  also have "\<dots> \<longleftrightarrow> MAX_PAR - n \<le> root \<and> root \<le> MAX_PAR
      \<and> (\<exists>e\<in>set es. root = root_of n e \<or> root = 0 \<and> e = n - 1)"
    using key by blast
  also have "\<dots> \<longleftrightarrow> root \<in> root_of n ` set es \<or> root = 0 \<and> n = MAX_PAR \<and> n - 1 \<in> set es"
    using es n by (auto simp: root_of_def MAX_PAR_def)
  finally show ?thesis .
qed

lemma root_list_distinct: "distinct (root_list xs n)"
  by (simp add: root_list_def del: upt_Suc)

lemma root_of_inj: "n \<le> MAX_PAR \<Longrightarrow> inj_on (root_of n) {..<n}"
  by (auto simp: inj_on_def root_of_def MAX_PAR_def)

lemma root_list_length:
  assumes n: "n \<le> MAX_PAR" and es: "\<And>e. e \<in> set es \<Longrightarrow> e < n" "distinct es"
  shows "length (root_list (locators n es) n)
    = length es + (if n = MAX_PAR \<and> n - 1 \<in> set es then 1 else 0)"
proof -
  let ?roots = "root_list (locators n es) n"
  have img: "card (root_of n ` set es) = length es"
    using es root_of_inj [OF n] by (simp add: card_image distinct_card inj_on_subset subset_iff)
  define full where "full \<longleftrightarrow> n = MAX_PAR \<and> n - 1 \<in> set es"
  have "0 \<notin> root_of n ` set es" using es(1) n by (auto simp: root_of_def MAX_PAR_def)
  moreover have "set ?roots = (if full then insert 0 (root_of n ` set es) else root_of n ` set es)"
    using root_list_cases [OF n es(1)] by (auto simp: full_def)
  ultimately have "card (set ?roots) = length es + (if full then 1 else 0)"
    using img by simp
  then have "card (set ?roots) = length es + (if n = MAX_PAR \<and> n - 1 \<in> set es then 1 else 0)"
    by (simp only: full_def)
  then show ?thesis using distinct_card [OF root_list_distinct] by metis
qed


section \<open>Corrections\<close>

lemma evaluator_at_val:
  assumes tab: "coder_tables coder" and ee: "holds (rs_ee_pol coder) (rs_par_size coder) W"
  shows "evaluator_at coder root = val (\<Sum>m<rs_par_size coder. W m * (alpha ^ root) ^ m)"
proof -
  let ?t = "\<lambda>m. W m * (alpha ^ root) ^ m"
  have "evaluator_at coder root = val (\<Sum>m\<leftarrow>[0..<rs_par_size coder]. ?t m)"
    unfolding evaluator_at_def
  proof (rule xor_fold_sum_0)
    fix m s
    assume "m \<in> set [0..<rs_par_size coder]"
    then have "rs_ee_pol coder ! m = val (W m)" using ee by (auto simp: holds_def)
    then show "s XOR gf_mult coder (rs_ee_pol coder ! m) (rs_gf_exp coder ! (root * m mod MAX_PAR))
        = s XOR val (?t m)"
      by (simp add: gf_exp_coder_mod [OF tab] gf_mult_coder [OF tab] power_mult)
  qed
  then show ?thesis by (simp add: interv_sum_list_conv_sum_set_nat lessThan_atLeast0)
qed

text \<open>Adding a value at the position of every root.\<close>

definition add_at :: "nat \<Rightarrow> (nat \<Rightarrow> gf8) \<Rightarrow> nat \<Rightarrow> bytes \<Rightarrow> bytes" where
  "add_at n q root data =
     (if MAX_PAR - root < n
      then data[n - 1 - (MAX_PAR - root) := data ! (n - 1 - (MAX_PAR - root)) XOR byte_of (q root)]
      else data)"

lemma length_add_at [simp]: "length (add_at n q root data) = length data"
  by (simp add: add_at_def)

lemma fold_add_at:
  assumes "length data = n"
  shows "length (fold (add_at n q) roots data) = n"
    and "k < n \<Longrightarrow> Gf8 (fold (add_at n q) roots data ! k) = Gf8 (data ! k)
      + (\<Sum>root\<leftarrow>roots. if MAX_PAR - root < n \<and> n - 1 - (MAX_PAR - root) = k then q root else 0)"
proof -
  have "length (fold (add_at n q) roots data) = n
    \<and> (k < n \<longrightarrow> Gf8 (fold (add_at n q) roots data ! k) = Gf8 (data ! k)
      + (\<Sum>root\<leftarrow>roots. if MAX_PAR - root < n \<and> n - 1 - (MAX_PAR - root) = k then q root else 0))"
    using assms
  proof (induction roots arbitrary: data)
    case (Cons root roots)
    have "Gf8 (add_at n q root data ! k) = Gf8 (data ! k)
        + (if MAX_PAR - root < n \<and> n - 1 - (MAX_PAR - root) = k then q root else 0)" if "k < n"
      using Cons.prems that by (auto simp: add_at_def plus_gf8_def zero_gf8_def nth_list_update)
    then show ?case using Cons.IH [of "add_at n q root data"] Cons.prems by (simp add: add.assoc)
  qed simp
  then show "length (fold (add_at n q) roots data) = n"
    and "k < n \<Longrightarrow> Gf8 (fold (add_at n q) roots data ! k) = Gf8 (data ! k)
      + (\<Sum>root\<leftarrow>roots. if MAX_PAR - root < n \<and> n - 1 - (MAX_PAR - root) = k then q root else 0)"
    by blast+
qed

lemma fold_nth: "fold (\<lambda>i. f (xs ! i)) [0..<length xs] s = fold f xs s"
proof -
  have "fold f xs s = fold f (map ((!) xs) [0..<length xs]) s" by (simp add: map_nth)
  then show ?thesis by (simp add: fold_map comp_def)
qed

text \<open>The magnitude the decoder adds at a root.\<close>

definition magnitude :: "nat \<Rightarrow> gf8 list \<Rightarrow> (nat \<Rightarrow> gf8) \<Rightarrow> nat \<Rightarrow> gf8" where
  "magnitude p xs S root =
     (\<Sum>m<p. (\<Sum>i\<le>m. loc_coeff xs i * S (m - i)) * (alpha ^ root) ^ m)
       * inverse (odd_part xs p (alpha ^ root))"

lemma corrections:
  assumes tab: "coder_tables coder" and lok: "locator_ok coder n es"
    and ee: "holds (rs_ee_pol coder) (rs_par_size coder) (\<lambda>m. \<Sum>i\<le>m. loc_coeff (locators n es) i * S (m - i))"
    and d: "\<And>root. root \<in> set (root_list (locators n es) n) \<Longrightarrow>
        odd_part (locators n es) (rs_par_size coder) (alpha ^ root) \<noteq> 0"
    and n: "n \<le> MAX_PAR"
  shows "fold (correct_step coder n) [0..<rs_err_count coder] data
    = fold (add_at n (magnitude (rs_par_size coder) (locators n es) S)) (root_list (locators n es) n) data"
proof -
  let ?xs = "locators n es" and ?p = "rs_par_size coder"
  let ?roots = "root_list ?xs n"
  have cnt: "rs_err_count coder = length ?roots"
    and locs: "take (length ?roots) (rs_error_locs coder) = map (\<lambda>root. MAX_PAR - root) ?roots"
    and dnm: "take (length ?roots) (rs_dnm coder) = map (\<lambda>root. val (odd_part ?xs ?p (alpha ^ root))) ?roots"
    using lok by (simp_all add: locator_ok_def Let_def)
  have "correct_step coder n i dt = add_at n (magnitude ?p ?xs S) (?roots ! i) dt"
    if i: "i < length ?roots" for i dt
  proof -
    let ?root = "?roots ! i"
    have mem: "?root \<in> set ?roots" using i by simp
    then have le: "?root \<le> MAX_PAR" by (auto simp: root_list_def simp del: upt_Suc)
    have "rs_error_locs coder ! i = MAX_PAR - ?root" using arg_cong [OF locs, of "\<lambda>l. l ! i"] i by simp
    moreover have "rs_dnm coder ! i = val (odd_part ?xs ?p (alpha ^ ?root))"
      using arg_cong [OF dnm, of "\<lambda>l. l ! i"] i by simp
    moreover have "rs_gf_exp coder ! (MAX_PAR - rs_gf_log coder ! val (odd_part ?xs ?p (alpha ^ ?root)))
        = val (inverse (odd_part ?xs ?p (alpha ^ ?root)))"
      using gf_inverse_val [OF tab d [OF mem]] by (simp add: MAX_PAR_def)
    ultimately show ?thesis using le evaluator_at_val [OF tab ee, of ?root]
      by (auto simp: correct_step_def add_at_def Let_def gf_mult_coder [OF tab] magnitude_def
          nat_diff_distrib' diff_diff_left add.commute)
  qed
  then have "fold (correct_step coder n) [0..<length ?roots] data
      = fold (\<lambda>i. add_at n (magnitude ?p ?xs S) (?roots ! i)) [0..<length ?roots] data"
    by (intro fold_cong) auto
  then show ?thesis by (simp add: cnt fold_nth)
qed


section \<open>The decoder as a whole\<close>

text \<open>The decoder after its guards and its test for a block without errors: the coder that holds the
  locator and the evaluator, from whatever the cache held.\<close>

definition ready :: "rar3_rs_coder \<Rightarrow> nat \<Rightarrow> nat list \<Rightarrow> rar3_rs_coder" where
  "ready coder n es =
     (let coder = (if locator_stale coder n es then rebuild_locator coder n es else coder)
      in coder\<lparr>rs_ee_pol := pn_mult (rs_par_size coder) (rs_gf_exp coder)
                (rs_gf_log coder) (rs_el_pol coder) (rs_syn_data coder) (rs_ee_pol coder)\<rparr>)"

lemma coder_ok_syn:
  "coder_ok coder \<Longrightarrow> length syn = MAX_PAR + 1 \<Longrightarrow> coder_ok (coder\<lparr>rs_syn_data := syn\<rparr>)"
  using locator_ok_cong [of "coder\<lparr>rs_syn_data := syn\<rparr>" coder] by (simp add: coder_ok_def gx_ok_def)

lemma coder_ok_ee:
  "coder_ok coder \<Longrightarrow> length ee = MAX_PAR + 1 \<Longrightarrow> coder_ok (coder\<lparr>rs_ee_pol := ee\<rparr>)"
  using locator_ok_cong [of "coder\<lparr>rs_ee_pol := ee\<rparr>" coder] by (simp add: coder_ok_def gx_ok_def)

lemma ready_ok:
  assumes ok: "coder_ok coder" and n: "n \<le> MAX_PAR" and len: "length es \<le> rs_par_size coder"
    and syn: "holds (rs_syn_data coder) (rs_par_size coder) S"
  shows "coder_ok (ready coder n es)" "locator_ok (ready coder n es) n es"
    "rs_par_size (ready coder n es) = rs_par_size coder"
    "holds (rs_ee_pol (ready coder n es)) (rs_par_size coder)
       (\<lambda>m. \<Sum>i\<le>m. loc_coeff (locators n es) i * S (m - i))"
proof -
  let ?c = "if locator_stale coder n es then rebuild_locator coder n es else coder"
  have c: "coder_ok ?c" "locator_ok ?c n es" "rs_par_size ?c = rs_par_size coder"
      "rs_syn_data ?c = rs_syn_data coder"
    using rebuild_locator_ok [OF ok n len] ok by (auto simp: locator_stale_def coder_ok_def)
  have tab: "coder_tables ?c" "rs_par_size ?c \<le> MAX_PAR" "length (rs_ee_pol ?c) = MAX_PAR + 1"
    using c(1) by (auto simp: coder_ok_def)
  have el: "holds (rs_el_pol ?c) (rs_par_size ?c) (loc_coeff (locators n es))"
    using c(2) by (simp add: locator_ok_def Let_def holds_def)
  have syn': "holds (rs_syn_data ?c) (rs_par_size ?c) S" using syn c by simp
  let ?ee = "pn_mult (rs_par_size ?c) (rs_gf_exp ?c) (rs_gf_log ?c) (rs_el_pol ?c) (rs_syn_data ?c) (rs_ee_pol ?c)"
  have ee: "length ?ee = MAX_PAR + 1"
      "holds ?ee (rs_par_size ?c) (\<lambda>m. \<Sum>i\<le>m. loc_coeff (locators n es) i * S (m - i))"
    using pn_mult_holds [OF tab(1) el syn', of "rs_ee_pol ?c"] tab by simp_all
  have r: "ready coder n es = ?c\<lparr>rs_ee_pol := ?ee\<rparr>" by (simp add: ready_def Let_def)
  show "coder_ok (ready coder n es)" unfolding r by (rule coder_ok_ee [OF c(1) ee(1)])
  show "locator_ok (ready coder n es) n es"
    unfolding r using c(2) locator_ok_cong [of "?c\<lparr>rs_ee_pol := ?ee\<rparr>" ?c] by simp
  show "rs_par_size (ready coder n es) = rs_par_size coder" unfolding r using c(3) by simp
  show "holds (rs_ee_pol (ready coder n es)) (rs_par_size coder)
       (\<lambda>m. \<Sum>i\<le>m. loc_coeff (locators n es) i * S (m - i))"
    unfolding r using ee(2) c(3) by simp
qed

definition decodable :: "rar3_rs_coder \<Rightarrow> nat \<Rightarrow> nat list \<Rightarrow> bool" where
  "decodable coder n es \<longleftrightarrow> 0 < n \<and> n \<le> MAX_PAR \<and> length es \<le> rs_par_size coder \<and> (\<forall>e\<in>set es. e < n)"

lemma decode_refuses:
  "\<not> decodable coder (length data) es \<Longrightarrow> decode coder data es = (False, data, coder)"
  by (auto simp: decode_def decodable_def list_ex_iff Let_def not_less)

lemma decode_unfold:
  assumes ok: "coder_ok coder" and dec: "decodable coder (length data) es"
  obtains syn where "length syn = MAX_PAR + 1"
    "holds syn (rs_par_size coder) (\<lambda>i. ev data (alpha ^ Suc i))"
    "decode coder data es =
      (let c = coder\<lparr>rs_syn_data := syn\<rparr>; r = ready c (length data) es
       in if \<forall>i<rs_par_size coder. ev data (alpha ^ Suc i) = 0 then (True, data, c)
          else (rs_err_count r \<le> rs_par_size r,
                if rs_err_count r \<le> rs_par_size r \<and> rs_err_count r > 0
                then fold (correct_step r (length data)) [0..<rs_err_count r] data else data, r))"
proof (rule syndromes_holds [OF ok, of data])
  fix syn
  assume syn: "syndromes coder data = (syn, \<forall>i<rs_par_size coder. ev data (alpha ^ Suc i) = 0)"
    "length syn = MAX_PAR + 1" "holds syn (rs_par_size coder) (\<lambda>i. ev data (alpha ^ Suc i))"
  have "\<not> (length data = 0 \<or> length data > MAX_PAR \<or> length es > rs_par_size coder
      \<or> list_ex (\<lambda>loc. loc \<ge> length data) es)"
    using dec by (auto simp: decodable_def list_ex_iff)
  then show ?thesis
    by (intro that [OF syn(2,3)]) (simp only: decode_def Let_def syn(1) prod.case if_False ready_def)
qed

lemma decode_keeps_coder:
  assumes ok: "coder_ok coder"
  shows "coder_ok (snd (snd (decode coder data es)))
    \<and> rs_par_size (snd (snd (decode coder data es))) = rs_par_size coder"
proof (cases "decodable coder (length data) es")
  case True
  obtain syn where syn: "length syn = MAX_PAR + 1"
    "holds syn (rs_par_size coder) (\<lambda>i. ev data (alpha ^ Suc i))"
    and dec: "decode coder data es =
      (let c = coder\<lparr>rs_syn_data := syn\<rparr>; r = ready c (length data) es
       in if \<forall>i<rs_par_size coder. ev data (alpha ^ Suc i) = 0 then (True, data, c)
          else (rs_err_count r \<le> rs_par_size r,
                if rs_err_count r \<le> rs_par_size r \<and> rs_err_count r > 0
                then fold (correct_step r (length data)) [0..<rs_err_count r] data else data, r))"
    by (rule decode_unfold [OF ok True])
  have c: "coder_ok (coder\<lparr>rs_syn_data := syn\<rparr>)" by (rule coder_ok_syn [OF ok syn(1)])
  have "length data \<le> MAX_PAR" "length es \<le> rs_par_size (coder\<lparr>rs_syn_data := syn\<rparr>)"
    using True by (simp_all add: decodable_def)
  from ready_ok(1,3) [OF c this, of "\<lambda>i. ev data (alpha ^ Suc i)"] c syn(2) show ?thesis
    unfolding dec Let_def by simp
qed (simp add: decode_refuses ok)


lemma locator_distinct:
  assumes "n \<le> MAX_PAR" "distinct es" "\<forall>e\<in>set es. e < n"
  shows "distinct (locators n es)" "inj_on (\<lambda>e. alpha ^ (n - 1 - e)) (set es)"
proof -
  show inj: "inj_on (\<lambda>e. alpha ^ (n - 1 - e)) (set es)"
  proof (rule inj_onI)
    fix a b
    assume "a \<in> set es" "b \<in> set es" and eq: "alpha ^ (n - 1 - a) = alpha ^ (n - 1 - b)"
    then have "a < n" "b < n" using assms(3) by auto
    moreover have "n - 1 - a = n - 1 - b"
      using alpha_inj [OF eq] assms(1) \<open>a < n\<close> \<open>b < n\<close> by (simp add: MAX_PAR_def)
    ultimately show "a = b" by linarith
  qed
  then show "distinct (locators n es)" using assms(2) by (simp add: locators_def distinct_map)
qed

text \<open>The roots at which the decoder corrects, by position.\<close>

lemma root_sum:
  assumes n: "n \<le> MAX_PAR" and es: "\<forall>e\<in>set es. e < n" and k: "k < n"
  shows "(\<Sum>root\<leftarrow>root_list (locators n es) n.
      if MAX_PAR - root < n \<and> n - 1 - (MAX_PAR - root) = k then q root else 0)
    = (if k \<in> set es then q (root_of n k) else (0 :: gf8))"
proof -
  let ?roots = "root_list (locators n es) n"
  have le: "root \<le> MAX_PAR" if "root \<in> set ?roots" for root
    using that by (auto simp: root_list_def simp del: upt_Suc)
  have "(\<Sum>root\<leftarrow>?roots. if MAX_PAR - root < n \<and> n - 1 - (MAX_PAR - root) = k then q root else 0)
      = (\<Sum>root\<in>set ?roots. if MAX_PAR - root < n \<and> n - 1 - (MAX_PAR - root) = k then q root else 0)"
    by (rule sum_list_distinct_conv_sum_set [OF root_list_distinct])
  also have "\<dots> = (\<Sum>root\<in>set ?roots. if root = root_of n k then q root else 0)"
    using root_of_position [OF k n] le by (intro sum.cong) auto
  also have "\<dots> = (if root_of n k \<in> set ?roots then q (root_of n k) else 0)"
    by (simp add: sum.delta)
  also have "root_of n k \<in> set ?roots \<longleftrightarrow> k \<in> set es"
  proof -
    have "root_of n k \<noteq> 0" using k n by (simp add: root_of_def MAX_PAR_def)
    then have "root_of n k \<in> set ?roots \<longleftrightarrow> root_of n k \<in> root_of n ` set es"
      using root_list_cases [OF n, of es "root_of n k"] es by auto
    then show ?thesis using root_of_inj [OF n] es k by (auto dest: inj_onD)
  qed
  finally show ?thesis .
qed

text \<open>For distinct erasures the decoder adds to every erased symbol a magnitude that depends on the
  syndromes, and changes nothing else, whatever the coder held before.\<close>

lemma decode_adds:
  assumes ok: "coder_ok coder" and dec: "decodable coder n es" and dist: "distinct es"
    and corner: "\<not> (n = MAX_PAR \<and> length es = rs_par_size coder \<and> n - 1 \<in> set es)"
    and data: "length data = n"
  shows "\<exists>out c'. decode coder data es = (True, out, c') \<and> length out = n
    \<and> (\<forall>k<n. Gf8 (out ! k) = Gf8 (data ! k) + (if k \<in> set es
         then magnitude (rs_par_size coder) (locators n es) (\<lambda>i. ev data (alpha ^ Suc i)) (root_of n k) else 0))"
proof -
  let ?S = "\<lambda>i. ev data (alpha ^ Suc i)" and ?p = "rs_par_size coder" and ?xs = "locators n es"
  have n: "n \<le> MAX_PAR" "length es \<le> ?p" "\<forall>e\<in>set es. e < n" using dec by (simp_all add: decodable_def)
  have dec': "decodable coder (length data) es" using dec data by simp
  obtain syn where syn: "length syn = MAX_PAR + 1" "holds syn ?p ?S"
    and eq0: "decode coder data es =
      (let c = coder\<lparr>rs_syn_data := syn\<rparr>; r = ready c (length data) es
       in if \<forall>i<?p. ?S i = 0 then (True, data, c)
          else (rs_err_count r \<le> rs_par_size r,
                if rs_err_count r \<le> rs_par_size r \<and> rs_err_count r > 0
                then fold (correct_step r (length data)) [0..<rs_err_count r] data else data, r))"
    by (rule decode_unfold [OF ok dec'])
  note eq = eq0 [unfolded data]
  define c where "c = coder\<lparr>rs_syn_data := syn\<rparr>"
  have c: "coder_ok c" "rs_par_size c = ?p" "holds (rs_syn_data c) (rs_par_size c) ?S"
    using coder_ok_syn [OF ok syn(1)] syn(2) by (simp_all add: c_def)
  define r where "r = ready c n es"
  have r: "coder_ok r" "locator_ok r n es" "rs_par_size r = ?p"
      "holds (rs_ee_pol r) (rs_par_size r) (\<lambda>m. \<Sum>i\<le>m. loc_coeff ?xs i * ?S (m - i))"
    using ready_ok [OF c(1) n(1) _ c(3), of es] n(2) c(2) by (simp_all add: r_def)
  have cnt: "rs_err_count r = length (root_list ?xs n)" "rs_err_count r \<le> ?p"
    using r(2) root_list_length [OF n(1), of es] n dist corner by (auto simp: locator_ok_def Let_def)
  show ?thesis
  proof (cases "\<forall>i<?p. ?S i = 0")
    case True
    then have "magnitude ?p ?xs ?S root = 0" for root
      unfolding magnitude_def by (simp add: sum.neutral)
    then show ?thesis using True data by (simp add: eq Let_def)
  next
    case False
    have den: "odd_part ?xs (rs_par_size r) (alpha ^ root) \<noteq> 0" if mem: "root \<in> set (root_list ?xs n)" for root
    proof -
      obtain e where e: "e \<in> set es" "alpha ^ (n - 1 - e) * alpha ^ root = 1"
        using mem by (auto simp: root_list_def loc_eval_zero set_locators simp del: upt_Suc)
      show ?thesis
        using forney(1) [of "set es" "\<lambda>e. alpha ^ (n - 1 - e)" ?xs ?p e "alpha ^ root"]
          locator_distinct [OF n(1) dist n(3)] n(2) e r(3) by (simp add: set_locators)
    qed
    have tab: "coder_tables r" using r(1) by (simp add: coder_ok_def)
    let ?out = "fold (correct_step r n) [0..<rs_err_count r] data"
    have out: "?out = fold (add_at n (magnitude ?p ?xs ?S)) (root_list ?xs n) data"
      using corrections [OF tab r(2,4) den n(1), of data] r(3) by simp
    have "decode coder data es = (True, ?out, r)"
      using False cnt(2) r(3) unfolding eq Let_def c_def [symmetric] r_def [symmetric] by auto
    then show ?thesis
      using fold_add_at [OF data, where q = "magnitude ?p ?xs ?S" and roots = "root_list ?xs n"] root_sum [OF n(1,3)]
      by (simp add: out)
  qed
qed


text \<open>Against a block that vanishes at the powers of the generator, the magnitudes are the errors.\<close>

lemma magnitude_is_error:
  assumes n: "n \<le> MAX_PAR" "\<forall>e\<in>set es. e < n" "distinct es" "length es \<le> p"
    and c: "length c = n" "\<And>i. 1 \<le> i \<Longrightarrow> i \<le> p \<Longrightarrow> ev c (alpha ^ i) = 0"
    and r: "length r = n" "\<And>k. k < n \<Longrightarrow> k \<notin> set es \<Longrightarrow> r ! k = c ! k" and k: "k \<in> set es"
  shows "magnitude p (locators n es) (\<lambda>i. ev r (alpha ^ Suc i)) (root_of n k)
    = Gf8 (r ! k) + Gf8 (c ! k)"
proof -
  let ?X = "\<lambda>e. alpha ^ (n - 1 - e)" and ?e = "\<lambda>k. Gf8 (r ! k) + Gf8 (c ! k)"
  let ?y = "alpha ^ root_of n k" and ?xs = "locators n es"
  have S: "ev r (alpha ^ Suc i) = (\<Sum>k\<in>set es. ?e k * ?X k ^ Suc i)" if "i < p" for i
  proof -
    have "ev r (alpha ^ Suc i) + ev c (alpha ^ Suc i)
        = (\<Sum>k\<in>set es. ?e k * (alpha ^ Suc i) ^ (length c - 1 - k))"
      using r c(1) n(2) by (intro ev_difference) auto
    moreover have "ev c (alpha ^ Suc i) = 0" using c(2) [of "Suc i"] that by simp
    moreover have "(alpha ^ Suc i) ^ (length c - 1 - k) = ?X k ^ Suc i" for k
      by (simp only: c(1) power_mult [symmetric] mult.commute)
    ultimately show ?thesis by simp
  qed
  have kn: "k < n" using n(2) k by auto
  have "(\<Sum>m<p. (\<Sum>i\<le>m. loc_coeff ?xs i * ev r (alpha ^ Suc (m - i))) * ?y ^ m)
      = (\<Sum>m<p. (\<Sum>i\<le>m. loc_coeff ?xs i * (\<Sum>k\<in>set es. ?e k * ?X k ^ Suc (m - i))) * ?y ^ m)"
    using S by (intro sum.cong [OF refl] arg_cong2 [of _ _ _ _ times] refl) auto
  also have "\<dots> = ?e k * odd_part ?xs p ?y"
    using locator_distinct [OF n(1,3,2)] n(4) k locator_inverse [OF kn n(1)]
    by (intro forney(2)) (auto simp: set_locators)
  finally have "magnitude p ?xs (\<lambda>i. ev r (alpha ^ Suc i)) (root_of n k)
      = ?e k * odd_part ?xs p ?y * inverse (odd_part ?xs p ?y)"
    by (simp only: magnitude_def)
  moreover have "odd_part ?xs p ?y \<noteq> 0"
    using locator_distinct [OF n(1,3,2)] n(4) k locator_inverse [OF kn n(1)]
    by (intro forney(1) [of "set es" ?X ?xs p k]) (auto simp: set_locators)
  ultimately show ?thesis by (simp add: mult.assoc)
qed

lemma decode_recovers:
  assumes ok: "coder_ok coder" and dec: "decodable coder n es" and dist: "distinct es"
    and corner: "\<not> (n = MAX_PAR \<and> length es = rs_par_size coder \<and> n - 1 \<in> set es)"
    and c: "length c = n" "\<And>i. 1 \<le> i \<Longrightarrow> i \<le> rs_par_size coder \<Longrightarrow> ev c (alpha ^ i) = 0"
    and r: "length r = n" "\<And>k. k < n \<Longrightarrow> k \<notin> set es \<Longrightarrow> r ! k = c ! k"
  shows "\<exists>c'. decode coder r es = (True, c, c')"
proof -
  have n: "n \<le> MAX_PAR" "\<forall>e\<in>set es. e < n" "length es \<le> rs_par_size coder"
    using dec by (simp_all add: decodable_def)
  obtain out c' where out: "decode coder r es = (True, out, c')" "length out = n"
      "\<And>k. k < n \<Longrightarrow> Gf8 (out ! k) = Gf8 (r ! k) + (if k \<in> set es
         then magnitude (rs_par_size coder) (locators n es) (\<lambda>i. ev r (alpha ^ Suc i)) (root_of n k) else 0)"
    using decode_adds [OF ok dec dist corner r(1)] by blast
  have "out ! k = c ! k" if "k < n" for k
  proof (cases "k \<in> set es")
    case True
    have "Gf8 (out ! k) = Gf8 (r ! k) + (Gf8 (r ! k) + Gf8 (c ! k))"
      using out(3) [OF that] True magnitude_is_error [OF n(1,2) dist n(3) c r True] by simp
    then show ?thesis by simp
  next
    case False
    then show ?thesis using out(3) [OF that] r(2) [OF that] by simp
  qed
  then have "out = c" using out(2) c(1) by (intro nth_equalityI) auto
  then show ?thesis using out(1) by blast
qed

end
