(* ===== verification/Rar3_Rs_Props.thy ===== *)
theory Rar3_Rs_Props
  imports Rar3_Decoder
begin

text \<open>
  What the RAR 3 erasure coder promises to the recovery of volume sets: it
  restores the erased symbols of every block, in whatever order blocks of
  different lengths and erasures come, and its decode matrix computes what the
  decoder computes. The block length at which the first promise has an
  exception is 255, the longest the coder accepts.
\<close>

text \<open>The coder after it has decoded some blocks, good or bad.\<close>

definition after_blocks :: "rar3_rs_coder \<Rightarrow> (bytes \<times> nat list) list \<Rightarrow> rar3_rs_coder" where
  "after_blocks coder history = fold (\<lambda>(data, es) coder. snd (snd (decode coder data es))) history coder"

lemma after_blocks_ok:
  "coder_ok coder \<Longrightarrow>
     coder_ok (after_blocks coder history) \<and> rs_par_size (after_blocks coder history) = rs_par_size coder"
  unfolding after_blocks_def
proof (induction history arbitrary: coder)
  case (Cons h history)
  obtain data es where h: "h = (data, es)" by fastforce
  show ?case using Cons.IH [of "snd (snd (decode coder data es))"] decode_keeps_coder [OF Cons.prems, of data es]
    by (simp add: h)
qed simp

section \<open>The longest block\<close>

lemma decode_longest_fails:
  assumes ok: "coder_ok coder" and dec: "decodable coder n es" and dist: "distinct es"
    and corner: "n = MAX_PAR" "length es = rs_par_size coder" "n - 1 \<in> set es"
    and c: "length c = n" "\<And>i. 1 \<le> i \<Longrightarrow> i \<le> rs_par_size coder \<Longrightarrow> ev c (alpha ^ i) = 0"
    and r: "length r = n" "\<And>k. k < n \<Longrightarrow> k \<notin> set es \<Longrightarrow> r ! k = c ! k" and ne: "r \<noteq> c"
  shows "\<exists>c'. decode coder r es = (False, r, c')"
proof -
  let ?S = "\<lambda>i. ev r (alpha ^ Suc i)" and ?p = "rs_par_size coder" and ?xs = "locators n es"
  have n: "n \<le> MAX_PAR" "length es \<le> ?p" "\<forall>e\<in>set es. e < n" using dec by (simp_all add: decodable_def)
  have some: "\<not> (\<forall>i<?p. ?S i = 0)"
  proof
    assume "\<forall>i<?p. ?S i = 0"
    then have zero: "magnitude ?p ?xs ?S root = 0" for root
      unfolding magnitude_def by (simp add: sum.neutral)
    have "r ! k = c ! k" if "k < n" for k
    proof (cases "k \<in> set es")
      case True
      have "Gf8 (r ! k) + Gf8 (c ! k) = 0"
        using magnitude_is_error [OF n(1,3) dist n(2) c r True] zero by simp
      then show ?thesis by (simp add: gf8_add_eq_0)
    qed (use r that in auto)
    then show False using ne r(1) c(1) by (metis nth_equalityI)
  qed
  have dec': "decodable coder (length r) es" using dec r(1) by simp
  obtain syn where syn: "length syn = MAX_PAR + 1" "holds syn ?p ?S"
    and eq: "decode coder r es =
      (let d = coder\<lparr>rs_syn_data := syn\<rparr>; e = ready d (length r) es
       in if \<forall>i<?p. ?S i = 0 then (True, r, d)
          else (rs_err_count e \<le> rs_par_size e,
                if rs_err_count e \<le> rs_par_size e \<and> rs_err_count e > 0
                then fold (correct_step e (length r)) [0..<rs_err_count e] r else r, e))"
    by (rule decode_unfold [OF ok dec'])
  define d where "d = coder\<lparr>rs_syn_data := syn\<rparr>"
  have d: "coder_ok d" "rs_par_size d = ?p" "holds (rs_syn_data d) (rs_par_size d) ?S"
    using coder_ok_syn [OF ok syn(1)] syn(2) by (simp_all add: d_def)
  define e where "e = ready d n es"
  have e: "locator_ok e n es" "rs_par_size e = ?p"
    using ready_ok(2,3) [OF d(1) n(1) _ d(3), of es] n(2) d(2) by (simp_all add: e_def)
  have "rs_err_count e = length (root_list ?xs n)" using e(1) by (simp add: locator_ok_def Let_def)
  also have "\<dots> = ?p + 1" using root_list_length [OF n(1), of es] n(3) dist corner by simp
  finally have "\<not> rs_err_count e \<le> rs_par_size e" using e(2) by simp
  then show ?thesis
    using some unfolding eq Let_def r(1) d_def [symmetric] e_def [symmetric] by auto
qed

section \<open>The decode matrix\<close>

definition unit_block :: "nat \<Rightarrow> nat \<Rightarrow> bytes" where
  "unit_block n j = (replicate n 0)[j := 1]"

lemma ev_unit: "j < n \<Longrightarrow> ev (unit_block n j) x = x ^ (n - 1 - j)"
proof -
  assume j: "j < n"
  have "ev (unit_block n j) x = (\<Sum>k\<in>{j}. Gf8 (unit_block n j ! k) * x ^ (n - 1 - k))"
    unfolding ev_def using j
    by (intro sum.mono_neutral_cong_right) (auto simp: unit_block_def nth_list_update simp flip: zero_gf8_def)
  then show ?thesis using j by (simp add: unit_block_def flip: one_gf8_def)
qed

lemma ev_units: "length b = n \<Longrightarrow> ev b x = (\<Sum>j<n. Gf8 (b ! j) * ev (unit_block n j) x)"
  by (simp add: ev_unit ev_def [of b])

lemma magnitude_linear:
  assumes "\<And>i. S i = (\<Sum>j<n. a j * T j i)"
  shows "magnitude p xs S root = (\<Sum>j<n. a j * magnitude p xs (T j) root)"
proof -
  let ?y = "alpha ^ root" and ?o = "inverse (odd_part xs p (alpha ^ root))"
  define W where "W j m = (\<Sum>i\<le>m. loc_coeff xs i * T j (m - i))" for j m
  have "(\<Sum>i\<le>m. loc_coeff xs i * S (m - i)) = (\<Sum>j<n. a j * W j m)" for m
    unfolding assms W_def sum_distrib_left
    by (subst sum.swap) (simp add: mult.left_commute)
  then have "magnitude p xs S root = (\<Sum>m<p. \<Sum>j<n. a j * W j m * ?y ^ m) * ?o"
    by (simp only: magnitude_def sum_distrib_right)
  also have "\<dots> = (\<Sum>j<n. \<Sum>m<p. a j * W j m * ?y ^ m) * ?o"
    by (subst sum.swap) (rule refl)
  also have "\<dots> = (\<Sum>j<n. a j * ((\<Sum>m<p. W j m * ?y ^ m) * ?o))"
    by (simp add: sum_distrib_right sum_distrib_left mult.assoc)
  finally show ?thesis by (simp only: magnitude_def W_def)
qed

lemma cell_unique: "j < n \<Longrightarrow> k < n \<Longrightarrow> a * n + j = b * n + k \<longleftrightarrow> a = b \<and> j = (k :: nat)"
proof
  assume lt: "j < n" "k < n" and eq: "a * n + j = b * n + k"
  have "(a * n + j) div n = a" "(b * n + k) div n = b" using lt by simp_all
  then show "a = b \<and> j = k" using eq by simp
qed simp

lemma enumerate_updates:
  assumes column: "column < n"
  shows "length es * n \<le> length m \<Longrightarrow>
    length (fold (\<lambda>(row, era) m. m[row * n + column := block ! era]) (enumerate 0 es) m) = length m
    \<and> (\<forall>row. \<forall>j<n. row * n + j < length m \<longrightarrow>
        fold (\<lambda>(row, era) m. m[row * n + column := block ! era]) (enumerate 0 es) m ! (row * n + j)
          = (if row < length es \<and> j = column then block ! (es ! row) else m ! (row * n + j)))"
proof (induction es rule: rev_induct)
  case (snoc e es)
  let ?f = "\<lambda>(row, era) m. m[row * n + column := block ! era]"
  let ?g = "fold ?f (enumerate 0 es) m"
  have IH: "length ?g = length m"
      "\<And>row j. j < n \<Longrightarrow> row * n + j < length m \<Longrightarrow>
         ?g ! (row * n + j) = (if row < length es \<and> j = column then block ! (es ! row) else m ! (row * n + j))"
    using snoc by auto
  have eq: "fold ?f (enumerate 0 (es @ [e])) m = ?g[length es * n + column := block ! e]"
    by (simp add: enumerate_append_eq)
  have "?g[length es * n + column := block ! e] ! (row * n + j)
      = (if row < Suc (length es) \<and> j = column then block ! ((es @ [e]) ! row) else m ! (row * n + j))"
    if "j < n" "row * n + j < length m" for row j
    using IH(1) IH(2) [OF that] that cell_unique [OF that(1) column, of row "length es"]
    by (cases "row = length es \<and> j = column") (auto simp: nth_append nth_list_update less_Suc_eq)
  then show ?case unfolding eq by (simp add: IH(1))
qed simp

text \<open>The matrix entries are the decoder's answers to the unit blocks.\<close>

lemma decode_matrix_entries:
  assumes ok: "coder_ok coder" and dec: "decodable coder n es" and dist: "distinct es"
    and corner: "\<not> (n = MAX_PAR \<and> length es = rs_par_size coder \<and> n - 1 \<in> set es)"
  shows "\<exists>m. decode_matrix coder n es = Some m \<and> length m = length es * n
    \<and> (\<forall>row<length es. \<forall>j<n. Gf8 (m ! (row * n + j)) = Gf8 (unit_block n j ! (es ! row))
        + magnitude (rs_par_size coder) (locators n es)
            (\<lambda>i. ev (unit_block n j) (alpha ^ Suc i)) (root_of n (es ! row)))"
proof -
  let ?p = "rs_par_size coder"
  let ?entry = "\<lambda>row j. Gf8 (unit_block n j ! (es ! row)) + magnitude ?p (locators n es)
            (\<lambda>i. ev (unit_block n j) (alpha ^ Suc i)) (root_of n (es ! row))"
  let ?fold = "\<lambda>cols. fold (\<lambda>column st. Option.bind st (matrix_column n es column)) [0..<cols]
           (Some (coder\<lparr>rs_first_block_done := False\<rparr>, replicate (length es * n) 0))"
  have n: "0 < n" "n \<le> MAX_PAR" "\<forall>e\<in>set es. e < n" using dec by (simp_all add: decodable_def)
  have "\<exists>c m. ?fold cols = Some (c, m) \<and> coder_ok c \<and> rs_par_size c = ?p \<and> length m = length es * n
      \<and> (\<forall>row<length es. \<forall>j<cols. Gf8 (m ! (row * n + j)) = ?entry row j)" if "cols \<le> n" for cols
    using that
  proof (induction cols)
    case 0
    then show ?case using ok by (simp add: coder_ok_def gx_ok_def)
  next
    case (Suc col)
    then obtain c m where IH: "?fold col = Some (c, m)" "coder_ok c" "rs_par_size c = ?p"
        "length m = length es * n" "\<And>row j. row < length es \<Longrightarrow> j < col \<Longrightarrow> Gf8 (m ! (row * n + j)) = ?entry row j"
      by auto
    have col: "col < n" using Suc.prems by simp
    have decc: "decodable c n es" using dec IH(3) by (simp add: decodable_def)
    have len: "length (unit_block n col) = n" by (simp add: unit_block_def)
    obtain out c' where out: "decode c (unit_block n col) es = (True, out, c')" "length out = n"
        "\<And>k. k < n \<Longrightarrow> Gf8 (out ! k) = Gf8 (unit_block n col ! k) + (if k \<in> set es
           then magnitude ?p (locators n es) (\<lambda>i. ev (unit_block n col) (alpha ^ Suc i)) (root_of n k) else 0)"
      using decode_adds [OF IH(2) decc dist _ len] corner IH(3) by auto
    have c': "coder_ok c'" "rs_par_size c' = ?p"
      using decode_keeps_coder [OF IH(2), of "unit_block n col" es] out(1) IH(3) by auto
    have plain: "out ! k = (if k = col then 1 else 0)" if "k < n" "k \<notin> set es" for k
      using out(3) [OF that(1)] that col by (simp add: unit_block_def nth_list_update)
    let ?m = "fold (\<lambda>(row, era) m. m[row * n + col := out ! era]) (enumerate 0 es) m"
    have "\<not> list_ex (\<lambda>pos. pos \<notin> set es \<and> out ! pos \<noteq> (if pos = col then 1 else 0)) [0..<n]"
      unfolding list_ex_iff set_upt using plain by (meson atLeastLessThan_iff)
    then have "matrix_column n es col (c, m) = Some (c', ?m)"
      using out(1) unfolding matrix_column_def unit_block_def by simp
    then have "?fold (Suc col) = Some (c', ?m)" using IH(1) by simp
    moreover have upd: "length ?m = length m" "\<And>row j. j < n \<Longrightarrow> row < length es \<Longrightarrow>
        ?m ! (row * n + j) = (if j = col then out ! (es ! row) else m ! (row * n + j))"
    proof -
      have "length es * n \<le> length m" using IH(4) by simp
      note u = enumerate_updates [OF col this, of out]
      show "length ?m = length m" using u by blast
      fix row j
      assume "j < n" "row < length es"
      moreover from this have "Suc row * n \<le> length es * n" by (intro mult_le_mono1) simp
      ultimately have "row * n + j < length m" using IH(4) by simp
      then show "?m ! (row * n + j) = (if j = col then out ! (es ! row) else m ! (row * n + j))"
        using u \<open>j < n\<close> \<open>row < length es\<close> by auto
    qed
    moreover have "Gf8 (?m ! (row * n + j)) = ?entry row j" if "row < length es" "j < Suc col" for row j
      using upd(2) [of j row] that col IH(5) [of row j] out(3) [of "es ! row"] n(3)
      by (cases "j = col") auto
    ultimately show ?case using c' IH(4) by (intro exI [of _ c'] exI [of _ ?m]) simp
  qed
  from this [OF order_refl] n show ?thesis by (auto simp: decode_matrix_def)
qed


section \<open>Properties\<close>

lemma new_coder_exists: "0 < p \<Longrightarrow> p \<le> MAX_PAR \<Longrightarrow> \<exists>coder. new_coder p = Some coder"
proof -
  assume p: "0 < p" "p \<le> MAX_PAR"
  obtain ex lg where init: "gf_init = (ex, lg)" by fastforce
  show ?thesis using p unfolding new_coder_def init by auto
qed

lemma block_decodable:
  assumes "coder_ok coder" "rs_par_size coder = p" "encode coder data p = Some parity"
    "length data + p \<le> MAX_PAR" "length es \<le> p" "\<forall>e\<in>set es. e < length data + p"
  shows "decodable (after_blocks coder history) (length data + p) es"
    "coder_ok (after_blocks coder history)" "length (data @ parity) = length data + p"
    "1 \<le> i \<Longrightarrow> i \<le> rs_par_size (after_blocks coder history) \<Longrightarrow> ev (data @ parity) (alpha ^ i) = 0"
proof -
  have "0 < p" using assms(1,2) by (auto simp: coder_ok_def)
  note after = after_blocks_ok [OF assms(1), of history]
  show "decodable (after_blocks coder history) (length data + p) es"
    using assms(2,4-) after \<open>0 < p\<close> by (simp add: decodable_def)
  show "coder_ok (after_blocks coder history)" using after by blast
  have enc: "encode coder data (rs_par_size coder) = Some parity" using assms(2,3) by simp
  show "length (data @ parity) = length data + p"
    using encode_codeword(1) [OF assms(1) enc] assms(2) by simp
  show "1 \<le> i \<Longrightarrow> i \<le> rs_par_size (after_blocks coder history) \<Longrightarrow> ev (data @ parity) (alpha ^ i) = 0"
    using encode_codeword(2) [OF assms(1) enc] after by simp
qed

text \<open>C3: Erasure recovery. A block of data and the parity the encoder wrote for it, damaged in
  any way at up to as many known positions as there are parity symbols, is restored by the decoder,
  whatever blocks the same coder has decoded before. The one exception is a block of the full length
  255 in which as many symbols as the parity has are erased and the last is one of them.\<close>

theorem rar3_recovers_erasures:
  assumes "new_coder p = Some coder" and "encode coder data p = Some parity"
    and "length data + p \<le> MAX_PAR" and "distinct erasures" and "length erasures \<le> p"
    and "\<forall>e\<in>set erasures. e < length data + p"
    and "\<not> (length data + p = MAX_PAR \<and> length erasures = p \<and> length data + p - 1 \<in> set erasures)"
    and "length received = length data + p"
    and "\<forall>k < length data + p. k \<notin> set erasures \<longrightarrow> received ! k = (data @ parity) ! k"
  shows "\<exists>coder'. decode (after_blocks coder history) received erasures = (True, data @ parity, coder')"
proof -
  have c: "coder_ok coder" "rs_par_size coder = p" using new_coder_ok [OF assms(1)] by blast+
  note b = block_decodable [OF c assms(2,3,5,6)]
  have "rs_par_size (after_blocks coder history) = p" using after_blocks_ok [OF c(1)] c(2) by simp
  then show ?thesis using assms(4,7,8,9) by (intro decode_recovers [OF b(2,1)] b(3,4)) auto
qed

theorem rar3_recovers_erasures_witness:
  "\<exists>coder parity coder'. new_coder 2 = Some coder \<and> encode coder [1, 2, 3] 2 = Some parity
     \<and> decode coder ([1, 0, 7] @ parity) [1, 2] = (True, [1, 2, 3] @ parity, coder')"
proof -
  obtain coder where new: "new_coder 2 = Some coder"
    using new_coder_exists [of 2] by (auto simp: MAX_PAR_def)
  have "rs_par_size coder = 2" using new_coder_ok [OF new] by simp
  then obtain parity where enc: "encode coder [1, 2, 3] 2 = Some parity" "length parity = 2"
    by (simp add: encode_def Let_def)
  have same: "([1, 0, 7] @ parity) ! k = ([1, 2, 3] @ parity) ! k" if "k < 5" "k \<notin> {1, 2}" for k
    using that by (auto simp: nth_append nth_Cons' less_Suc_eq numeral_eq_Suc)
  have "\<exists>coder'. decode (after_blocks coder []) ([1, 0, 7] @ parity) [1, 2] = (True, [1, 2, 3] @ parity, coder')"
    by (rule rar3_recovers_erasures [OF new enc(1)]) (use enc(2) same in \<open>auto simp: MAX_PAR_def\<close>)
  then show ?thesis using new enc(1) by (auto simp: after_blocks_def)
qed

text \<open>C30: At the full length of 255 symbols the decoder refuses a damaged block it has enough parity
  for: as many erasures as parity symbols, with the last symbol among them, count as one more.\<close>

theorem rar3_longest_block_refused:
  assumes "new_coder p = Some coder" and "encode coder data p = Some parity"
    and "length data + p = 255" and "distinct erasures" and "length erasures = p"
    and "\<forall>e\<in>set erasures. e < 255" and "254 \<in> set erasures"
    and "length received = 255" and "received \<noteq> data @ parity"
    and "\<forall>k<255. k \<notin> set erasures \<longrightarrow> received ! k = (data @ parity) ! k"
  shows "\<exists>coder'. decode (after_blocks coder history) received erasures = (False, received, coder')"
proof -
  have c: "coder_ok coder" "rs_par_size coder = p" using new_coder_ok [OF assms(1)] by blast+
  have len: "length data + p \<le> MAX_PAR" "length data + p = MAX_PAR" using assms(3) by (simp_all add: MAX_PAR_def)
  have es: "length erasures \<le> p" "\<forall>e\<in>set erasures. e < length data + p" using assms by auto
  note b = block_decodable [OF c assms(2) len(1) es]
  have p: "rs_par_size (after_blocks coder history) = p" using after_blocks_ok [OF c(1)] c(2) by simp
  show ?thesis
  proof (rule decode_longest_fails [OF b(2,1) assms(4) len(2)])
    show "length (data @ parity) = length data + p" by (rule b(3))
    show "ev (data @ parity) (alpha ^ i) = 0"
      if "1 \<le> i" "i \<le> rs_par_size (after_blocks coder history)" for i
      using b(4) that by blast
  qed (use assms p in simp_all)
qed

theorem rar3_longest_block_refused_witness:
  "\<exists>coder parity coder' x. new_coder 1 = Some coder \<and> encode coder (replicate 254 7) 1 = Some parity
     \<and> decode coder (replicate 254 7 @ [x]) [254] = (False, replicate 254 7 @ [x], coder')"
proof -
  obtain coder where new: "new_coder 1 = Some coder"
    using new_coder_exists [of 1] by (auto simp: MAX_PAR_def)
  have "rs_par_size coder = 1" using new_coder_ok [OF new] by simp
  then obtain y where enc: "encode coder (replicate 254 7) 1 = Some [y]"
    by (simp add: encode_def Let_def)
  have "\<exists>coder'. decode (after_blocks coder []) (replicate 254 7 @ [y + 1]) [254]
      = (False, replicate 254 7 @ [y + 1], coder')"
  proof (rule rar3_longest_block_refused [OF new enc])
    show "replicate 254 7 @ [y + 1] \<noteq> replicate 254 7 @ [y]" by simp
    show "\<forall>k<255. k \<notin> set [254] \<longrightarrow> (replicate 254 7 @ [y + 1]) ! k = (replicate 254 7 @ [y]) ! k"
      by (auto simp: nth_append)
  qed simp_all
  then show ?thesis using new enc by (auto simp: after_blocks_def)
qed

text \<open>C18: The decode matrix is the decoder. Where the decoder works, the matrix exists, and for
  every block, damaged codeword or not, the symbol the decoder writes at an erased position is the
  matrix row of that position times the block in the field.\<close>

theorem rar3_decode_matrix_exact:
  assumes "new_coder p = Some coder" and "0 < total_len" and "total_len \<le> MAX_PAR"
    and "distinct erasures" and "length erasures \<le> p" and "\<forall>e\<in>set erasures. e < total_len"
    and "\<not> (total_len = MAX_PAR \<and> length erasures = p \<and> total_len - 1 \<in> set erasures)"
    and "length block = total_len"
  shows "\<exists>matrix out coder'. decode_matrix coder total_len erasures = Some matrix
    \<and> decode (after_blocks coder history) block erasures = (True, out, coder')
    \<and> (\<forall>row < length erasures. Gf8 (out ! (erasures ! row)) =
         (\<Sum>j<total_len. Gf8 (matrix ! (row * total_len + j)) * Gf8 (block ! j)))"
proof -
  let ?c = "after_blocks coder history" and ?xs = "locators total_len erasures"
  have c: "coder_ok coder" "rs_par_size coder = p" using new_coder_ok [OF assms(1)] by blast+
  have h: "coder_ok ?c" "rs_par_size ?c = p" using after_blocks_ok [OF c(1)] c(2) by auto
  have dec: "decodable coder total_len erasures" "decodable ?c total_len erasures"
    using assms c(2) h(2) by (simp_all add: decodable_def)
  obtain m where m: "decode_matrix coder total_len erasures = Some m"
      "\<And>row j. row < length erasures \<Longrightarrow> j < total_len \<Longrightarrow>
        Gf8 (m ! (row * total_len + j)) = Gf8 (unit_block total_len j ! (erasures ! row))
          + magnitude p ?xs (\<lambda>i. ev (unit_block total_len j) (alpha ^ Suc i)) (root_of total_len (erasures ! row))"
    using decode_matrix_entries [OF c(1) dec(1) assms(4)] assms(7) c(2) by auto
  obtain out c' where out: "decode ?c block erasures = (True, out, c')"
      "\<And>k. k < total_len \<Longrightarrow> k \<in> set erasures \<Longrightarrow> Gf8 (out ! k) = Gf8 (block ! k)
        + magnitude p ?xs (\<lambda>i. ev block (alpha ^ Suc i)) (root_of total_len k)"
    using decode_adds [OF h(1) dec(2) assms(4) _ assms(8)] assms(7) h(2) by auto
  have "Gf8 (out ! (erasures ! row)) = (\<Sum>j<total_len. Gf8 (m ! (row * total_len + j)) * Gf8 (block ! j))"
    if row: "row < length erasures" for row
  proof -
    let ?k = "erasures ! row" and ?u = "\<lambda>j. unit_block total_len j"
    have k: "?k < total_len" "?k \<in> set erasures" using row assms(6) by auto
    have mag: "magnitude p ?xs (\<lambda>i. ev block (alpha ^ Suc i)) (root_of total_len ?k)
        = (\<Sum>j<total_len. Gf8 (block ! j) * magnitude p ?xs (\<lambda>i. ev (?u j) (alpha ^ Suc i)) (root_of total_len ?k))"
      by (rule magnitude_linear) (rule ev_units [OF assms(8)])
    have "(\<Sum>j<total_len. Gf8 (block ! j) * Gf8 (?u j ! ?k)) = (\<Sum>j\<in>{?k}. Gf8 (block ! j) * Gf8 (?u j ! ?k))"
      using k(1) by (intro sum.mono_neutral_right) (auto simp: unit_block_def nth_list_update simp flip: zero_gf8_def)
    then have "Gf8 (block ! ?k) = (\<Sum>j<total_len. Gf8 (block ! j) * Gf8 (?u j ! ?k))"
      using k(1) by (simp add: unit_block_def flip: one_gf8_def)
    then have "Gf8 (out ! ?k) = (\<Sum>j<total_len. Gf8 (block ! j) * Gf8 (m ! (row * total_len + j)))"
      using out(2) [OF k] mag m(2) [OF row] by (simp add: distrib_left sum.distrib)
    then show ?thesis by (simp only: mult.commute)
  qed
  then show ?thesis using m(1) out(1) by blast
qed

theorem rar3_decode_matrix_exact_witness:
  "\<exists>coder matrix out coder'. new_coder 2 = Some coder \<and> decode_matrix coder 5 [0, 3] = Some matrix
     \<and> decode coder [9, 8, 7, 6, 5] [0, 3] = (True, out, coder')
     \<and> Gf8 (out ! 3) = (\<Sum>j<5. Gf8 (matrix ! (5 + j)) * Gf8 ([9, 8, 7, 6, 5] ! j))"
proof -
  obtain coder where new: "new_coder 2 = Some coder"
    using new_coder_exists [of 2] by (auto simp: MAX_PAR_def)
  have "\<exists>matrix out coder'. decode_matrix coder 5 [0, 3] = Some matrix
    \<and> decode (after_blocks coder []) [9, 8, 7, 6, 5] [0, 3] = (True, out, coder')
    \<and> (\<forall>row < length [0, 3 :: nat]. Gf8 (out ! ([0, 3] ! row)) =
         (\<Sum>j<5. Gf8 (matrix ! (row * 5 + j)) * Gf8 ([9, 8, 7, 6, 5] ! j)))"
    by (rule rar3_decode_matrix_exact [OF new]) (simp_all add: MAX_PAR_def)
  then obtain matrix out coder' where "decode_matrix coder 5 [0, 3] = Some matrix"
      "decode coder [9, 8, 7, 6, 5] [0, 3] = (True, out, coder')"
      "\<And>row. row < 2 \<Longrightarrow> Gf8 (out ! ([0, 3] ! row)) =
         (\<Sum>j<5. Gf8 (matrix ! (row * 5 + j)) * Gf8 ([9, 8, 7, 6, 5] ! j))"
    by (auto simp: after_blocks_def)
  from this(1,2) this(3) [of 1] show ?thesis using new by auto
qed

end
