(* ===== verification/Utf8_Strict.thy ===== *)
theory Utf8_Strict
  imports Rar5_Fields Rar5_Kdf
begin

text \<open>
  The UTF-8 encoding of a Rust string and its strict decoder: \<open>str::as_bytes\<close> and
  \<open>str::from_utf8\<close> are inverse on the Unicode scalar values, and only the
  character NUL has a zero byte in its encoding.
\<close>

text \<open>The Unicode scalar values, which are the characters of a Rust string.\<close>

definition is_scalar :: "u32 \<Rightarrow> bool" where
  "is_scalar s \<longleftrightarrow> s < 0xD800 \<or> (0xE000 \<le> s \<and> s \<le> 0x10FFFF)"

lemma or_take_bit_add:
  fixes m t :: u32
  assumes "take_bit k m = 0"
  shows "m OR take_bit k t = m + take_bit k t"
proof (rule disjunctive_add_eq_or [symmetric])
  have "\<not> (n < k \<and> bit m n)" for n
    using arg_cong [OF assms, of "\<lambda>w. bit w n"] by (simp add: bit_take_bit_iff)
  then show "m AND take_bit k t = 0"
    by (intro bit_word_eqI) (auto simp: bit_simps)
qed

lemma unat_or_take_bit:
  fixes m t :: u32
  assumes "take_bit k m = 0" "unat m + 2 ^ k \<le> 256"
  shows "unat (ucast (m OR take_bit k t) :: u8) = unat m + unat t mod 2 ^ k"
proof -
  have tb: "unat (take_bit k t) = unat t mod 2 ^ k"
    by (subst unsigned_take_bit_eq) (rule take_bit_eq_mod)
  have less: "unat m + unat t mod 2 ^ k < 256"
  proof -
    have "unat t mod 2 ^ k < 2 ^ k" by simp
    then show ?thesis using assms(2) by linarith
  qed
  then have "unat (m + take_bit k t) = unat m + unat t mod 2 ^ k"
    using unat_plus_no_overflow [of m "take_bit k t"] by (simp only: tb) simp
  then show ?thesis using less
    by (simp add: or_take_bit_add [OF assms(1)] unsigned_ucast_eq take_bit_nat_eq_self)
qed

lemma unat_lead:
  "unat (ucast (0xC0 OR take_bit 5 t :: u32) :: u8) = 192 + unat t mod 32"
  "unat (ucast (0xE0 OR take_bit 4 t :: u32) :: u8) = 224 + unat t mod 16"
  "unat (ucast (0xF0 OR take_bit 3 t :: u32) :: u8) = 240 + unat t mod 8"
  "unat (ucast (0x80 OR take_bit 6 t :: u32) :: u8) = 128 + unat t mod 64"
  using unat_or_take_bit [of 5 "0xC0" t] unat_or_take_bit [of 4 "0xE0" t]
    unat_or_take_bit [of 3 "0xF0" t] unat_or_take_bit [of 6 "0x80" t] by simp_all

lemma unat_drop_bit_u32:
  "unat (drop_bit 6 (s :: u32)) = unat s div 64" "unat (drop_bit 12 s) = unat s div 4096"
  "unat (drop_bit 18 s) = unat s div 262144"
  by (simp_all add: drop_bit_eq_div unat_div)

lemma cont_byte:
  fixes s :: u32
  shows "is_cont (ucast (0x80 OR take_bit 6 s))" "cont_bits (ucast (0x80 OR take_bit 6 s)) = take_bit 6 s"
proof -
  have "n < 8 \<Longrightarrow> bit (ucast (0x80 OR take_bit 6 s) AND 0xC0 :: u8) n = bit (0x80 :: u8) n" for n
    by (auto simp: bit_simps less_8_cases bit_numeral_rec)
  then show "is_cont (ucast (0x80 OR take_bit 6 s))"
    unfolding is_cont_def by (intro bit_word_eqI) simp
  show "cont_bits (ucast (0x80 OR take_bit 6 s)) = take_bit 6 s"
    unfolding cont_bits_def
  proof (rule bit_word_eqI)
    fix n assume "n < LENGTH(32)"
    show "bit (ucast (ucast (0x80 OR take_bit 6 s) AND 0x3F :: u8) :: u32) n = bit (take_bit 6 s) n"
      by (cases "n < 8") (auto simp: bit_simps less_8_cases bit_numeral_rec)
  qed
qed

lemma second_ok_3:
  fixes n :: nat
  assumes "0x7FF < n" "n \<le> 0xFFFF" "n < 0xD800 \<or> 0xE000 \<le> n"
  shows "n div 4096 mod 16 = 0 \<Longrightarrow> 32 \<le> n div 64 mod 64" "n div 4096 mod 16 = 13 \<Longrightarrow> n div 64 mod 64 \<le> 31"
    "n div 64 mod 64 \<le> 63"
proof -
  define q where "q = n div 64"
  have q: "n div 4096 = q div 64" by (simp add: q_def div_mult2_eq [symmetric])
  have "n div 4096 < 16" using assms(2) by (simp add: div_less_iff_less_mult)
  then have m: "n div 4096 mod 16 = q div 64" by (simp add: q)
  have low: "32 \<le> q" and high: "q < 864 \<or> 896 \<le> q" using assms unfolding q_def by arith+
  show "n div 64 mod 64 \<le> 63" using mod_less_divisor [of 64 "n div 64"] by linarith
  have split: "q = q div 64 * 64 + q mod 64" by simp
  show "32 \<le> n div 64 mod 64" if "n div 4096 mod 16 = 0"
    using split low that unfolding m q_def [symmetric] by linarith
  have "q mod 64 < 64" by simp
  then show "n div 64 mod 64 \<le> 31" if "n div 4096 mod 16 = 13"
    using split high that unfolding m q_def [symmetric] by linarith
qed

lemma second_ok_4:
  fixes n :: nat
  assumes "0xFFFF < n" "n \<le> 0x10FFFF"
  shows "n div 262144 mod 8 = 0 \<Longrightarrow> 16 \<le> n div 4096 mod 64" "n div 262144 mod 8 = 4 \<Longrightarrow> n div 4096 mod 64 \<le> 15"
    "n div 4096 mod 64 \<le> 63" "n div 262144 mod 8 \<le> 4"
proof -
  define q where "q = n div 4096"
  have q: "n div 262144 = q div 64" by (simp add: q_def div_mult2_eq [symmetric])
  have low: "16 \<le> q" and high: "q < 272" using assms unfolding q_def by arith+
  have "q div 64 < 5" using high by (simp add: div_less_iff_less_mult)
  then have m: "n div 262144 mod 8 = q div 64" "q div 64 \<le> 4" by (simp_all add: q)
  then show "n div 262144 mod 8 \<le> 4" by simp
  show "n div 4096 mod 64 \<le> 63" using mod_less_divisor [of 64 "n div 4096"] by linarith
  have split: "q = q div 64 * 64 + q mod 64" by simp
  show "16 \<le> n div 4096 mod 64" if "n div 262144 mod 8 = 0"
    using split low that unfolding m(1) q_def [symmetric] by linarith
  show "n div 4096 mod 64 \<le> 15" if "n div 262144 mod 8 = 4"
    using split high that unfolding m(1) q_def [symmetric] by linarith
qed

lemma utf8_step_append:
  assumes "is_scalar s"
  obtains b bs where "append_lenient_utf8 s = b # bs"
    "\<And>rest. utf8_step b (bs @ rest) = (Some s, length bs)"
proof -
  note masks = byte_masks scalar_masks
  note nat = word_le_nat_alt word_less_nat_alt unat_lead unat_drop_bit_u32
  consider "s \<le> 0x7F" | "\<not> s \<le> 0x7F" "s \<le> 0x7FF" | "\<not> s \<le> 0x7FF" "s \<le> 0xFFFF" | "\<not> s \<le> 0xFFFF"
    by blast
  then show thesis
  proof cases
    case 1
    then show thesis
      using ascii_byte [OF 1] that [of "ucast s" "[]"]
      by (simp add: append_lenient_utf8_def utf8_step_def)
  next
    case 2
    let ?b = "ucast (0xC0 OR take_bit 5 (drop_bit 6 s)) :: u8"
    let ?c = "ucast (0x80 OR take_bit 6 s) :: u8"
    have "\<not> ?b < 0x80" "0xC2 \<le> ?b" "?b \<le> 0xDF" using 2 by (simp_all add: nat)
    then have "utf8_step ?b ([?c] @ rest) = (Some s, length [?c])" for rest
      using 2 by (simp add: utf8_step_def byte_at_def cont_byte lead_byte_2 masks ucast_parts scalar_parts)
    then show thesis using 2 that [of ?b "[?c]"] by (simp add: append_lenient_utf8_def masks)
  next
    case 3
    let ?b = "ucast (0xE0 OR take_bit 4 (drop_bit 12 s)) :: u8"
    let ?c = "ucast (0x80 OR take_bit 6 (drop_bit 6 s)) :: u8" and ?d = "ucast (0x80 OR take_bit 6 s) :: u8"
    have u: "0x7FF < unat s" "unat s \<le> 0xFFFF" "unat s < 0xD800 \<or> 0xE000 \<le> unat s"
      using 3 assms by (auto simp: is_scalar_def nat)
    have "\<not> ?b < 0x80" "\<not> ?b \<le> 0xDF" "0xE0 \<le> ?b" "?b \<le> 0xEF" by (simp_all add: nat)
    moreover have "second_ok ?b ?c" using second_ok_3 [OF u] by (simp add: second_ok_def word_unat_eq_iff nat)
    ultimately have "utf8_step ?b ([?c, ?d] @ rest) = (Some s, length [?c, ?d])" for rest
      using 3 by (simp add: utf8_step_def byte_at_def cont_byte lead_byte_3 masks ucast_parts scalar_parts)
    moreover have "\<not> s \<le> 0x7F" using 3 by (auto simp: word_le_nat_alt)
    ultimately show thesis using 3 that [of ?b "[?c, ?d]"] by (simp add: append_lenient_utf8_def masks)
  next
    case 4
    let ?b = "ucast (0xF0 OR take_bit 3 (drop_bit 18 s)) :: u8"
    let ?c = "ucast (0x80 OR take_bit 6 (drop_bit 12 s)) :: u8"
    let ?d = "ucast (0x80 OR take_bit 6 (drop_bit 6 s)) :: u8" and ?e = "ucast (0x80 OR take_bit 6 s) :: u8"
    have s: "s \<le> 0x10FFFF" using assms 4 by (auto simp: is_scalar_def nat)
    have u: "0xFFFF < unat s" "unat s \<le> 0x10FFFF" using 4 s by (simp_all add: nat)
    have b: "unat s div 262144 mod 8 \<le> 4" by (rule second_ok_4(4) [OF u])
    have "\<not> ?b < 0x80" "\<not> ?b \<le> 0xDF" "\<not> ?b \<le> 0xEF" "0xF0 \<le> ?b" "?b \<le> 0xF4"
      using b by (simp_all add: nat)
    moreover have "second_ok ?b ?c" using second_ok_4 [OF u] by (simp add: second_ok_def word_unat_eq_iff nat)
    ultimately have "utf8_step ?b ([?c, ?d, ?e] @ rest) = (Some s, length [?c, ?d, ?e])" for rest
      using s by (simp add: utf8_step_def byte_at_def cont_byte lead_byte_4 masks ucast_parts scalar_parts)
    moreover have "\<not> s \<le> 0x7F" "\<not> s \<le> 0x7FF" using 4 by (auto simp: word_le_nat_alt)
    ultimately show thesis using 4 s that [of ?b "[?c, ?d, ?e]"] by (simp add: append_lenient_utf8_def masks)
  qed
qed

lemma from_utf8_as_bytes:
  assumes "\<forall>c\<in>set s. is_scalar c"
  shows "from_utf8 (as_bytes s) = Some s"
  using assms
proof (induction s)
  case Nil
  then show ?case by (simp add: as_bytes_def)
next
  case (Cons c s)
  from Cons.prems have "is_scalar c" by simp
  then obtain b bs where "append_lenient_utf8 c = b # bs"
    "\<And>rest. utf8_step b (bs @ rest) = (Some c, length bs)" by (rule utf8_step_append) (rule that)
  then show ?case using Cons by (simp add: as_bytes_def)
qed

lemma append_lenient_utf8_nonzero:
  assumes "c \<noteq> 0"
  shows "0 \<notin> set (append_lenient_utf8 c)"
proof -
  have "(ucast c :: u8) \<noteq> 0" if "c \<le> 0x7F" using ascii_byte(2) [OF that] assms by (metis ucast_0)
  then have "0 < unat (ucast c :: u8)" if "c \<le> 0x7F" using that by (simp add: unat_gt_0)
  then show ?thesis
    unfolding append_lenient_utf8_def scalar_masks
    by (simp add: unat_lead word_unat_eq_iff [of 0])
qed

lemma as_bytes_nonzero: "0 \<notin> set s \<Longrightarrow> 0 \<notin> set (as_bytes s)"
proof (induction s)
  case (Cons c s)
  then show ?case using append_lenient_utf8_nonzero [of c] by (auto simp: as_bytes_def)
qed (simp add: as_bytes_def)

end
