(* ===== verification/Par2_Packets.thy ===== *)
theory Par2_Packets
  imports Utf8_Strict Rust_Str
begin

text \<open>
  The packets of the PAR2 crate: the wire format (\<open>par2-rs/src/packet/header.rs\<close>,
  \<open>main.rs\<close>, \<open>file_desc.rs\<close>, \<open>file_verify.rs\<close>, \<open>creator.rs\<close>,
  \<open>unicode_filename.rs\<close>, \<open>recovery.rs\<close>), the translation of the names they carry into
  local paths (\<open>path.rs\<close>), the parser of one packet (\<open>packet/mod.rs\<close>), and the
  encoder the creator uses (\<open>packet/encode.rs\<close>, \<open>create/output.rs\<close>).

  MD5 is a parameter: \<open>md5 data\<close> is the digest of \<open>data\<close>, and a streaming state is the
  bytes fed to it so far. The rendered text of an error is not modelled; the
  values an error carries are. Targets are 64-bit, so \<open>usize::try_from\<close> of a
  \<open>u64\<close> always succeeds.
\<close>

section \<open>Errors\<close>

datatype par2_error =
    InvalidMagic u64
  | PacketTooShort u64 u64
  | InvalidPacketLength u64
  | PacketHashMismatch u64
  | InvalidMainPacket
  | InvalidFileDescPacket
  | InvalidIfscPacket
  | InvalidRecoveryPacket
  | InvalidCreatorPacket
  | ConflictingRecoverySet
  | NoMainPacket
  | InsufficientCriticalData
  | ResourceLimitExceeded
  | FileNotFound rstring
  | FileDamaged rstring u32 u32
  | InsufficientRecoveryData u32 u32 u32
  | ReedSolomonError
  | RepairWriteFailed rstring u64 io_error_kind
  | Cancelled
  | Par2Io io_error_kind
  | InvalidCreationOptions
  | UnsafeCreationSource rstring
  | CreationSourceChanged rstring
  | CreationOutputExists rstring
  | UnsafeCreationOutput rstring
  | CreationValidation rstring
  | MetalUnavailable
  | MetalExecutionFailed

type_synonym 'a par2_result = "par2_error + 'a"

type_synonym digest = "bytes \<Rightarrow> bytes"

section \<open>Names\<close>

definition HEX :: rstring where
  "HEX = [0x30, 0x31, 0x32, 0x33, 0x34, 0x35, 0x36, 0x37, 0x38, 0x39, 0x41, 0x42, 0x43, 0x44, 0x45, 0x46]"

definition encode_byte :: "u8 \<Rightarrow> rstring" where
  "encode_byte byte = [0x25, HEX ! unat (drop_bit 4 byte), HEX ! unat (byte AND 0x0F)]"

definition encode_char :: "u32 \<Rightarrow> rstring" where
  "encode_char ch = concat (map encode_byte (append_lenient_utf8 ch))"

text \<open>\<open>char::is_control\<close>: the general category \<open>Cc\<close>.\<close>

definition is_control :: "u32 \<Rightarrow> bool" where
  "is_control ch \<longleftrightarrow> ch < 0x20 \<or> (0x7F \<le> ch \<and> ch < 0xA0)"

definition is_illegal_local_char :: "bool \<Rightarrow> u32 \<Rightarrow> bool" where
  "is_illegal_local_char windows ch \<longleftrightarrow>
     (if windows then is_control ch \<or> ch \<in> {0x22, 0x2A, 0x3A, 0x3C, 0x3E, 0x3F, 0x7C, 0}
      else is_control ch)"

definition encode_component :: "bool \<Rightarrow> rstring \<Rightarrow> rstring" where
  "encode_component windows component =
     concat (map (\<lambda>ch. if is_illegal_local_char windows ch then encode_char ch else [ch]) component)"

definition translate_part ::
    "bool \<Rightarrow> rstring \<Rightarrow> nat \<times> rstring \<Rightarrow> rstring list \<times> bool \<Rightarrow> rstring list \<times> bool" where
  "translate_part windows normalized =
     (\<lambda>(index, part) (parts, saw_name_component).
        if part = []
        then if index = 0 \<and> take 1 normalized = [0x2F]
             then (parts @ [[0x25, 0x32, 0x46]], True)
             else (parts, saw_name_component)
        else let encoded = if part = [0x2E, 0x2E] then [0x25, 0x32, 0x45, 0x25, 0x32, 0x45]
                           else encode_component windows part
             in (if encoded \<noteq> [] then parts @ [encoded] else parts, True))"

definition translate_par2_name_to_relative :: "bool \<Rightarrow> rstring \<Rightarrow> rstring par2_result" where
  "translate_par2_name_to_relative windows par2_name =
     (let normalized = str_replace 0x5C 0x2F par2_name;
          (parts, saw_name_component) =
            fold (translate_part windows normalized) (enumerate 0 (str_split 0x2F normalized)) ([], False)
      in if \<not> saw_name_component then Inl InvalidFileDescPacket
         else Inr (str_join 0x2F parts))"

text \<open>\<open>Path::components\<close> on Unix: repeated separators and inner \<open>.\<close> components vanish.\<close>

datatype path_component = RootDir | CurDir | ParentDir | Normal rstring

definition component_of :: "rstring \<Rightarrow> path_component" where
  "component_of w = (if w = [0x2E] then CurDir else if w = [0x2E, 0x2E] then ParentDir else Normal w)"

definition path_components :: "rstring \<Rightarrow> path_component list" where
  "path_components p =
     (if take 1 p = [0x2F] then [RootDir] else if hd (str_split 0x2F p) = [0x2E] then [CurDir] else [])
     @ map component_of (filter (\<lambda>w. w \<noteq> [] \<and> w \<noteq> [0x2E]) (str_split 0x2F p))"

text \<open>\<open>Path::join\<close> on Unix: an absolute second path replaces the first.\<close>

definition path_join :: "rstring \<Rightarrow> rstring \<Rightarrow> rstring" where
  "path_join base p =
     (if take 1 p = [0x2F] then p
      else if base = [] \<or> last base = 0x2F then base @ p
      else base @ 0x2F # p)"

definition translate_par2_name_to_local_path :: "rstring \<Rightarrow> rstring \<Rightarrow> rstring par2_result" where
  "translate_par2_name_to_local_path par2_name base_dir =
     and_then (translate_par2_name_to_relative False par2_name) (\<lambda>relative.
       if list_ex (\<lambda>c. c = ParentDir \<or> c = RootDir) (path_components relative)
       then Inl InvalidFileDescPacket
       else Inr (path_join base_dir relative))"

text \<open>\<open>String::from_utf16\<close>.\<close>

fun from_utf16 :: "u16 list \<Rightarrow> rstring option" where
  "from_utf16 [] = Some []"
| "from_utf16 (u # us) =
     (if 0xD800 \<le> u \<and> u \<le> 0xDBFF then
        (case us of
           v # vs \<Rightarrow>
             if 0xDC00 \<le> v \<and> v \<le> 0xDFFF
             then map_option ((#) (0x10000 + (push_bit 10 (ucast (u AND 0x3FF)) OR ucast (v AND 0x3FF))))
                    (from_utf16 vs)
             else None
         | [] \<Rightarrow> None)
      else if 0xDC00 \<le> u \<and> u \<le> 0xDFFF then None
      else map_option ((#) (ucast u)) (from_utf16 us))"

definition decode_par2_name :: "bytes \<Rightarrow> rstring" where
  "decode_par2_name name_bytes =
     (case from_utf8 name_bytes of Some s \<Rightarrow> s | None \<Rightarrow> map ucast name_bytes)"

section \<open>The packet header\<close>

definition MAGIC :: bytes where
  "MAGIC = [0x50, 0x41, 0x52, 0x32, 0x00, 0x50, 0x4B, 0x54]"

definition HEADER_SIZE :: nat where
  "HEADER_SIZE = 64"

definition PAR_2_0 :: bytes where
  "PAR_2_0 = [0x50, 0x41, 0x52, 0x20, 0x32, 0x2E, 0x30, 0x00]"

definition TYPE_MAIN :: bytes where
  "TYPE_MAIN = PAR_2_0 @ [0x4D, 0x61, 0x69, 0x6E, 0, 0, 0, 0]"

definition TYPE_FILE_DESC :: bytes where
  "TYPE_FILE_DESC = PAR_2_0 @ [0x46, 0x69, 0x6C, 0x65, 0x44, 0x65, 0x73, 0x63]"

definition TYPE_IFSC :: bytes where
  "TYPE_IFSC = PAR_2_0 @ [0x49, 0x46, 0x53, 0x43, 0, 0, 0, 0]"

definition TYPE_RECOVERY :: bytes where
  "TYPE_RECOVERY = PAR_2_0 @ [0x52, 0x65, 0x63, 0x76, 0x53, 0x6C, 0x69, 0x63]"

definition TYPE_CREATOR :: bytes where
  "TYPE_CREATOR = PAR_2_0 @ [0x43, 0x72, 0x65, 0x61, 0x74, 0x6F, 0x72, 0]"

definition TYPE_UNICODE_FILENAME :: bytes where
  "TYPE_UNICODE_FILENAME = PAR_2_0 @ [0x55, 0x6E, 0x69, 0x46, 0x69, 0x6C, 0x65, 0x4E]"

datatype packet_type =
    PtMain | PtFileDescription | PtInputFileSliceChecksum | PtRecoverySlice | PtCreator
  | PtUnicodeFilename | PtUnknown bytes

definition from_signature :: "bytes \<Rightarrow> packet_type" where
  "from_signature sig =
     (if sig = TYPE_MAIN then PtMain
      else if sig = TYPE_FILE_DESC then PtFileDescription
      else if sig = TYPE_IFSC then PtInputFileSliceChecksum
      else if sig = TYPE_RECOVERY then PtRecoverySlice
      else if sig = TYPE_CREATOR then PtCreator
      else if sig = TYPE_UNICODE_FILENAME then PtUnicodeFilename
      else PtUnknown sig)"

record packet_header =
  ph_length :: u64
  ph_packet_hash :: bytes
  ph_recovery_set_id :: bytes
  ph_packet_type :: packet_type

definition packet_header_parse :: "bytes \<Rightarrow> u64 \<Rightarrow> packet_header par2_result" where
  "packet_header_parse data offset =
     (if length data < HEADER_SIZE
      then Inl (PacketTooShort (of_nat HEADER_SIZE) (of_nat (length data)))
      else if take 8 data \<noteq> MAGIC then Inl (InvalidMagic offset)
      else let len = from_le_bytes (take 8 (drop 8 data)) in
        if len < of_nat HEADER_SIZE then Inl (PacketTooShort (of_nat HEADER_SIZE) len)
        else if len mod 4 \<noteq> 0 then Inl (InvalidPacketLength len)
        else Inr \<lparr>ph_length = len,
                  ph_packet_hash = take 16 (drop 16 data),
                  ph_recovery_set_id = take 16 (drop 32 data),
                  ph_packet_type = from_signature (take 16 (drop 48 data))\<rparr>)"

text \<open>The slice \<open>full_packet[32..length]\<close> is in bounds: the length is at least the header's.\<close>

definition validate_hash :: "digest \<Rightarrow> packet_header \<Rightarrow> bytes \<Rightarrow> u64 \<Rightarrow> unit par2_result" where
  "validate_hash md5 header full_packet offset =
     (if of_nat (length full_packet) < ph_length header
      then Inl (PacketTooShort (ph_length header) (of_nat (length full_packet)))
      else if md5 (take (unat (ph_length header) - 32) (drop 32 full_packet)) \<noteq> ph_packet_hash header
      then Inl (PacketHashMismatch offset)
      else Inr ())"

definition body_length :: "packet_header \<Rightarrow> u64" where
  "body_length header = ph_length header - of_nat HEADER_SIZE"

section \<open>Packet bodies\<close>

definition MAX_FILES_PER_SET :: nat where
  "MAX_FILES_PER_SET = 32768"

record main_packet =
  mp_recovery_set_id :: bytes
  mp_slice_size :: u64
  mp_recovery_file_ids :: "bytes list"
  mp_non_recovery_file_ids :: "bytes list"

text \<open>Entry \<open>i\<close> of an area of \<open>n\<close>-byte entries.\<close>

definition entry_at :: "nat \<Rightarrow> bytes \<Rightarrow> nat \<Rightarrow> bytes" where
  "entry_at n area i = take n (drop (i * n) area)"

definition main_packet_parse :: "bytes \<Rightarrow> bytes \<Rightarrow> main_packet par2_result" where
  "main_packet_parse body recovery_set_id =
     (if length body < 12 then Inl InvalidMainPacket
      else let slice_size = from_le_bytes (take 8 body) in
        if slice_size = 0 then Inl InvalidMainPacket
        else if slice_size mod 4 \<noteq> 0 then Inl InvalidMainPacket
        else let recovery_file_count = unat (from_le_bytes (take 4 (drop 8 body)) :: u32);
                 file_id_area = drop 12 body in
          if length file_id_area mod 16 \<noteq> 0 then Inl InvalidMainPacket
          else let total_ids = length file_id_area div 16 in
            if total_ids > MAX_FILES_PER_SET then Inl InvalidMainPacket
            else if recovery_file_count > total_ids then Inl InvalidMainPacket
            else Inr \<lparr>mp_recovery_set_id = recovery_set_id, mp_slice_size = slice_size,
                      mp_recovery_file_ids = map (entry_at 16 file_id_area) [0..<recovery_file_count],
                      mp_non_recovery_file_ids =
                        map (entry_at 16 file_id_area) [recovery_file_count..<total_ids]\<rparr>)"

definition FIXED_BODY_SIZE :: nat where
  "FIXED_BODY_SIZE = 56"

definition MAX_FILENAME_BYTES :: nat where
  "MAX_FILENAME_BYTES = 100000"

record file_description_packet =
  fd_file_id :: bytes
  fd_hash_full :: bytes
  fd_hash_16k :: bytes
  fd_file_length :: u64
  fd_filename :: rstring
  fd_par2_name :: rstring
  fd_par2_name_bytes :: bytes

definition file_description_packet_parse :: "bool \<Rightarrow> bytes \<Rightarrow> file_description_packet par2_result" where
  "file_description_packet_parse windows body =
     (if length body \<le> FIXED_BODY_SIZE then Inl InvalidFileDescPacket
      else let hash_full = take 16 (drop 16 body);
               hash_16k = take 16 (drop 32 body);
               file_length = from_le_bytes (take 8 (drop 48 body)) in
        if file_length \<le> 16384 \<and> hash_16k \<noteq> hash_full then Inl InvalidFileDescPacket
        else let name_bytes = drop 56 body in
          if length name_bytes > MAX_FILENAME_BYTES then Inl InvalidFileDescPacket
          else let par2_name_bytes = until_nul name_bytes in
            if par2_name_bytes = [] then Inl InvalidFileDescPacket
            else let par2_name = decode_par2_name par2_name_bytes in
              and_then (translate_par2_name_to_relative windows par2_name) (\<lambda>filename.
                Inr \<lparr>fd_file_id = take 16 body, fd_hash_full = hash_full, fd_hash_16k = hash_16k,
                     fd_file_length = file_length, fd_filename = filename,
                     fd_par2_name = par2_name, fd_par2_name_bytes = par2_name_bytes\<rparr>))"

definition CHECKSUM_ENTRY_SIZE :: nat where
  "CHECKSUM_ENTRY_SIZE = 20"

definition MAX_CHECKSUM_ENTRIES :: nat where
  "MAX_CHECKSUM_ENTRIES = 32768"

record slice_checksum =
  sc_crc32 :: u32
  sc_md5 :: bytes

record ifsc_packet =
  if_file_id :: bytes
  if_checksums :: "slice_checksum list"

definition ifsc_entry :: "bytes \<Rightarrow> slice_checksum" where
  "ifsc_entry entry = \<lparr>sc_crc32 = from_le_bytes (take 4 (drop 16 entry)), sc_md5 = take 16 entry\<rparr>"

definition ifsc_packet_parse :: "bytes \<Rightarrow> ifsc_packet par2_result" where
  "ifsc_packet_parse body =
     (if length body < 16 then Inl InvalidIfscPacket
      else let checksum_area = drop 16 body in
        if length checksum_area mod CHECKSUM_ENTRY_SIZE \<noteq> 0 then Inl InvalidIfscPacket
        else let count = length checksum_area div CHECKSUM_ENTRY_SIZE in
          if count > MAX_CHECKSUM_ENTRIES then Inl InvalidIfscPacket
          else Inr \<lparr>if_file_id = take 16 body,
                    if_checksums =
                      map (ifsc_entry \<circ> entry_at CHECKSUM_ENTRY_SIZE checksum_area) [0..<count]\<rparr>)"

definition MAX_CREATOR_BYTES :: nat where
  "MAX_CREATOR_BYTES = 100000"

definition creator_packet_parse :: "bytes \<Rightarrow> rstring par2_result" where
  "creator_packet_parse body =
     (if body = [] then Inl InvalidCreatorPacket
      else if length body > MAX_CREATOR_BYTES then Inl InvalidCreatorPacket
      else Inr (from_utf8_lossy (until_nul body)))"

definition MAX_UNICODE_FILENAME_BODY_BYTES :: nat where
  "MAX_UNICODE_FILENAME_BODY_BYTES = 16 + 2 * 100000"

record unicode_filename_packet =
  uf_file_id :: bytes
  uf_name :: rstring

text \<open>\<open>chunks_exact(2)\<close> read in one byte order.\<close>

fun utf16_units :: "bool \<Rightarrow> bytes \<Rightarrow> u16 list" where
  "utf16_units little_endian (a # b # rest) =
     from_le_bytes (if little_endian then [a, b] else [b, a]) # utf16_units little_endian rest"
| "utf16_units little_endian _ = []"

definition strip_bom :: "bytes \<Rightarrow> bytes \<times> bool" where
  "strip_bom raw =
     (if take 2 raw = [0xFF, 0xFE] then (drop 2 raw, True)
      else if take 2 raw = [0xFE, 0xFF] then (drop 2 raw, False)
      else (raw, True))"

definition unicode_filename_packet_parse :: "bytes \<Rightarrow> unicode_filename_packet par2_result" where
  "unicode_filename_packet_parse body =
     (if length body < 18 then Inl InvalidFileDescPacket
      else if length body > MAX_UNICODE_FILENAME_BODY_BYTES then Inl InvalidFileDescPacket
      else let raw = drop 16 body in
        if length raw mod 2 \<noteq> 0 then Inl InvalidFileDescPacket
        else let (raw, little_endian) = strip_bom raw in
          and_then (ok_or (from_utf16 (utf16_units little_endian raw)) InvalidFileDescPacket) (\<lambda>decoded.
            let name = rev (dropWhile (\<lambda>c. c = 0) (rev decoded)) in
            if name = [] then Inl InvalidFileDescPacket
            else if 0 \<in> set name then Inl InvalidFileDescPacket
            else Inr \<lparr>uf_file_id = take 16 body, uf_name = name\<rparr>))"

section \<open>Recovery payloads\<close>

datatype recovery_slice_data =
    InMemory bytes
  | FileBacked (fb_path: rstring) (fb_offset: u64) (fb_len: nat) (fb_packet_hash: "bytes option")

record recovery_slice_packet =
  rs_exponent :: u32
  rs_data :: recovery_slice_data

definition recovery_slice_packet_parse :: "bytes \<Rightarrow> recovery_slice_packet par2_result" where
  "recovery_slice_packet_parse body =
     (if length body \<le> 4 then Inl InvalidRecoveryPacket
      else Inr \<lparr>rs_exponent = from_le_bytes (take 4 body), rs_data = InMemory (drop 4 body)\<rparr>)"

fun slice_data_len :: "recovery_slice_data \<Rightarrow> nat" where
  "slice_data_len (InMemory data) = length data"
| "slice_data_len (FileBacked path offset len packet_hash) = len"

text \<open>
  A range of a payload, zero-filled past its end. A file is read at the
  payload's offset; \<open>fs\<close> gives the bytes of the file a path names, if it opens.
\<close>

definition read_range_padded ::
    "(rstring \<Rightarrow> bytes option) \<Rightarrow> recovery_slice_data \<Rightarrow> nat \<Rightarrow> nat \<Rightarrow> bytes par2_result" where
  "read_range_padded fs slice_data start n =
     (case slice_data of
        InMemory data \<Rightarrow>
          if start \<ge> length data then Inr (replicate n 0)
          else let e = min (start + n) (length data); copy_len = e - start
               in Inr (take copy_len (drop start data) @ replicate (n - copy_len) 0)
      | FileBacked path offset len _ \<Rightarrow>
          if start \<ge> len then Inr (replicate n 0)
          else let read_len = min n (len - start) in
            case fs path of
              None \<Rightarrow> Inl (Par2Io OtherIo)
            | Some img \<Rightarrow>
                let at = unat (offset + of_nat start) in
                if at + read_len \<le> length img \<or> read_len = 0
                then Inr (take read_len (drop at img) @ replicate (n - read_len) 0)
                else Inl (Par2Io UnexpectedEof))"

definition to_vec :: "(rstring \<Rightarrow> bytes option) \<Rightarrow> recovery_slice_data \<Rightarrow> bytes par2_result" where
  "to_vec fs slice_data = read_range_padded fs slice_data 0 (slice_data_len slice_data)"

section \<open>Parsing one packet\<close>

datatype packet =
    MainPkt main_packet
  | FileDescriptionPkt file_description_packet
  | InputFileSliceChecksumPkt ifsc_packet
  | RecoverySlicePkt recovery_slice_packet
  | CreatorPkt rstring
  | UnicodeFilenamePkt unicode_filename_packet
  | UnknownPkt bytes bytes

definition parse_packet_body :: "bool \<Rightarrow> packet_header \<Rightarrow> bytes \<Rightarrow> packet par2_result" where
  "parse_packet_body windows header body =
     (case ph_packet_type header of
        PtMain \<Rightarrow> map_sum id MainPkt (main_packet_parse body (ph_recovery_set_id header))
      | PtFileDescription \<Rightarrow> map_sum id FileDescriptionPkt (file_description_packet_parse windows body)
      | PtInputFileSliceChecksum \<Rightarrow> map_sum id InputFileSliceChecksumPkt (ifsc_packet_parse body)
      | PtRecoverySlice \<Rightarrow> map_sum id RecoverySlicePkt (recovery_slice_packet_parse body)
      | PtCreator \<Rightarrow> map_sum id CreatorPkt (creator_packet_parse body)
      | PtUnicodeFilename \<Rightarrow> map_sum id UnicodeFilenamePkt (unicode_filename_packet_parse body)
      | PtUnknown sig \<Rightarrow> Inr (UnknownPkt sig body))"

definition file_backed_recovery_packet :: "rstring \<Rightarrow> u64 \<Rightarrow> bytes \<Rightarrow> packet par2_result" where
  "file_backed_recovery_packet path offset body =
     (if length body \<le> 4 then Inl InvalidRecoveryPacket
      else Inr (RecoverySlicePkt
        \<lparr>rs_exponent = from_le_bytes (take 4 body),
         rs_data = FileBacked path (offset + of_nat HEADER_SIZE + 4) (length body - 4) None\<rparr>))"

definition parse_packet_internal ::
    "digest \<Rightarrow> bool \<Rightarrow> bytes \<Rightarrow> u64 \<Rightarrow> rstring option \<Rightarrow> (packet \<times> nat) par2_result" where
  "parse_packet_internal md5 windows data offset recovery_path =
     and_then (packet_header_parse data offset) (\<lambda>header.
       let total_len = unat (ph_length header) in
       if length data < total_len
       then Inl (PacketTooShort (ph_length header) (of_nat (length data)))
       else and_then (validate_hash md5 header (take total_len data) offset) (\<lambda>_.
         let body = take (total_len - HEADER_SIZE) (drop HEADER_SIZE data) in
         and_then
           (case (ph_packet_type header, recovery_path) of
              (PtRecoverySlice, Some path) \<Rightarrow> file_backed_recovery_packet path offset body
            | _ \<Rightarrow> parse_packet_body windows header body)
           (\<lambda>packet. Inr (packet, total_len))))"

definition parse_packet :: "digest \<Rightarrow> bool \<Rightarrow> bytes \<Rightarrow> u64 \<Rightarrow> (packet \<times> nat) par2_result" where
  "parse_packet md5 windows data offset = parse_packet_internal md5 windows data offset None"

definition find_recovery_set_id :: "(packet \<times> u64) list \<Rightarrow> bytes option" where
  "find_recovery_set_id packets =
     (case filter (\<lambda>(p, _). case p of MainPkt _ \<Rightarrow> True | _ \<Rightarrow> False) packets of
        (MainPkt main, _) # _ \<Rightarrow> Some (mp_recovery_set_id main)
      | _ \<Rightarrow> None)"

section \<open>Encoding packets\<close>

definition packet_hash :: "digest \<Rightarrow> bytes \<Rightarrow> bytes \<Rightarrow> bytes \<Rightarrow> bytes" where
  "packet_hash md5 recovery_set_id packet_type body = md5 (recovery_set_id @ packet_type @ body)"

definition encode_packet :: "digest \<Rightarrow> bytes \<Rightarrow> bytes \<Rightarrow> bytes \<Rightarrow> bytes par2_result" where
  "encode_packet md5 packet_type recovery_set_id body =
     (if HEADER_SIZE + length body \<ge> 2 ^ 64 then Inl ResourceLimitExceeded
      else let len = HEADER_SIZE + length body in
        if len mod 4 \<noteq> 0 then Inl (InvalidPacketLength (of_nat len))
        else Inr (MAGIC @ to_le_bytes 8 (of_nat len :: u64)
                  @ packet_hash md5 recovery_set_id packet_type body
                  @ recovery_set_id @ packet_type @ body))"

definition encode_header :: "bytes \<Rightarrow> bytes \<Rightarrow> u64 \<Rightarrow> bytes \<Rightarrow> bytes par2_result" where
  "encode_header packet_type recovery_set_id len hash =
     (if len < of_nat HEADER_SIZE \<or> len mod 4 \<noteq> 0 then Inl (InvalidPacketLength len)
      else Inr (MAGIC @ to_le_bytes 8 len @ hash @ recovery_set_id @ packet_type))"

text \<open>The buffer always grows: a refusal of the allocator is not modelled.\<close>

definition pad_body :: "bytes \<Rightarrow> bytes" where
  "pad_body body = body @ replicate ((4 - length body mod 4) mod 4) 0"

text \<open>What the creator writes of a source file.\<close>

record creation_source =
  cs_path :: rstring
  cs_file_id :: bytes
  cs_hash_full :: bytes
  cs_hash_16k :: bytes
  cs_file_length :: u64
  cs_par2_name :: rstring
  cs_slice_checksums :: "slice_checksum list"

definition main_body :: "u64 \<Rightarrow> creation_source list \<Rightarrow> bytes" where
  "main_body slice_size sources =
     to_le_bytes 8 slice_size @ to_le_bytes 4 (of_nat (length sources) :: u32)
     @ concat (map cs_file_id sources)"

definition file_desc_body :: "creation_source \<Rightarrow> bytes" where
  "file_desc_body source =
     pad_body (cs_file_id source @ cs_hash_full source @ cs_hash_16k source
       @ to_le_bytes 8 (cs_file_length source) @ as_bytes (cs_par2_name source))"

definition ifsc_body :: "creation_source \<Rightarrow> bytes" where
  "ifsc_body source =
     pad_body (cs_file_id source
       @ concat (map (\<lambda>c. sc_md5 c @ to_le_bytes 4 (sc_crc32 c)) (cs_slice_checksums source)))"

datatype expected_packet =
    ExpMain | ExpFileDescription bytes | ExpInputFileSliceChecksum bytes | ExpRecovery u32 | ExpCreator

fun encode_each ::
    "digest \<Rightarrow> bytes \<Rightarrow> bytes \<Rightarrow> (creation_source \<Rightarrow> expected_packet) \<Rightarrow> (creation_source \<Rightarrow> bytes)
       \<Rightarrow> creation_source list \<Rightarrow> (expected_packet \<times> bytes) list par2_result" where
  "encode_each md5 ty set_id expected body [] = Inr []"
| "encode_each md5 ty set_id expected body (source # sources) =
     and_then (encode_packet md5 ty set_id (body source)) (\<lambda>p.
     and_then (encode_each md5 ty set_id expected body sources) (\<lambda>ps.
       Inr ((expected source, p) # ps)))"

definition build_critical_packets ::
    "digest \<Rightarrow> u64 \<Rightarrow> bytes \<Rightarrow> creation_source list \<Rightarrow> (expected_packet \<times> bytes) list par2_result" where
  "build_critical_packets md5 slice_size set_id sources =
     and_then (encode_packet md5 TYPE_MAIN set_id (main_body slice_size sources)) (\<lambda>main.
     and_then (encode_each md5 TYPE_FILE_DESC set_id (ExpFileDescription \<circ> cs_file_id)
                 file_desc_body sources) (\<lambda>descs.
     and_then (encode_each md5 TYPE_IFSC set_id (ExpInputFileSliceChecksum \<circ> cs_file_id)
                 ifsc_body sources) (\<lambda>ifscs.
       Inr ((ExpMain, main) # descs @ ifscs))))"

definition CREATOR_ID :: bytes where
  "CREATOR_ID = [0x70, 0x61, 0x72, 0x32, 0x2D, 0x72, 0x73]"

definition encode_creator_packet :: "digest \<Rightarrow> bytes \<Rightarrow> bytes par2_result" where
  "encode_creator_packet md5 set_id = encode_packet md5 TYPE_CREATOR set_id (pad_body CREATOR_ID)"

end
