(* ===== verification/Par2_Names.thy ===== *)
theory Par2_Names
  imports Par2_Packets
begin

text \<open>
  The names in PAR2 packets: whatever a packet says, the translated name is a
  relative path without parent components, so a file is only ever opened or
  created below the directory of the job.
\<close>

section \<open>Facts: translated names\<close>

text \<open>A character that may stand in a component of a translated name.\<close>

definition plain_char :: "bool \<Rightarrow> u32 \<Rightarrow> bool" where
  "plain_char windows ch \<longleftrightarrow> ch \<noteq> 0x2F \<and> ch \<noteq> 0x5C \<and> \<not> is_illegal_local_char windows ch"

definition safe_component :: "bool \<Rightarrow> rstring \<Rightarrow> bool" where
  "safe_component windows w \<longleftrightarrow> w \<noteq> [] \<and> w \<noteq> [0x2E, 0x2E] \<and> (\<forall>ch\<in>set w. plain_char windows ch)"

lemma HEX_plain: "i < 16 \<Longrightarrow> plain_char windows (HEX ! i)"
proof -
  have "\<forall>ch\<in>set HEX. plain_char windows ch"
    by (auto simp: HEX_def plain_char_def is_illegal_local_char_def is_control_def)
  moreover have "length HEX = 16" by (simp add: HEX_def)
  ultimately show "i < 16 \<Longrightarrow> plain_char windows (HEX ! i)" by simp
qed

lemma encode_byte_plain: "ch \<in> set (encode_byte b) \<Longrightarrow> plain_char windows ch"
proof -
  have "unat (drop_bit 4 b) < 16" using unat_bound [of b] by (simp add: drop_bit_eq_div unat_div div_less_iff_less_mult)
  moreover have "unat (b AND 0x0F) < 16"
    using mod_less_divisor [of 16 "unat b"] by (simp add: byte_masks(2) take_bit_eq_mod unat_mod)
  moreover have "plain_char windows 0x25" by (simp add: plain_char_def is_illegal_local_char_def is_control_def)
  ultimately show "ch \<in> set (encode_byte b) \<Longrightarrow> plain_char windows ch"
    using HEX_plain by (auto simp: encode_byte_def)
qed

lemma encode_char_plain: "ch \<in> set (encode_char c) \<Longrightarrow> plain_char windows ch"
  by (auto simp: encode_char_def dest: encode_byte_plain)

lemma encode_byte_length: "length (encode_byte b) = 3"
  by (simp add: encode_byte_def)

lemma append_lenient_utf8_nonempty: "c \<le> 0x10FFFF \<Longrightarrow> append_lenient_utf8 c \<noteq> []"
  by (simp add: append_lenient_utf8_def)

lemma illegal_le: "is_illegal_local_char windows c \<Longrightarrow> c \<le> 0x10FFFF"
  by (auto simp: is_illegal_local_char_def is_control_def word_le_nat_alt word_less_nat_alt split: if_splits)

lemma encode_char_nonempty: "is_illegal_local_char windows c \<Longrightarrow> hd (encode_char c) = 0x25 \<and> encode_char c \<noteq> []"
  using append_lenient_utf8_nonempty [OF illegal_le, of windows c]
  by (cases "append_lenient_utf8 c") (simp_all add: encode_char_def encode_byte_def)

lemma encode_component_safe:
  assumes "w \<noteq> []" "w \<noteq> [0x2E, 0x2E]" "0x2F \<notin> set w" "0x5C \<notin> set w"
  shows "safe_component windows (encode_component windows w)"
proof -
  have ne: "encode_component windows w \<noteq> []"
    using assms(1) encode_char_nonempty [of windows "hd w"] by (cases w) (auto simp: encode_component_def)
  have plain: "plain_char windows ch" if "ch \<in> set (encode_component windows w)" for ch
    using that assms encode_char_plain [of ch]
    by (auto simp: encode_component_def plain_char_def split: if_splits)
  have "encode_component windows w \<noteq> [0x2E, 0x2E]"
  proof (cases "\<exists>c\<in>set w. is_illegal_local_char windows c")
    case True
    then obtain c where c: "c \<in> set w" "is_illegal_local_char windows c" by blast
    have "0x25 \<in> set (encode_char c)" using encode_char_nonempty [OF c(2)] by (metis hd_in_set)
    then have "0x25 \<in> set (encode_component windows w)"
      using c by (auto simp: encode_component_def intro!: bexI [of _ c])
    then show ?thesis by auto
  next
    case False
    then have "encode_component windows w = w"
      by (induction w) (auto simp: encode_component_def)
    then show ?thesis using assms(2) by simp
  qed
  then show ?thesis using ne plain by (auto simp: safe_component_def)
qed

lemma safe_escapes:
  "safe_component windows [0x25, 0x32, 0x46]" "safe_component windows [0x25, 0x32, 0x45, 0x25, 0x32, 0x45]"
  by (auto simp: safe_component_def plain_char_def is_illegal_local_char_def is_control_def)

lemma translate_part_safe:
  assumes "list_all (safe_component windows) parts" "0x2F \<notin> set part" "0x5C \<notin> set part" "saw \<longleftrightarrow> parts \<noteq> []"
  shows "case translate_part windows normalized (i, part) (parts, saw) of
    (parts', saw') \<Rightarrow> list_all (safe_component windows) parts' \<and> (saw' \<longleftrightarrow> parts' \<noteq> [])
      \<and> (part \<noteq> [] \<longrightarrow> saw') \<and> (saw \<longrightarrow> saw')"
proof (cases "part = [0x2E, 0x2E] \<or> part = []")
  case True
  then show ?thesis using assms safe_escapes by (auto simp: translate_part_def)
next
  case False
  then have s: "safe_component windows (encode_component windows part)"
    by (intro encode_component_safe assms) auto
  moreover have "encode_component windows part \<noteq> []" using s by (simp add: safe_component_def)
  ultimately show ?thesis using assms False by (auto simp: translate_part_def)
qed

lemma translate_parts_safe:
  assumes "\<forall>(i, part)\<in>set ps. 0x2F \<notin> set part \<and> 0x5C \<notin> set part"
    "list_all (safe_component windows) parts" "saw \<longleftrightarrow> parts \<noteq> []"
    "fold (translate_part windows normalized) ps (parts, saw) = (parts', saw')"
  shows "list_all (safe_component windows) parts' \<and> (saw' \<longleftrightarrow> parts' \<noteq> [])
    \<and> ((\<exists>(i, part)\<in>set ps. part \<noteq> []) \<or> saw \<longrightarrow> saw')"
  using assms
proof (induction ps arbitrary: parts saw)
  case Nil
  then show ?case by auto
next
  case (Cons p ps)
  obtain i part where p: "p = (i, part)" by fastforce
  obtain parts1 saw1 where st: "translate_part windows normalized (i, part) (parts, saw) = (parts1, saw1)"
    by fastforce
  have step: "list_all (safe_component windows) parts1" "saw1 \<longleftrightarrow> parts1 \<noteq> []"
      "part \<noteq> [] \<or> saw \<Longrightarrow> saw1"
    using translate_part_safe [of windows parts part saw normalized i] Cons.prems p st by auto
  have f: "fold (translate_part windows normalized) ps (parts1, saw1) = (parts', saw')"
    using Cons.prems(4) by (simp add: p st)
  have "list_all (safe_component windows) parts' \<and> (saw' \<longleftrightarrow> parts' \<noteq> [])
    \<and> ((\<exists>(i, part)\<in>set ps. part \<noteq> []) \<or> saw1 \<longrightarrow> saw')"
    by (rule Cons.IH [OF _ step(1, 2) f]) (use Cons.prems(1) in simp)
  then show ?case using step(3) by (auto simp: p)
qed

lemma str_replace_sep_free: "old \<noteq> new \<Longrightarrow> old \<notin> set (str_replace old new p)"
  by (auto simp: str_replace_def)

lemma set_str_split: "w \<in> set (str_split c p) \<Longrightarrow> set w \<subseteq> set p"
proof (induction p arbitrary: w)
  case (Cons b p)
  obtain v vs where "str_split c p = v # vs" by (metis list.exhaust str_split_nonempty(1))
  then show ?case using Cons by (fastforce split: if_splits)
qed simp

lemma str_split_all_empty: "\<forall>w\<in>set (str_split c p). w = [] \<Longrightarrow> p \<noteq> [] \<Longrightarrow> hd p = c"
  by (cases p) (auto split: if_splits)

lemma translate_safe:
  assumes "par2_name \<noteq> []"
  obtains parts where "translate_par2_name_to_relative windows par2_name = Inr (str_join 0x2F parts)"
    "parts \<noteq> []" "list_all (safe_component windows) parts"
proof -
  define normalized where "normalized = str_replace 0x5C 0x2F par2_name"
  obtain parts saw where f: "fold (translate_part windows normalized)
      (enumerate 0 (str_split 0x2F normalized)) ([], False) = (parts, saw)" by fastforce
  have "0x5C \<notin> set normalized" by (simp add: normalized_def str_replace_sep_free)
  then have free: "\<forall>(i, part)\<in>set (enumerate 0 (str_split 0x2F normalized)). 0x2F \<notin> set part \<and> 0x5C \<notin> set part"
    using set_str_split str_split_sep_free by (fastforce dest: set_zip_rightD simp: enumerate_eq_zip)
  note safe = translate_parts_safe [OF free _ _ f]
  have ne: "normalized \<noteq> []" using assms by (simp add: normalized_def str_replace_def)
  have saw
  proof (cases "\<exists>w\<in>set (str_split 0x2F normalized). w \<noteq> []")
    case True
    moreover have "set (str_split 0x2F normalized) = snd ` set (enumerate 0 (str_split 0x2F normalized))"
      by (metis list.set_map map_snd_enumerate)
    ultimately have "\<exists>(i, part)\<in>set (enumerate 0 (str_split 0x2F normalized)). part \<noteq> []" by auto
    then show ?thesis using safe by auto
  next
    case False
    then have slash: "take 1 normalized = [0x2F]"
      using str_split_all_empty [of "0x2F" normalized] ne by (cases normalized) auto
    obtain ws where "str_split 0x2F normalized = [] # ws" using slash ne by (cases normalized) auto
    then have f1: "fold (translate_part windows normalized) (enumerate 1 ws)
        ([[0x25, 0x32, 0x46]], True) = (parts, saw)"
      using f slash by (simp add: translate_part_def)
    have "\<forall>(i, part)\<in>set (enumerate 1 ws). 0x2F \<notin> set part \<and> 0x5C \<notin> set part"
      using free \<open>str_split 0x2F normalized = [] # ws\<close> by simp
    from translate_parts_safe [OF this _ _ f1] safe_escapes show ?thesis by auto
  qed
  then show thesis using safe that [of parts] f by (simp add: translate_par2_name_to_relative_def normalized_def Let_def)
qed

lemma safe_path_components:
  assumes "parts \<noteq> []" "list_all (safe_component windows) parts"
  shows "str_split 0x2F (str_join 0x2F parts) = parts" "take 1 (str_join 0x2F parts) \<noteq> [0x2F]"
    "set (path_components (str_join 0x2F parts)) \<subseteq> insert CurDir (Normal ` UNIV)"
proof -
  show split: "str_split 0x2F (str_join 0x2F parts) = parts"
    using assms by (intro str_split_join) (auto simp: list_all_iff safe_component_def plain_char_def)
  show root: "take 1 (str_join 0x2F parts) \<noteq> [0x2F]"
  proof
    assume "take 1 (str_join 0x2F parts) = [0x2F]"
    then have "hd parts = []" using split by (cases "str_join 0x2F parts") auto
    then show False using assms by (cases parts) (auto simp: safe_component_def)
  qed
  show "set (path_components (str_join 0x2F parts)) \<subseteq> insert CurDir (Normal ` UNIV)"
    using root assms(2) unfolding path_components_def split
    by (auto simp: component_of_def list_all_iff safe_component_def split: if_splits)
qed

text \<open>C13: a file name taken from a packet is never used as it stands: whatever its bytes were,
  every component of the translated name is non-empty, is not \<open>..\<close> and holds no separator and
  no character the target's file system refuses, and the local path is the base directory
  followed by that relative name.\<close>

theorem par2_name_stays_below_base:
  assumes "par2_name \<noteq> []"
  shows "\<exists>relative. translate_par2_name_to_relative False par2_name = Inr relative
    \<and> list_all (safe_component False) (str_split 0x2F relative)
    \<and> set (path_components relative) \<subseteq> insert CurDir (Normal ` UNIV)
    \<and> take 1 relative \<noteq> [0x2F]
    \<and> translate_par2_name_to_local_path par2_name base_dir = Inr (path_join base_dir relative)"
proof -
  obtain parts where t: "translate_par2_name_to_relative False par2_name = Inr (str_join 0x2F parts)"
    and p: "parts \<noteq> []" "list_all (safe_component False) parts" by (rule translate_safe [OF assms]) (rule that)
  note facts = safe_path_components [OF p]
  have "\<not> list_ex (\<lambda>c. c = ParentDir \<or> c = RootDir) (path_components (str_join 0x2F parts))"
    using facts(3) by (auto simp: list_ex_iff)
  then show ?thesis using t p(2) facts by (simp add: translate_par2_name_to_local_path_def)
qed

theorem par2_name_stays_below_base_witness:
  "translate_par2_name_to_local_path [0x2E, 0x2E, 0x5C, 0x61] [0x64] =
     Inr [0x64, 0x2F, 0x25, 0x32, 0x45, 0x25, 0x32, 0x45, 0x2F, 0x61]
   \<and> (\<exists>relative. translate_par2_name_to_relative False [0x2E, 0x2E, 0x5C, 0x61] = Inr relative
    \<and> list_all (safe_component False) (str_split 0x2F relative)
    \<and> set (path_components relative) \<subseteq> insert CurDir (Normal ` UNIV)
    \<and> take 1 relative \<noteq> [0x2F]
    \<and> translate_par2_name_to_local_path [0x2E, 0x2E, 0x5C, 0x61] [0x64] = Inr (path_join [0x64] relative))"
proof
  show "translate_par2_name_to_local_path [0x2E, 0x2E, 0x5C, 0x61] [0x64] =
     Inr [0x64, 0x2F, 0x25, 0x32, 0x45, 0x25, 0x32, 0x45, 0x2F, 0x61]" by code_simp
qed (rule par2_name_stays_below_base, simp)

end
