(* ===== verification/Par2_Roundtrip.thy ===== *)
theory Par2_Roundtrip
  imports Par2_Names
begin

text \<open>
  What the creator writes, the parser reads: an encoded packet is accepted at
  its exact length whatever follows it, and the bodies of the critical packets
  give back the fields of the sources they were built from. Conversely every
  accepted packet has the framing and the digest its header states.
\<close>

section \<open>Facts: headers\<close>

lemma length_MAGIC [simp]: "length MAGIC = 8"
  by (simp add: MAGIC_def)

lemma length_types [simp]:
  "length TYPE_MAIN = 16" "length TYPE_FILE_DESC = 16" "length TYPE_IFSC = 16"
  "length TYPE_RECOVERY = 16" "length TYPE_CREATOR = 16"
  by (simp_all add: TYPE_MAIN_def TYPE_FILE_DESC_def TYPE_IFSC_def TYPE_RECOVERY_def TYPE_CREATOR_def PAR_2_0_def)

lemma from_signature_types [simp]:
  "from_signature TYPE_MAIN = PtMain" "from_signature TYPE_FILE_DESC = PtFileDescription"
  "from_signature TYPE_IFSC = PtInputFileSliceChecksum" "from_signature TYPE_RECOVERY = PtRecoverySlice"
  "from_signature TYPE_CREATOR = PtCreator"
  by (simp_all add: from_signature_def TYPE_MAIN_def TYPE_FILE_DESC_def TYPE_IFSC_def TYPE_RECOVERY_def TYPE_CREATOR_def)

lemma unat_of_nat_u64: "n < 2 ^ 64 \<Longrightarrow> unat (of_nat n :: u64) = n"
  by (simp add: unsigned_of_nat take_bit_nat_eq_self)

lemma of_nat_u64_mod_4: "n < 2 ^ 64 \<Longrightarrow> (of_nat n :: u64) mod 4 = 0 \<longleftrightarrow> n mod 4 = 0"
  by (simp only: word_unat_eq_iff unat_mod unat_of_nat_u64) simp

lemma unat_HEADER_SIZE: "unat (of_nat HEADER_SIZE :: u64) = HEADER_SIZE"
  by (simp add: HEADER_SIZE_def)

lemma four_HEADER_SIZE: "(HEADER_SIZE + n) mod 4 = n mod 4"
  by (simp add: HEADER_SIZE_def mod_add_left_eq [symmetric])

text \<open>What the digest of the environment must give: sixteen bytes.\<close>

definition md5_length :: "digest \<Rightarrow> bool" where
  "md5_length md5 \<longleftrightarrow> (\<forall>x. length (md5 x) = 16)"

lemma md5_length_replicate: "md5_length (\<lambda>x. replicate 16 (f x))"
  by (simp add: md5_length_def)

lemma encode_packet_eq_Inr:
  "encode_packet md5 ty set_id body = Inr p \<longleftrightarrow>
     HEADER_SIZE + length body < 2 ^ 64 \<and> length body mod 4 = 0
     \<and> p = MAGIC @ to_le_bytes 8 (of_nat (HEADER_SIZE + length body) :: u64)
           @ packet_hash md5 set_id ty body @ set_id @ ty @ body"
  by (auto simp: encode_packet_def Let_def four_HEADER_SIZE)

lemma packet_header_of_encoded:
  assumes "encode_packet md5 ty set_id body = Inr p" "length ty = 16" "length set_id = 16" "md5_length md5"
  shows "packet_header_parse (p @ rest) offset = Inr
      \<lparr>ph_length = of_nat (length p), ph_packet_hash = packet_hash md5 set_id ty body,
       ph_recovery_set_id = set_id, ph_packet_type = from_signature ty\<rparr>"
    and "length p = HEADER_SIZE + length body"
    and "take 32 p = MAGIC @ to_le_bytes 8 (of_nat (length p) :: u64) @ packet_hash md5 set_id ty body"
    and "drop 32 p = set_id @ ty @ body"
proof -
  from assms(1) have p: "p = MAGIC @ to_le_bytes 8 (of_nat (HEADER_SIZE + length body) :: u64)
      @ packet_hash md5 set_id ty body @ set_id @ ty @ body"
    and small: "HEADER_SIZE + length body < 2 ^ 64" and four: "length body mod 4 = 0"
    by (simp_all add: encode_packet_eq_Inr)
  have h: "length (packet_hash md5 set_id ty body) = 16"
    using assms(4) by (simp add: packet_hash_def md5_length_def)
  show len: "length p = HEADER_SIZE + length body" using h assms(2,3) by (simp add: p HEADER_SIZE_def)
  show "take 32 p = MAGIC @ to_le_bytes 8 (of_nat (length p) :: u64) @ packet_hash md5 set_id ty body"
    unfolding len using h by (simp add: p)
  show "drop 32 p = set_id @ ty @ body" using h by (simp add: p)
  have u: "unat (of_nat (HEADER_SIZE + length body) :: u64) = HEADER_SIZE + length body"
    using small by (rule unat_of_nat_u64)
  have "\<not> (of_nat (HEADER_SIZE + length body) :: u64) < of_nat HEADER_SIZE"
    by (simp only: word_less_nat_alt u unat_HEADER_SIZE)
  moreover have "(of_nat (HEADER_SIZE + length body) :: u64) mod 4 = 0"
    using small four by (simp only: of_nat_u64_mod_4 four_HEADER_SIZE)
  ultimately show "packet_header_parse (p @ rest) offset = Inr
      \<lparr>ph_length = of_nat (length p), ph_packet_hash = packet_hash md5 set_id ty body,
       ph_recovery_set_id = set_id, ph_packet_type = from_signature ty\<rparr>"
    unfolding packet_header_parse_def len
    using h len assms(2,3)
    by (simp add: p Let_def del: of_nat_add)
qed

text \<open>The header a packet of the given parts has.\<close>

definition header_of :: "digest \<Rightarrow> bytes \<Rightarrow> bytes \<Rightarrow> bytes \<Rightarrow> packet_header" where
  "header_of md5 ty set_id body =
     \<lparr>ph_length = of_nat (HEADER_SIZE + length body), ph_packet_hash = packet_hash md5 set_id ty body,
      ph_recovery_set_id = set_id, ph_packet_type = from_signature ty\<rparr>"

lemma parse_packet_of_encoded:
  assumes "encode_packet md5 ty set_id body = Inr p" "length ty = 16" "length set_id = 16" "md5_length md5"
  shows "parse_packet_internal md5 windows (p @ rest) offset None =
    and_then (parse_packet_body windows (header_of md5 ty set_id body) body) (\<lambda>packet. Inr (packet, length p))"
proof -
  note h = packet_header_of_encoded [OF assms]
  have small: "length p < 2 ^ 64" using assms(1) h(2) by (simp add: encode_packet_eq_Inr)
  have u: "unat (of_nat (length p) :: u64) = length p" using small by (rule unat_of_nat_u64)
  have "drop HEADER_SIZE p = drop 32 (drop 32 p)" by (simp add: HEADER_SIZE_def)
  then have body: "drop HEADER_SIZE p = body" using assms(2,3) by (simp add: h(4))
  have body_take: "take (length p - HEADER_SIZE) body = body" using h(2) by simp
  have hash: "take (length p - 32) (drop 32 p) = set_id @ ty @ body"
    using h(2) assms(2,3) by (simp add: h(4) HEADER_SIZE_def)
  have "validate_hash md5 \<lparr>ph_length = of_nat (length p), ph_packet_hash = packet_hash md5 set_id ty body,
      ph_recovery_set_id = set_id, ph_packet_type = from_signature ty\<rparr> p offset = Inr ()"
    by (simp add: validate_hash_def u hash packet_hash_def)
  then show ?thesis
    by (simp add: parse_packet_internal_def h(1) u body body_take Let_def header_of_def h(2) [symmetric]
        split: packet_type.split)
qed

lemma parse_packet_InrD:
  assumes "parse_packet_internal md5 windows data offset recovery_path = Inr (packet, n)"
  shows "HEADER_SIZE \<le> n" "n \<le> length data" "n mod 4 = 0" "take 8 data = MAGIC"
    "n = unat (from_le_bytes (take 8 (drop 8 data)) :: u64)"
    "md5 (take (n - 32) (drop 32 data)) = take 16 (drop 16 data)"
proof -
  obtain header where h: "packet_header_parse data offset = Inr header" "n = unat (ph_length header)"
      "n \<le> length data" "validate_hash md5 header (take n data) offset = Inr ()"
    using assms by (auto simp: parse_packet_internal_def Let_def result_simps split: if_splits)
  show "n \<le> length data" by (rule h(3))
  show "take 8 data = MAGIC" using h(1) by (auto simp: packet_header_parse_def Let_def split: if_splits)
  show "HEADER_SIZE \<le> n" using h(1, 2)
    by (auto simp: packet_header_parse_def Let_def HEADER_SIZE_def word_less_nat_alt split: if_splits)
  show "n mod 4 = 0" using h(1, 2)
    by (auto simp: packet_header_parse_def Let_def word_unat_eq_iff unat_mod split: if_splits)
  show "n = unat (from_le_bytes (take 8 (drop 8 data)) :: u64)" using h(1, 2)
    by (auto simp: packet_header_parse_def Let_def split: if_splits)
  have "ph_packet_hash header = take 16 (drop 16 data)" using h(1)
    by (auto simp: packet_header_parse_def Let_def split: if_splits)
  then show "md5 (take (n - 32) (drop 32 data)) = take 16 (drop 16 data)"
    using h(2, 4) by (auto simp: validate_hash_def drop_take split: if_splits)
qed

section \<open>Facts: bodies\<close>

lemma entry_at_concat:
  assumes "\<forall>x\<in>set xs. length x = n" "i < length xs"
  shows "entry_at n (concat xs) i = xs ! i"
  using assms
proof (induction xs arbitrary: i)
  case (Cons x xs)
  then show ?case by (cases i) (simp_all add: entry_at_def)
qed simp

lemma length_concat_const: "\<forall>x\<in>set xs. length x = n \<Longrightarrow> length (concat xs) = length xs * n"
  by (induction xs) auto

lemma entries_of_concat:
  assumes "\<forall>x\<in>set xs. length x = n"
  shows "map (entry_at n (concat xs)) [0..<length xs] = xs"
  using assms by (intro nth_equalityI) (simp_all add: entry_at_concat)

text \<open>A source as the creator's scan leaves it, within the limits of the format.\<close>

definition valid_source :: "creation_source \<Rightarrow> bool" where
  "valid_source s \<longleftrightarrow> length (cs_file_id s) = 16 \<and> length (cs_hash_full s) = 16 \<and> length (cs_hash_16k s) = 16
     \<and> (cs_file_length s \<le> 16384 \<longrightarrow> cs_hash_16k s = cs_hash_full s)
     \<and> cs_par2_name s \<noteq> [] \<and> list_all (\<lambda>c. is_scalar c \<and> c \<noteq> 0) (cs_par2_name s)
     \<and> length (as_bytes (cs_par2_name s)) \<le> MAX_FILENAME_BYTES
     \<and> length (cs_slice_checksums s) \<le> MAX_CHECKSUM_ENTRIES
     \<and> list_all (\<lambda>c. length (sc_md5 c) = 16) (cs_slice_checksums s)"

text \<open>Padding rounds up to the next multiple of four.\<close>

lemma pad_up: "(n :: nat) + (4 - n mod 4) mod 4 = 4 * ((n + 3) div 4)"
proof -
  define q r where "q = n div 4" and "r = n mod 4"
  have n: "n = 4 * q + r" and r: "r < 4" by (simp_all add: q_def r_def)
  have "(4 * q + (r + 3)) div 4 = q + (r + 3) div 4" by (rule div_mult_self4) simp
  then have "4 * ((n + 3) div 4) = 4 * q + 4 * ((r + 3) div 4)" by (simp only: n add.assoc) simp
  moreover have "r = 0 \<or> r = 1 \<or> r = 2 \<or> r = 3" using r by linarith
  then have "r + (4 - r) mod 4 = 4 * ((r + 3) div 4)" by (elim disjE) simp_all
  ultimately show ?thesis unfolding r_def [symmetric] using n by simp
qed

lemma pad_body_mod_4: "length (pad_body body) mod 4 = 0"
  by (simp add: pad_body_def pad_up)

lemma main_body_roundtrip:
  assumes "slice_size \<noteq> 0" "slice_size mod 4 = 0" "length sources \<le> MAX_FILES_PER_SET"
    "list_all valid_source sources"
  shows "main_packet_parse (main_body slice_size sources) set_id =
    Inr \<lparr>mp_recovery_set_id = set_id, mp_slice_size = slice_size,
         mp_recovery_file_ids = map cs_file_id sources, mp_non_recovery_file_ids = []\<rparr>"
proof -
  have ids: "\<forall>x\<in>set (map cs_file_id sources). length x = 16"
    using assms(4) by (auto simp: list_all_iff valid_source_def)
  note area = length_concat_const [OF ids] entries_of_concat [OF ids]
  have "unat (of_nat (length sources) :: u32) = length sources"
    using assms(3) by (simp add: unsigned_of_nat take_bit_nat_eq_self MAX_FILES_PER_SET_def)
  then show ?thesis
    using assms(1-3) area by (simp add: main_packet_parse_def main_body_def Let_def)
qed

lemma until_nul_padded: "0 \<notin> set name \<Longrightarrow> until_nul (name @ replicate k 0) = name"
proof (induction name)
  case Nil
  then show ?case by (cases k) (simp_all add: until_nul_takeWhile)
qed (simp add: until_nul_takeWhile)

lemma file_desc_body_roundtrip:
  assumes "valid_source s"
  shows "file_description_packet_parse windows (file_desc_body s) =
    and_then (translate_par2_name_to_relative windows (cs_par2_name s)) (\<lambda>filename.
      Inr \<lparr>fd_file_id = cs_file_id s, fd_hash_full = cs_hash_full s, fd_hash_16k = cs_hash_16k s,
           fd_file_length = cs_file_length s, fd_filename = filename, fd_par2_name = cs_par2_name s,
           fd_par2_name_bytes = as_bytes (cs_par2_name s)\<rparr>)"
proof -
  let ?name = "as_bytes (cs_par2_name s)"
  define k where "k = (4 - length ?name mod 4) mod 4"
  have lens: "length (cs_file_id s) = 16" "length (cs_hash_full s) = 16" "length (cs_hash_16k s) = 16"
    using assms by (simp_all add: valid_source_def)
  have scalars: "\<forall>c\<in>set (cs_par2_name s). is_scalar c" and nz: "0 \<notin> set (cs_par2_name s)"
    using assms by (auto simp: valid_source_def list_all_iff)
  have dec: "decode_par2_name ?name = cs_par2_name s"
    by (simp add: decode_par2_name_def from_utf8_as_bytes [OF scalars])
  have ne: "?name \<noteq> []"
    using dec assms by (auto simp: decode_par2_name_def valid_source_def)
  have m: "length (cs_file_id s @ cs_hash_full s @ cs_hash_16k s @ to_le_bytes 8 (cs_file_length s) @ ?name) mod 4
      = length ?name mod 4"
    using lens by (simp add: mod_add_left_eq [symmetric])
  have body: "file_desc_body s = cs_file_id s @ cs_hash_full s @ cs_hash_16k s
      @ to_le_bytes 8 (cs_file_length s) @ ?name @ replicate k 0"
    unfolding file_desc_body_def pad_body_def m k_def by simp
  have "length ?name \<le> 100000" using assms by (simp add: valid_source_def MAX_FILENAME_BYTES_def)
  then have "length ?name + k \<le> 100000"
    using div_le_mono [of "length ?name + 3" 100003 4] unfolding k_def pad_up by simp
  moreover have "\<not> (cs_file_length s \<le> 16384 \<and> cs_hash_16k s \<noteq> cs_hash_full s)"
    using assms by (simp add: valid_source_def)
  ultimately show ?thesis
    using lens ne until_nul_padded [OF as_bytes_nonzero [OF nz]]
    by (cases "cs_file_length s \<le> 16384")
      (simp_all add: file_description_packet_parse_def body FIXED_BODY_SIZE_def MAX_FILENAME_BYTES_def
        Let_def dec)
qed

lemma ifsc_body_roundtrip:
  assumes "valid_source s"
  shows "ifsc_packet_parse (ifsc_body s) =
    Inr \<lparr>if_file_id = cs_file_id s, if_checksums = cs_slice_checksums s\<rparr>"
proof -
  let ?enc = "\<lambda>c. sc_md5 c @ to_le_bytes 4 (sc_crc32 c)"
  let ?cs = "cs_slice_checksums s"
  have id: "length (cs_file_id s) = 16" and count: "length ?cs \<le> MAX_CHECKSUM_ENTRIES"
    and md5s: "\<forall>c\<in>set ?cs. length (sc_md5 c) = 16"
    using assms by (auto simp: valid_source_def list_all_iff)
  have entries: "\<forall>x\<in>set (map ?enc ?cs). length x = 20" using md5s by auto
  note area = length_concat_const [OF entries] entries_of_concat [OF entries]
  have "map (ifsc_entry \<circ> ?enc) ?cs = ?cs"
    using md5s by (intro map_idI) (auto simp: ifsc_entry_def)
  then have decoded: "map ifsc_entry (map (entry_at 20 (concat (map ?enc ?cs))) [0..<length ?cs]) = ?cs"
    using area(2) by simp
  have body: "ifsc_body s = cs_file_id s @ concat (map ?enc ?cs)"
    using area(1) id by (simp add: ifsc_body_def pad_body_def mod_mult_right_eq)
  show ?thesis
    using id count area(1) decoded
    by (simp add: ifsc_packet_parse_def body Let_def CHECKSUM_ENTRY_SIZE_def)
qed

section \<open>Properties\<close>

text \<open>C14: no packet is accepted on trust: what the parser accepts starts with the magic, has the
  length its header states (at least a header, a multiple of four, and no more than there is)
  and the MD5 of everything after the digest field is the digest in the header.\<close>

theorem accepted_packet_authentic:
  assumes "parse_packet_internal md5 windows data offset recovery_path = Inr (packet, n)"
  shows "take 8 data = MAGIC \<and> n = unat (from_le_bytes (take 8 (drop 8 data)) :: u64)
    \<and> HEADER_SIZE \<le> n \<and> n mod 4 = 0 \<and> n \<le> length data
    \<and> md5 (take (n - 32) (drop 32 data)) = take 16 (drop 16 data)"
  using parse_packet_InrD [OF assms] by blast

theorem accepted_packet_authentic_witness:
  "let md5 = \<lambda>x. replicate 16 (fold (\<lambda>b a. a XOR b) x 0);
       data = MAGIC @ to_le_bytes 8 (68 :: u64) @ md5 (replicate 16 1 @ TYPE_CREATOR @ [0x70, 0x32, 0, 0])
              @ replicate 16 1 @ TYPE_CREATOR @ [0x70, 0x32, 0, 0] @ [9]
   in parse_packet_internal md5 False data 0 None = Inr (CreatorPkt [0x70, 0x32], 68)
      \<and> md5 (take (68 - 32) (drop 32 data)) = take 16 (drop 16 data)"
proof -
  let ?md5 = "\<lambda>x. replicate 16 (fold (\<lambda>b a. a XOR b) x (0 :: u8))"
  let ?body = "[0x70, 0x32, 0, 0] :: bytes"
  let ?p = "MAGIC @ to_le_bytes 8 (68 :: u64) @ ?md5 (replicate 16 1 @ TYPE_CREATOR @ ?body)
              @ replicate 16 1 @ TYPE_CREATOR @ ?body"
  have enc: "encode_packet ?md5 TYPE_CREATOR (replicate 16 1) ?body = Inr ?p"
    by (simp add: encode_packet_eq_Inr packet_hash_def HEADER_SIZE_def)
  have "from_utf8_lossy (until_nul ?body) = [0x70, 0x32]" by code_simp
  then have creator: "creator_packet_parse ?body = Inr [0x70, 0x32]"
    by (simp add: creator_packet_parse_def MAX_CREATOR_BYTES_def)
  have len: "length ?p = 68" by simp
  have "parse_packet_internal ?md5 False (?p @ [9]) 0 None = Inr (CreatorPkt [0x70, 0x32], 68)"
    unfolding parse_packet_of_encoded [OF enc length_types(5) length_replicate md5_length_replicate] len
    by (simp add: parse_packet_body_def header_of_def creator)
  then show ?thesis using accepted_packet_authentic [of ?md5 False "?p @ [9]" 0 None]
    unfolding Let_def append_assoc by blast
qed

end
