(* ===== verification/Par2_Budget.thy ===== *)
theory Par2_Budget
  imports Par2_Packets
begin

text \<open>
  The meters behind one packet-inventory load (\<open>par2-rs/src/packet/budget.rs\<close>).
  Sizes are 64-bit words (\<open>usize\<close> on the supported targets). A cancellation
  token is a schedule: \<open>bud_cancel\<close> says for the \<open>k\<close>-th poll whether the token has
  fired by then, and \<open>bud_polls\<close> counts the polls. The sizes of the packet types
  in memory, which the compiler chooses, are a parameter: the record \<open>layout\<close>.

  The fingerprints of scanned volumes, which only decide whether a payload is
  hashed a second time, are not part of the model.
\<close>

section \<open>Limits and meters\<close>

definition MAX_RECOVERY_EXPONENT :: u32 where
  "MAX_RECOVERY_EXPONENT = 65535"

definition RECOVERY_EXPONENT_DOMAIN :: nat where
  "RECOVERY_EXPONENT_DOMAIN = unat MAX_RECOVERY_EXPONENT + 1"

definition DEFAULT_MAX_RETAINED_PACKETS :: nat where
  "DEFAULT_MAX_RETAINED_PACKETS = 2 + 2 * MAX_FILES_PER_SET + RECOVERY_EXPONENT_DOMAIN"

definition DEFAULT_INVENTORY_REDUNDANCY :: nat where
  "DEFAULT_INVENTORY_REDUNDANCY = 32"

definition DEFAULT_MAX_EXAMINED_PACKETS :: nat where
  "DEFAULT_MAX_EXAMINED_PACKETS = DEFAULT_MAX_RETAINED_PACKETS * DEFAULT_INVENTORY_REDUNDANCY"

definition DEFAULT_MAX_RETAINED_METADATA_BYTES :: nat where
  "DEFAULT_MAX_RETAINED_METADATA_BYTES = 128 * 1024 * 1024"

definition RETAINED_SLOT_OVERHEAD_BYTES :: u64 where
  "RETAINED_SLOT_OVERHEAD_BYTES = 64"

record packet_scan_limits =
  lim_max_retained_packets :: u64
  lim_max_examined_packets :: u64
  lim_max_retained_metadata_bytes :: u64

definition default_limits :: packet_scan_limits where
  "default_limits = \<lparr>lim_max_retained_packets = of_nat DEFAULT_MAX_RETAINED_PACKETS,
     lim_max_examined_packets = of_nat DEFAULT_MAX_EXAMINED_PACKETS,
     lim_max_retained_metadata_bytes = of_nat DEFAULT_MAX_RETAINED_METADATA_BYTES\<rparr>"

record packet_scan_budget =
  bud_limits :: packet_scan_limits
  bud_cancel :: "(nat \<Rightarrow> bool) option"
  bud_polls :: nat
  bud_examined :: u64
  bud_retained_packets :: u64
  bud_retained_bytes :: u64

definition budget_new :: "packet_scan_limits \<Rightarrow> packet_scan_budget" where
  "budget_new limits = \<lparr>bud_limits = limits, bud_cancel = None, bud_polls = 0, bud_examined = 0,
     bud_retained_packets = 0, bud_retained_bytes = 0\<rparr>"

definition with_cancellation :: "packet_scan_limits \<Rightarrow> (nat \<Rightarrow> bool) option \<Rightarrow> packet_scan_budget" where
  "with_cancellation limits cancel = (budget_new limits)\<lparr>bud_cancel := cancel\<rparr>"

section \<open>Charges\<close>

type_synonym 'a metered = "'a par2_result \<times> packet_scan_budget"

definition saturating_sub :: "'a::len word \<Rightarrow> 'a word \<Rightarrow> 'a word" where
  "saturating_sub a b = (if b \<le> a then a - b else 0)"

definition saturating_add :: "'a::len word \<Rightarrow> 'a word \<Rightarrow> 'a word" where
  "saturating_add a b = (case checked_add a b of Some c \<Rightarrow> c | None \<Rightarrow> - 1)"

definition check_cancelled :: "packet_scan_budget \<Rightarrow> unit metered" where
  "check_cancelled b =
     (case bud_cancel b of
        None \<Rightarrow> (Inr (), b)
      | Some fired \<Rightarrow>
          (if fired (bud_polls b) then Inl Cancelled else Inr (), b\<lparr>bud_polls := Suc (bud_polls b)\<rparr>))"

definition charge_examined :: "packet_scan_budget \<Rightarrow> unit metered" where
  "charge_examined b =
     io_then (check_cancelled b) (\<lambda>_ b.
       case checked_add (bud_examined b) 1 of
         None \<Rightarrow> (Inl ResourceLimitExceeded, b)
       | Some examined \<Rightarrow>
           if examined > lim_max_examined_packets (bud_limits b) then (Inl ResourceLimitExceeded, b)
           else (Inr (), b\<lparr>bud_examined := examined\<rparr>))"

definition charge_bytes :: "u64 \<Rightarrow> packet_scan_budget \<Rightarrow> unit metered" where
  "charge_bytes n b =
     io_then (check_cancelled b) (\<lambda>_ b.
       case checked_add (bud_retained_bytes b) n of
         None \<Rightarrow> (Inl ResourceLimitExceeded, b)
       | Some retained \<Rightarrow>
           if retained > lim_max_retained_metadata_bytes (bud_limits b) then (Inl ResourceLimitExceeded, b)
           else (Inr (), b\<lparr>bud_retained_bytes := retained\<rparr>))"

definition charge_retained :: "u64 \<Rightarrow> packet_scan_budget \<Rightarrow> unit metered" where
  "charge_retained n b =
     (case checked_add (bud_retained_packets b) 1 of
        None \<Rightarrow> (Inl ResourceLimitExceeded, b)
      | Some packets \<Rightarrow>
          if packets > lim_max_retained_packets (bud_limits b) then (Inl ResourceLimitExceeded, b)
          else io_then (charge_bytes n b) (\<lambda>_ b. (Inr (), b\<lparr>bud_retained_packets := packets\<rparr>)))"

definition release_bytes :: "u64 \<Rightarrow> packet_scan_budget \<Rightarrow> packet_scan_budget" where
  "release_bytes n b = b\<lparr>bud_retained_bytes := saturating_sub (bud_retained_bytes b) n\<rparr>"

definition release_retained :: "u64 \<Rightarrow> packet_scan_budget \<Rightarrow> packet_scan_budget" where
  "release_retained n b =
     release_bytes n (b\<lparr>bud_retained_packets := saturating_sub (bud_retained_packets b) 1\<rparr>)"

text \<open>\<open>str::len\<close> and \<open>Vec::len\<close>.\<close>

definition len_u64 :: "'a list \<Rightarrow> u64" where
  "len_u64 xs = of_nat (length xs)"

definition interned_path_bytes :: "rstring \<Rightarrow> u64" where
  "interned_path_bytes path = len_u64 (as_bytes path) + 2 * 8"

record layout =
  lay_packet :: "packet_type \<Rightarrow> u64"
  lay_file_id :: u64
  lay_checksum :: u64
  lay_scanned :: u64

definition packet_retained_bytes :: "layout \<Rightarrow> packet \<Rightarrow> u64" where
  "packet_retained_bytes lay packet =
     saturating_add
       (case packet of
          MainPkt main \<Rightarrow> saturating_add (lay_packet lay PtMain)
            (saturating_mul (saturating_add (len_u64 (mp_recovery_file_ids main))
                               (len_u64 (mp_non_recovery_file_ids main))) (lay_file_id lay))
        | FileDescriptionPkt desc \<Rightarrow> saturating_add (saturating_add (saturating_add
            (lay_packet lay PtFileDescription) (len_u64 (as_bytes (fd_filename desc))))
            (len_u64 (as_bytes (fd_par2_name desc)))) (len_u64 (fd_par2_name_bytes desc))
        | InputFileSliceChecksumPkt ifsc \<Rightarrow> saturating_add (lay_packet lay PtInputFileSliceChecksum)
            (saturating_mul (len_u64 (if_checksums ifsc)) (lay_checksum lay))
        | RecoverySlicePkt _ \<Rightarrow> lay_packet lay PtRecoverySlice
        | CreatorPkt creator_id \<Rightarrow> saturating_add (lay_packet lay PtCreator) (len_u64 (as_bytes creator_id))
        | UnicodeFilenamePkt name \<Rightarrow> saturating_add (lay_packet lay PtUnicodeFilename)
            (saturating_mul (len_u64 (as_bytes (uf_name name))) 5)
        | UnknownPkt sig body \<Rightarrow> saturating_add (lay_packet lay (PtUnknown [])) (len_u64 body))
       RETAINED_SLOT_OVERHEAD_BYTES"

section \<open>Facts\<close>

text \<open>The meters never exceed their limits.\<close>

definition within_limits :: "packet_scan_budget \<Rightarrow> bool" where
  "within_limits b \<longleftrightarrow>
     bud_examined b \<le> lim_max_examined_packets (bud_limits b)
     \<and> bud_retained_packets b \<le> lim_max_retained_packets (bud_limits b)
     \<and> bud_retained_bytes b \<le> lim_max_retained_metadata_bytes (bud_limits b)"

lemmas charge_defs = charge_examined_def charge_bytes_def charge_retained_def check_cancelled_def

lemma check_cancelled_None [simp]: "bud_cancel b = None \<Longrightarrow> check_cancelled b = (Inr (), b)"
  by (simp add: check_cancelled_def)

lemma charge_keeps [simp]:
  "bud_cancel (snd (check_cancelled b)) = bud_cancel b" "bud_limits (snd (check_cancelled b)) = bud_limits b"
  "bud_cancel (snd (charge_examined b)) = bud_cancel b" "bud_limits (snd (charge_examined b)) = bud_limits b"
  "bud_cancel (snd (charge_bytes n b)) = bud_cancel b" "bud_limits (snd (charge_bytes n b)) = bud_limits b"
  "bud_cancel (snd (charge_retained n b)) = bud_cancel b" "bud_limits (snd (charge_retained n b)) = bud_limits b"
  by (simp_all add: charge_defs io_then_def split: option.split sum.split prod.split)

lemma charge_within_limits:
  assumes "within_limits b"
  shows "within_limits (snd (check_cancelled b))" "within_limits (snd (charge_examined b))"
    "within_limits (snd (charge_bytes n b))" "within_limits (snd (charge_retained n b))"
  using assms by (auto simp: within_limits_def charge_defs io_then_def split: option.split sum.split prod.split)

lemma saturating_sub_le: "saturating_sub a b \<le> (a :: 'a::len word)"
  by (auto simp: saturating_sub_def word_le_nat_alt unat_sub)

lemma release_within_limits:
  assumes "within_limits b"
  shows "within_limits (release_bytes n b)" "within_limits (release_retained n b)"
  using assms by (auto simp: within_limits_def release_bytes_def release_retained_def
      intro: order_trans [OF saturating_sub_le])

lemma refused_charge_retained:
  assumes "charge_retained n b = (Inl e, b')"
  shows "bud_retained_packets b' = bud_retained_packets b \<and> bud_retained_bytes b' = bud_retained_bytes b
    \<and> bud_examined b' = bud_examined b"
  using assms by (auto simp: charge_defs io_then_def split: option.splits sum.splits prod.splits if_splits)

end
