(* ===== verification/Par2_Scan.thy ===== *)
theory Par2_Scan
  imports Par2_Roundtrip Par2_Budget
begin

text \<open>
  The scan of a byte stream for PAR2 packets (\<open>par2-rs/src/packet/mod.rs\<close>):
  packets are parsed where they stand and handed to a sink one at a time, and
  damage is skipped by searching for the next magic.

  A sink is a function on the shared budget and its own state. The interface it
  has to keep is the locale \<open>packet_sink\<close>; under it a scan is the delivery, in
  order, of the packets found by trying every byte position.
\<close>

section \<open>Sinks\<close>

type_synonym 's scan_state = "packet_scan_budget \<times> 's"

type_synonym 's sink = "packet \<Rightarrow> u64 \<Rightarrow> bytes \<Rightarrow> 's scan_state \<Rightarrow> unit par2_result \<times> 's scan_state"

definition on_budget :: "(packet_scan_budget \<Rightarrow> 'a metered) \<Rightarrow> 's scan_state \<Rightarrow> 'a par2_result \<times> 's scan_state" where
  "on_budget f st = (case f (fst st) of (res, b) \<Rightarrow> (res, (b, snd st)))"

record scanned_packet =
  sp_packet :: packet
  sp_offset :: u64
  sp_recovery_set_id :: bytes

text \<open>Keeps every packet it is handed, charging each one and the slot it takes in the vector.\<close>

definition collecting_accept :: "layout \<Rightarrow> scanned_packet list sink" where
  "collecting_accept lay packet offset set_id st =
     io_then (on_budget (charge_retained (packet_retained_bytes lay packet)) st)
       (\<lambda>_ st. io_then (on_budget (charge_bytes (lay_scanned lay)) st) (\<lambda>_ (b, packets).
         (Inr (), (b, packets @ [\<lparr>sp_packet = packet, sp_offset = offset, sp_recovery_set_id = set_id\<rparr>]))))"

section \<open>The scan in memory\<close>

definition find_next_magic :: "bytes \<Rightarrow> nat option" where
  "find_next_magic data =
     (if length data < length MAGIC then None
      else find (\<lambda>i. take (length MAGIC) (drop i data) = MAGIC) [0..<length data - length MAGIC + 1])"

definition header_recovery_set_id :: "bytes \<Rightarrow> bytes" where
  "header_recovery_set_id packet = take 16 (drop 32 packet)"

text \<open>An examined packet: charged, and handed over unless its type is unknown.\<close>

definition deliver :: "'s sink \<Rightarrow> packet \<Rightarrow> u64 \<Rightarrow> bytes \<Rightarrow> 's scan_state \<Rightarrow> unit par2_result \<times> 's scan_state" where
  "deliver accept packet offset set_id st =
     io_then (on_budget charge_examined st) (\<lambda>_ st.
       case packet of UnknownPkt _ _ \<Rightarrow> (Inr (), st) | _ \<Rightarrow> accept packet offset set_id st)"

lemma parse_packet_consumes:
  "parse_packet_internal md5 windows data offset recovery_path = Inr (packet, n) \<Longrightarrow> 0 < n"
  using parse_packet_InrD(1) by (fastforce simp: HEADER_SIZE_def)

function scan_packets_internal ::
    "digest \<Rightarrow> bool \<Rightarrow> 's sink \<Rightarrow> bytes \<Rightarrow> u64 \<Rightarrow> rstring option \<Rightarrow> nat \<Rightarrow> 's scan_state
       \<Rightarrow> unit par2_result \<times> 's scan_state" where
  "scan_packets_internal md5 windows accept data base_offset recovery_path pos st =
     (if pos + HEADER_SIZE \<le> length data then
        (case on_budget check_cancelled st of
           (Inl e, st) \<Rightarrow> (Inl e, st)
         | (Inr _, st) \<Rightarrow>
             let offset = base_offset + of_nat pos in
             case parse_packet_internal md5 windows (drop pos data) offset recovery_path of
               Inr (packet, consumed) \<Rightarrow>
                 (case deliver accept packet offset (header_recovery_set_id (drop pos data)) st of
                    (Inl e, st) \<Rightarrow> (Inl e, st)
                  | (Inr _, st) \<Rightarrow>
                      scan_packets_internal md5 windows accept data base_offset recovery_path (pos + consumed) st)
             | Inl ResourceLimitExceeded \<Rightarrow> (Inl ResourceLimitExceeded, st)
             | Inl Cancelled \<Rightarrow> (Inl Cancelled, st)
             | Inl _ \<Rightarrow>
                 (case find_next_magic (drop (pos + 1) data) of
                    Some skip \<Rightarrow>
                      scan_packets_internal md5 windows accept data base_offset recovery_path (pos + (skip + 1)) st
                  | None \<Rightarrow> (Inr (), st)))
      else (Inr (), st))"
  by pat_completeness auto
termination
  by (relation "measure (\<lambda>(_, _, _, data, _, _, pos, _). length data - pos)")
    (auto simp: HEADER_SIZE_def dest: parse_packet_consumes)

declare scan_packets_internal.simps [simp del]

definition scan_packets_bounded ::
    "digest \<Rightarrow> bool \<Rightarrow> 's sink \<Rightarrow> bytes \<Rightarrow> u64 \<Rightarrow> 's scan_state \<Rightarrow> unit par2_result \<times> 's scan_state" where
  "scan_packets_bounded md5 windows accept data base_offset st =
     scan_packets_internal md5 windows accept data base_offset None 0 st"

definition scan_packets_with_limits ::
    "digest \<Rightarrow> bool \<Rightarrow> layout \<Rightarrow> bytes \<Rightarrow> u64 \<Rightarrow> packet_scan_limits \<Rightarrow> (packet \<times> u64) list par2_result" where
  "scan_packets_with_limits md5 windows lay data base_offset limits =
     (case scan_packets_bounded md5 windows (collecting_accept lay) data base_offset (budget_new limits, []) of
        (Inl e, _) \<Rightarrow> Inl e
      | (Inr _, (_, packets)) \<Rightarrow> Inr (map (\<lambda>s. (sp_packet s, sp_offset s)) packets))"

definition scan_packets ::
    "digest \<Rightarrow> bool \<Rightarrow> layout \<Rightarrow> bytes \<Rightarrow> u64 \<Rightarrow> (packet \<times> u64) list par2_result" where
  "scan_packets md5 windows lay data base_offset =
     scan_packets_with_limits md5 windows lay data base_offset default_limits"

section \<open>The reference: every byte position\<close>

text \<open>The packets of a stream, found by trying to parse one at each byte position.\<close>

function packets_from ::
    "digest \<Rightarrow> bool \<Rightarrow> bytes \<Rightarrow> u64 \<Rightarrow> rstring option \<Rightarrow> nat \<Rightarrow> (packet \<times> u64 \<times> bytes) list" where
  "packets_from md5 windows data base_offset recovery_path pos =
     (if pos + HEADER_SIZE \<le> length data then
        let offset = base_offset + of_nat pos in
        case parse_packet_internal md5 windows (drop pos data) offset recovery_path of
          Inr (packet, consumed) \<Rightarrow>
            (packet, offset, header_recovery_set_id (drop pos data))
            # packets_from md5 windows data base_offset recovery_path (pos + consumed)
        | Inl _ \<Rightarrow> packets_from md5 windows data base_offset recovery_path (pos + 1)
      else [])"
  by pat_completeness auto
termination
  by (relation "measure (\<lambda>(_, _, data, _, _, pos). length data - pos)")
    (auto simp: HEADER_SIZE_def dest: parse_packet_consumes)

declare packets_from.simps [simp del]

primrec deliver_all :: "'s sink \<Rightarrow> (packet \<times> u64 \<times> bytes) list \<Rightarrow> 's scan_state \<Rightarrow> unit par2_result \<times> 's scan_state" where
  "deliver_all accept [] st = (Inr (), st)"
| "deliver_all accept (x # xs) st =
     io_then (deliver accept (fst x) (fst (snd x)) (snd (snd x)) st) (\<lambda>_ st. deliver_all accept xs st)"

section \<open>Facts\<close>

lemma find_first_upt_Some: "find p [0..<n] = Some i \<longleftrightarrow> i < n \<and> p i \<and> (\<forall>j<i. \<not> p j)"
  by (auto simp: find_Some_iff)

lemma find_first_upt_None: "find p [0..<n] = None \<longleftrightarrow> (\<forall>i<n. \<not> p i)"
  by (auto simp: find_None_iff)

lemma magic_in_bounds: "take 8 (drop i data) = MAGIC \<Longrightarrow> i + 8 \<le> length data"
  using length_take [of 8 "drop i data"] by simp

lemma find_next_magic_Some:
  "find_next_magic data = Some i \<longleftrightarrow> take 8 (drop i data) = MAGIC \<and> (\<forall>j<i. take 8 (drop j data) \<noteq> MAGIC)"
  using magic_in_bounds [of i data] unfolding find_next_magic_def length_MAGIC find_first_upt_Some
  by (auto simp: find_first_upt_Some simp del: upt_Suc)

lemma find_next_magic_None:
  "find_next_magic data = None \<longleftrightarrow> (\<forall>i. take 8 (drop i data) \<noteq> MAGIC)"
proof (cases "length data < 8")
  case True
  then have "take 8 (drop i data) \<noteq> MAGIC" for i using magic_in_bounds [of i data] by auto
  then show ?thesis using True by (simp add: find_next_magic_def)
next
  case False
  have "i < length data - 8 + 1" if "take 8 (drop i data) = MAGIC" for i
    using magic_in_bounds [OF that] by simp
  then show ?thesis
    using False unfolding find_next_magic_def length_MAGIC find_first_upt_None by (auto simp del: upt_Suc simp: find_first_upt_None)
qed

lemma parse_packet_magic:
  "take 8 data \<noteq> MAGIC \<Longrightarrow> \<exists>e. parse_packet_internal md5 windows data offset recovery_path = Inl e"
  using parse_packet_InrD(4) [of md5 windows data offset recovery_path]
  by (cases "parse_packet_internal md5 windows data offset recovery_path") auto

lemmas body_parse_defs = main_packet_parse_def file_description_packet_parse_def ifsc_packet_parse_def
  creator_packet_parse_def unicode_filename_packet_parse_def recovery_slice_packet_parse_def

lemma map_sum_eq_Inl: "map_sum id f x = Inl e \<longleftrightarrow> x = Inl e"
  by (cases x) auto

lemma translate_error: "translate_par2_name_to_relative windows name = Inl e \<Longrightarrow> e = InvalidFileDescPacket"
  by (auto simp: translate_par2_name_to_relative_def Let_def split: prod.splits if_splits)

lemma ok_or_eq_Inl: "ok_or x d = Inl e \<longleftrightarrow> x = None \<and> e = d"
  by (cases x) auto

lemma parse_packet_body_error:
  "parse_packet_body windows header body = Inl e \<Longrightarrow> e \<noteq> ResourceLimitExceeded \<and> e \<noteq> Cancelled"
  unfolding parse_packet_body_def
  by (auto simp: map_sum_eq_Inl body_parse_defs Let_def result_simps ok_or_eq_Inl
      split: packet_type.splits if_splits prod.splits dest!: translate_error)

lemma parse_packet_error:
  assumes "parse_packet_internal md5 windows data offset recovery_path = Inl e"
  shows "e \<noteq> ResourceLimitExceeded \<and> e \<noteq> Cancelled"
proof -
  have "(case ty of PtRecoverySlice \<Rightarrow> (case recovery_path of None \<Rightarrow> parse_packet_body windows header body
      | Some path \<Rightarrow> file_backed_recovery_packet path offset body)
      | _ \<Rightarrow> parse_packet_body windows header body) \<noteq> Inl e" if "e = ResourceLimitExceeded \<or> e = Cancelled"
    for ty header body
    using that parse_packet_body_error [of windows header body e]
    by (auto simp: file_backed_recovery_packet_def split: packet_type.split option.split)
  then show ?thesis
    using assms
    by (auto simp: parse_packet_internal_def packet_header_parse_def validate_hash_def Let_def result_simps
        split: if_splits)
qed

lemma packets_from_skip:
  assumes "pos \<le> pos'" "\<And>j. pos \<le> j \<Longrightarrow> j < pos' \<Longrightarrow> take 8 (drop j data) \<noteq> MAGIC"
  shows "packets_from md5 windows data base path pos = packets_from md5 windows data base path pos'"
  using assms
proof (induction "pos' - pos" arbitrary: pos)
  case (Suc n)
  then have "take 8 (drop pos data) \<noteq> MAGIC" by simp
  then obtain e where "parse_packet_internal md5 windows (drop pos data) (base + of_nat pos) path = Inl e"
    using parse_packet_magic by blast
  moreover have "packets_from md5 windows data base path (pos + 1) = packets_from md5 windows data base path pos'"
    using Suc.hyps(2) Suc.prems by (intro Suc.hyps(1)) auto
  moreover have "packets_from md5 windows data base path p = []" if "\<not> pos + HEADER_SIZE \<le> length data" "pos \<le> p" for p
    using that by (simp add: packets_from.simps)
  ultimately show ?case using Suc.prems(1) by (simp add: packets_from.simps [of _ _ _ _ _ pos])
qed simp

lemma packets_from_damage:
  assumes "pos + HEADER_SIZE \<le> length data"
    "parse_packet_internal md5 windows (drop pos data) (base + of_nat pos) path = Inl e"
  shows "packets_from md5 windows data base path pos =
    (case find_next_magic (drop (pos + 1) data) of
       None \<Rightarrow> [] | Some skip \<Rightarrow> packets_from md5 windows data base path (pos + (skip + 1)))"
proof -
  let ?from = "packets_from md5 windows data base path"
  have next_pos: "?from pos = ?from (pos + 1)" using assms by (simp add: packets_from.simps [of _ _ _ _ _ pos])
  have shift: "drop (j - (pos + 1)) (drop (pos + 1) data) = drop j data" if "pos + 1 \<le> j" for j
    using that by simp
  show ?thesis
  proof (cases "find_next_magic (drop (pos + 1) data)")
    case None
    have "take 8 (drop j data) \<noteq> MAGIC" if "pos + 1 \<le> j" for j
      using None unfolding find_next_magic_None shift [OF that, symmetric] by blast
    then have "?from (pos + 1) = ?from (length data)"
      using assms(1) by (intro packets_from_skip) (auto simp: HEADER_SIZE_def)
    then show ?thesis using None next_pos by (simp add: packets_from.simps [of _ _ _ _ _ "length data"] HEADER_SIZE_def)
  next
    case (Some skip)
    have "take 8 (drop j data) \<noteq> MAGIC" if "pos + 1 \<le> j" "j < pos + 1 + skip" for j
    proof -
      have "j - (pos + 1) < skip" using that by linarith
      then show ?thesis using Some unfolding find_next_magic_Some shift [OF that(1), symmetric] by blast
    qed
    then have "?from (pos + 1) = ?from (pos + 1 + skip)" by (intro packets_from_skip) auto
    then show ?thesis using Some next_pos by (simp add: add.assoc)
  qed
qed

section \<open>Every sink\<close>

locale packet_sink =
  fixes accept :: "'s sink"
  assumes accept_keeps_cancel: "bud_cancel (fst (snd (accept packet offset set_id st))) = bud_cancel (fst st)"
begin

lemma deliver_keeps_cancel:
  "bud_cancel (fst (snd (deliver accept packet offset set_id st))) = bud_cancel (fst st)"
proof -
  obtain res b where c: "charge_examined (fst st) = (res, b)" by fastforce
  then have "bud_cancel b = bud_cancel (fst st)" using charge_keeps(3) [of "fst st"] by simp
  then show ?thesis
    using accept_keeps_cancel [of packet offset set_id "(b, snd st)"]
    by (auto simp: deliver_def on_budget_def io_then_def c split: sum.split packet.split)
qed

lemma scan_delivers:
  assumes "bud_cancel (fst st) = None"
  shows "scan_packets_internal md5 windows accept data base path pos st =
    deliver_all accept (packets_from md5 windows data base path pos) st"
  using assms
proof (induction "length data - pos" arbitrary: pos st rule: less_induct)
  case less
  let ?off = "base + of_nat pos" and ?id = "header_recovery_set_id (drop pos data)"
  let ?scan = "scan_packets_internal md5 windows accept data base path"
  let ?from = "packets_from md5 windows data base path"
  have st: "on_budget check_cancelled st = (Inr (), st)" using less.prems by (simp add: on_budget_def)
  show ?case
  proof (cases "pos + HEADER_SIZE \<le> length data")
    case False
    then show ?thesis by (simp add: scan_packets_internal.simps packets_from.simps)
  next
    case True
    then have room: "pos < length data" by (simp add: HEADER_SIZE_def)
    show ?thesis
    proof (cases "parse_packet_internal md5 windows (drop pos data) ?off path")
      case (Inr r)
      obtain packet n where r: "r = (packet, n)" by fastforce
      have n: "0 < n" using Inr r parse_packet_consumes by fastforce
      obtain res st' where d: "deliver accept packet ?off ?id st = (res, st')" by (metis surj_pair)
      have "bud_cancel (fst st') = None" using deliver_keeps_cancel [of packet ?off ?id st] d less.prems by simp
      then have "?scan (pos + n) st' = deliver_all accept (?from (pos + n)) st'"
        using n room by (intro less.hyps) simp_all
      then show ?thesis
        using True Inr r d st
        by (cases res) (simp_all add: scan_packets_internal.simps [of _ _ _ _ _ _ pos] packets_from.simps [of _ _ _ _ _ pos])
    next
      case (Inl e)
      have e: "e \<noteq> ResourceLimitExceeded" "e \<noteq> Cancelled" using parse_packet_error [OF Inl] by auto
      have "?scan (pos + (skip + 1)) st = deliver_all accept (?from (pos + (skip + 1))) st" for skip
        using room less.prems by (intro less.hyps) simp_all
      then show ?thesis
        using True Inl e st unfolding packets_from_damage [OF True Inl]
        by (cases e) (simp_all add: scan_packets_internal.simps [of _ _ _ _ _ _ pos] split: option.split)
    qed
  qed
qed

end

section \<open>The collecting sink\<close>

lemma on_budget_eq: "on_budget f (b, s) = (fst (f b), (snd (f b), s))"
  by (simp add: on_budget_def split: prod.split)

interpretation collecting: packet_sink "collecting_accept lay" for lay
proof unfold_locales
  fix packet offset set_id and st :: "scanned_packet list scan_state"
  obtain b ps where st: "st = (b, ps)" by fastforce
  show "bud_cancel (fst (snd (collecting_accept lay packet offset set_id st))) = bud_cancel (fst st)"
    by (simp add: collecting_accept_def on_budget_eq st io_then_def charge_keeps split: sum.split prod.split)
qed

text \<open>What is handed on: everything but packets of unknown types.\<close>

definition known :: "packet \<times> u64 \<times> bytes \<Rightarrow> bool" where
  "known x \<longleftrightarrow> (case fst x of UnknownPkt _ _ \<Rightarrow> False | _ \<Rightarrow> True)"

definition scanned :: "packet \<times> u64 \<times> bytes \<Rightarrow> scanned_packet" where
  "scanned x = \<lparr>sp_packet = fst x, sp_offset = fst (snd x), sp_recovery_set_id = snd (snd x)\<rparr>"

text \<open>The metadata bytes the packets of a stream are charged, and when that fits a budget.\<close>

definition metadata_bytes :: "layout \<Rightarrow> (packet \<times> u64 \<times> bytes) list \<Rightarrow> nat" where
  "metadata_bytes lay xs = (\<Sum>x\<leftarrow>filter known xs. unat (packet_retained_bytes lay (fst x)) + unat (lay_scanned lay))"

definition fits :: "layout \<Rightarrow> packet_scan_budget \<Rightarrow> (packet \<times> u64 \<times> bytes) list \<Rightarrow> bool" where
  "fits lay b xs \<longleftrightarrow>
     unat (bud_examined b) + length xs \<le> unat (lim_max_examined_packets (bud_limits b))
     \<and> unat (bud_retained_packets b) + length (filter known xs) \<le> unat (lim_max_retained_packets (bud_limits b))
     \<and> unat (bud_retained_bytes b) + metadata_bytes lay xs \<le> unat (lim_max_retained_metadata_bytes (bud_limits b))"

lemma unat_u64_less: "unat (x :: u64) < 2 ^ 64"
  using unsigned_less [where 'a = nat, of x] by simp

lemma checked_add_exact:
  "(case checked_add a (c :: u64) of None \<Rightarrow> f | Some s \<Rightarrow> if s > limit then f else g s) =
     (if unat a + unat c \<le> unat limit then g (a + c) else f)"
proof (cases "unat a + unat c < 2 ^ 64")
  case True
  then have "unat (a + c) = unat a + unat c" by (simp add: unat_add_lem [symmetric])
  then show ?thesis using True by (auto simp: checked_add_def word_less_nat_alt)
next
  case False
  then show ?thesis using unat_u64_less [of limit] by (auto simp: checked_add_def)
qed

lemma charges_exact:
  assumes "bud_cancel b = None"
  shows "charge_examined b = (if unat (bud_examined b) + 1 \<le> unat (lim_max_examined_packets (bud_limits b))
      then (Inr (), b\<lparr>bud_examined := bud_examined b + 1\<rparr>) else (Inl ResourceLimitExceeded, b))"
    and "charge_bytes n b = (if unat (bud_retained_bytes b) + unat n \<le> unat (lim_max_retained_metadata_bytes (bud_limits b))
      then (Inr (), b\<lparr>bud_retained_bytes := bud_retained_bytes b + n\<rparr>) else (Inl ResourceLimitExceeded, b))"
    and "charge_retained n b = (if unat (bud_retained_packets b) + 1 \<le> unat (lim_max_retained_packets (bud_limits b))
        \<and> unat (bud_retained_bytes b) + unat n \<le> unat (lim_max_retained_metadata_bytes (bud_limits b))
      then (Inr (), b\<lparr>bud_retained_bytes := bud_retained_bytes b + n, bud_retained_packets := bud_retained_packets b + 1\<rparr>)
      else (Inl ResourceLimitExceeded, b))"
  using assms checked_add_exact [of "bud_examined b" 1]  checked_add_exact [of "bud_retained_packets b" 1]
  by (simp_all add: charge_examined_def charge_bytes_def charge_retained_def checked_add_exact)

lemma deliver_known:
  "deliver accept (fst x) (fst (snd x)) (snd (snd x)) st =
     io_then (on_budget charge_examined st) (\<lambda>_ st.
       if known x then accept (fst x) (fst (snd x)) (snd (snd x)) st else (Inr (), st))"
  by (simp add: deliver_def known_def io_then_def split: packet.split prod.split sum.split)

lemma unat_add_limit: "unat a + unat (c :: u64) \<le> unat (limit :: u64) \<Longrightarrow> unat (a + c) = unat a + unat c"
  using unat_u64_less [of limit] by (subst unat_add_lem [symmetric]) simp

lemma collecting_exact:
  fixes lay b packet
  defines "n \<equiv> packet_retained_bytes lay packet" and "m \<equiv> lay_scanned lay"
  assumes "bud_cancel b = None"
  shows "if unat (bud_retained_packets b) + 1 \<le> unat (lim_max_retained_packets (bud_limits b))
      \<and> unat (bud_retained_bytes b) + (unat n + unat m) \<le> unat (lim_max_retained_metadata_bytes (bud_limits b))
    then collecting_accept lay packet offset set_id (b, ps) =
      (Inr (), (b\<lparr>bud_retained_bytes := bud_retained_bytes b + n + m, bud_retained_packets := bud_retained_packets b + 1\<rparr>,
        ps @ [scanned (packet, offset, set_id)]))
    else \<exists>st. collecting_accept lay packet offset set_id (b, ps) = (Inl ResourceLimitExceeded, st)"
proof (cases "unat (bud_retained_packets b) + 1 \<le> unat (lim_max_retained_packets (bud_limits b))
    \<and> unat (bud_retained_bytes b) + unat n \<le> unat (lim_max_retained_metadata_bytes (bud_limits b))")
  case True
  then have "unat (bud_retained_bytes b + n) = unat (bud_retained_bytes b) + unat n"
    by (intro unat_add_limit) blast
  then show ?thesis
    using True assms(3)
    by (simp add: collecting_accept_def on_budget_eq charges_exact scanned_def n_def [symmetric] m_def [symmetric])
next
  case False
  then show ?thesis
    using assms(3) by (auto simp: collecting_accept_def on_budget_eq charges_exact n_def [symmetric])
qed

text \<open>One packet: refused exactly when it does not fit, and otherwise charged exactly what it costs.\<close>

lemma deliver_exact:
  assumes "bud_cancel b = None" "fits lay b []"
  shows "if fits lay b [x]
    then \<exists>b'. deliver (collecting_accept lay) (fst x) (fst (snd x)) (snd (snd x)) (b, ps) =
          (Inr (), (b', ps @ map scanned (filter known [x])))
        \<and> bud_cancel b' = None \<and> (\<forall>xs. fits lay b' xs \<longleftrightarrow> fits lay b (x # xs))
    else \<exists>st. deliver (collecting_accept lay) (fst x) (fst (snd x)) (snd (snd x)) (b, ps) = (Inl ResourceLimitExceeded, st)"
proof (cases "unat (bud_examined b) + 1 \<le> unat (lim_max_examined_packets (bud_limits b))")
  case False
  then show ?thesis using assms by (simp add: deliver_known on_budget_eq charges_exact fits_def)
next
  case True
  let ?b = "b\<lparr>bud_examined := bud_examined b + 1\<rparr>"
  let ?n = "packet_retained_bytes lay (fst x)" and ?m = "lay_scanned lay"
  have e: "unat (bud_examined b + 1) = unat (bud_examined b) + 1" using unat_add_limit [of "bud_examined b" 1] True by simp
  have d: "deliver (collecting_accept lay) (fst x) (fst (snd x)) (snd (snd x)) (b, ps) =
      (if known x then collecting_accept lay (fst x) (fst (snd x)) (snd (snd x)) (?b, ps) else (Inr (), (?b, ps)))"
    using True assms by (simp add: deliver_known on_budget_eq charges_exact)
  show ?thesis
  proof (cases "known x \<and> fits lay b [x]")
    case False
    then show ?thesis
      using True assms e collecting_exact [of ?b lay "fst x" "fst (snd x)" "snd (snd x)" ps]
      by (cases "known x") (auto simp: d fits_def metadata_bytes_def)
  next
    case True
    then have r: "unat (bud_retained_packets b) + 1 \<le> unat (lim_max_retained_packets (bud_limits b))"
      "unat (bud_retained_bytes b) + (unat ?n + unat ?m) \<le> unat (lim_max_retained_metadata_bytes (bud_limits b))"
      by (auto simp: fits_def metadata_bytes_def)
    have "unat (bud_retained_packets b + 1) = unat (bud_retained_packets b) + 1"
      "unat (bud_retained_bytes b + ?n + ?m) = unat (bud_retained_bytes b) + (unat ?n + unat ?m)"
      using r unat_add_limit [of "bud_retained_packets b" 1]
        unat_add_limit [of "bud_retained_bytes b" ?n "lim_max_retained_metadata_bytes (bud_limits b)"]
        unat_add_limit [of "bud_retained_bytes b + ?n" ?m "lim_max_retained_metadata_bytes (bud_limits b)"] by auto
    then show ?thesis
      using True r e assms collecting_exact [of ?b lay "fst x" "fst (snd x)" "snd (snd x)" ps]
      by (auto simp: d fits_def metadata_bytes_def)
  qed
qed

lemma deliver_all_exact:
  assumes "bud_cancel b = None" "fits lay b []"
  shows "if fits lay b xs
    then \<exists>b'. deliver_all (collecting_accept lay) xs (b, ps) = (Inr (), (b', ps @ map scanned (filter known xs)))
    else \<exists>st. deliver_all (collecting_accept lay) xs (b, ps) = (Inl ResourceLimitExceeded, st)"
  using assms
proof (induction xs arbitrary: b ps)
  case (Cons x xs)
  have sub: "fits lay b [x]" if "fits lay b (x # xs)"
    using that by (auto simp: fits_def metadata_bytes_def split: if_splits)
  show ?case
  proof (cases "fits lay b [x]")
    case True
    then obtain b' where b': "deliver (collecting_accept lay) (fst x) (fst (snd x)) (snd (snd x)) (b, ps) =
          (Inr (), (b', ps @ map scanned (filter known [x])))" "bud_cancel b' = None"
        "\<And>xs. fits lay b' xs \<longleftrightarrow> fits lay b (x # xs)"
      using deliver_exact [OF Cons.prems, of x ps] by auto
    then show ?thesis using Cons.IH [of b' "ps @ map scanned (filter known [x])"] True by (auto split: if_splits)
  next
    case False
    then show ?thesis using deliver_exact [OF Cons.prems, of x ps] sub by auto
  qed
qed simp

section \<open>A written packet is found\<close>

text \<open>Bytes that read as the given packet, whatever follows them.\<close>

definition reads_as :: "digest \<Rightarrow> bool \<Rightarrow> bytes \<Rightarrow> packet \<Rightarrow> bool" where
  "reads_as md5 windows p packet \<longleftrightarrow> HEADER_SIZE \<le> length p
     \<and> (\<forall>rest offset. parse_packet_internal md5 windows (p @ rest) offset None = Inr (packet, length p))"

lemma packets_from_written:
  assumes "list_all2 (reads_as md5 windows) ps packets"
  shows "map fst (packets_from md5 windows (pre @ concat ps) base None (length pre)) = packets"
  using assms
proof (induction arbitrary: pre rule: list_all2_induct)
  case Nil
  then show ?case by (simp add: packets_from.simps HEADER_SIZE_def)
next
  case (Cons p ps packet packets)
  have "map fst (packets_from md5 windows ((pre @ p) @ concat ps) base None (length (pre @ p))) = packets"
    by (rule Cons.IH)
  then show ?case
    using Cons.hyps(1) by (simp add: packets_from.simps [of _ _ _ _ _ "length pre"] reads_as_def)
qed

lemma encoded_reads_as:
  assumes "encode_packet md5 ty set_id body = Inr p" "length ty = 16" "length set_id = 16" "md5_length md5"
    "parse_packet_body windows (header_of md5 ty set_id body) body = Inr packet"
  shows "reads_as md5 windows p packet"
  using packet_header_of_encoded(2) [OF assms(1-4)] parse_packet_of_encoded [OF assms(1-4)] assms(5)
  by (simp add: reads_as_def)

lemma encode_each_reads_as:
  assumes "encode_each md5 ty set_id expected body sources = Inr ps"
    "length ty = 16" "length set_id = 16" "md5_length md5"
    "\<forall>s\<in>set sources. parse_packet_body windows (header_of md5 ty set_id (body s)) (body s) = Inr (f s)"
  shows "list_all2 (reads_as md5 windows) (map snd ps) (map f sources)"
  using assms(1,5)
proof (induction sources arbitrary: ps)
  case (Cons s sources)
  then show ?case using encoded_reads_as [OF _ assms(2-4)] by (auto simp: result_simps)
qed simp

text \<open>The packets a reader should get of the sources.\<close>

definition expected_packets :: "(rstring \<Rightarrow> rstring) \<Rightarrow> u64 \<Rightarrow> bytes \<Rightarrow> creation_source list \<Rightarrow> packet list" where
  "expected_packets local_name slice_size set_id sources =
     MainPkt \<lparr>mp_recovery_set_id = set_id, mp_slice_size = slice_size,
       mp_recovery_file_ids = map cs_file_id sources, mp_non_recovery_file_ids = []\<rparr>
     # map (\<lambda>s. FileDescriptionPkt \<lparr>fd_file_id = cs_file_id s, fd_hash_full = cs_hash_full s,
         fd_hash_16k = cs_hash_16k s, fd_file_length = cs_file_length s,
         fd_filename = local_name (cs_par2_name s), fd_par2_name = cs_par2_name s,
         fd_par2_name_bytes = as_bytes (cs_par2_name s)\<rparr>) sources
     @ map (\<lambda>s. InputFileSliceChecksumPkt \<lparr>if_file_id = cs_file_id s, if_checksums = cs_slice_checksums s\<rparr>) sources"

lemma critical_packets_read_as:
  assumes "md5_length md5" "length set_id = 16" "slice_size \<noteq> 0" "slice_size mod 4 = 0"
    "length sources \<le> MAX_FILES_PER_SET" "list_all valid_source sources"
    "\<forall>s\<in>set sources. translate_par2_name_to_relative windows (cs_par2_name s) = Inr (local_name (cs_par2_name s))"
    "build_critical_packets md5 slice_size set_id sources = Inr critical"
  shows "list_all2 (reads_as md5 windows) (map snd critical) (expected_packets local_name slice_size set_id sources)"
proof -
  obtain main descs ifscs where
    main: "encode_packet md5 TYPE_MAIN set_id (main_body slice_size sources) = Inr main" and
    descs: "encode_each md5 TYPE_FILE_DESC set_id (ExpFileDescription \<circ> cs_file_id) file_desc_body sources = Inr descs" and
    ifscs: "encode_each md5 TYPE_IFSC set_id (ExpInputFileSliceChecksum \<circ> cs_file_id) ifsc_body sources = Inr ifscs" and
    critical: "critical = (ExpMain, main) # descs @ ifscs"
    using assms(8) by (auto simp: build_critical_packets_def result_simps)
  have valid: "\<forall>s\<in>set sources. valid_source s" using assms(6) by (simp add: list_all_iff)
  note bodies = parse_packet_body_def header_of_def
  have 1: "reads_as md5 windows main (hd (expected_packets local_name slice_size set_id sources))"
    using assms(3-6)
    by (intro encoded_reads_as [OF main _ assms(2,1)]) (simp_all add: bodies main_body_roundtrip expected_packets_def)
  note 2 = encode_each_reads_as [OF descs _ assms(2,1)] and 3 = encode_each_reads_as [OF ifscs _ assms(2,1)]
  show ?thesis
    using 1 assms(7) valid unfolding critical expected_packets_def
    by (auto intro!: list_all2_appendI 2 3 simp: bodies file_desc_body_roundtrip ifsc_body_roundtrip)
qed

lemma encode_packet_total:
  "\<lbrakk>length body < 2 ^ 63; length body mod 4 = 0\<rbrakk> \<Longrightarrow> \<exists>p. encode_packet md5 ty set_id body = Inr p"
  by (simp add: encode_packet_eq_Inr HEADER_SIZE_def)

lemma encode_each_total:
  assumes "\<forall>s\<in>set sources. length (body s) < 2 ^ 63 \<and> length (body s) mod 4 = 0"
  shows "\<exists>ps. encode_each md5 ty set_id expected body sources = Inr ps"
  using assms
proof (induction sources)
  case (Cons s sources)
  obtain ps where "encode_each md5 ty set_id expected body sources = Inr ps" using Cons by auto
  moreover obtain p where "encode_packet md5 ty set_id (body s) = Inr p"
    using encode_packet_total [of "body s" md5 ty set_id] Cons.prems by auto
  ultimately show ?case by simp
qed simp

lemma length_pad_body: "length (pad_body body) \<le> length body + 3"
  by (simp add: pad_body_def) 

lemma build_critical_packets_total:
  assumes "length sources \<le> MAX_FILES_PER_SET" "list_all valid_source sources"
  shows "\<exists>critical. build_critical_packets md5 slice_size set_id sources = Inr critical"
proof -
  have valid: "\<forall>s\<in>set sources. valid_source s" using assms(2) by (simp add: list_all_iff)
  have "\<forall>x\<in>set (map cs_file_id sources). length x = 16" using valid by (auto simp: valid_source_def)
  from length_concat_const [OF this] obtain main
    where "encode_packet md5 TYPE_MAIN set_id (main_body slice_size sources) = Inr main"
    using encode_packet_total [of "main_body slice_size sources" md5 TYPE_MAIN set_id] assms(1)
    by (auto simp: main_body_def MAX_FILES_PER_SET_def)
  moreover have desc: "length (file_desc_body s) < 2 ^ 63" if "s \<in> set sources" for s
  proof -
    have "valid_source s" using valid that by blast
    then show ?thesis
      using length_pad_body [of "cs_file_id s @ cs_hash_full s @ cs_hash_16k s
        @ to_le_bytes 8 (cs_file_length s) @ as_bytes (cs_par2_name s)"]
      by (simp add: file_desc_body_def valid_source_def MAX_FILENAME_BYTES_def)
  qed
  moreover have ifsc: "length (ifsc_body s) < 2 ^ 63" if "s \<in> set sources" for s
  proof -
    have v: "valid_source s" using valid that by blast
    then have "\<forall>x\<in>set (map (\<lambda>c. sc_md5 c @ to_le_bytes 4 (sc_crc32 c)) (cs_slice_checksums s)). length x = 20"
      by (auto simp: valid_source_def list_all_iff)
    from length_concat_const [OF this] show ?thesis
      using v length_pad_body [of "cs_file_id s
        @ concat (map (\<lambda>c. sc_md5 c @ to_le_bytes 4 (sc_crc32 c)) (cs_slice_checksums s))"]
      by (simp add: ifsc_body_def valid_source_def MAX_CHECKSUM_ENTRIES_def)
  qed
  moreover have "\<exists>ps. encode_each md5 TYPE_FILE_DESC set_id (ExpFileDescription \<circ> cs_file_id) file_desc_body sources = Inr ps"
    using desc by (intro encode_each_total) (simp add: file_desc_body_def pad_body_mod_4 mod_eq_0_iff_dvd [symmetric])
  moreover have "\<exists>ps. encode_each md5 TYPE_IFSC set_id (ExpInputFileSliceChecksum \<circ> cs_file_id) ifsc_body sources = Inr ps"
    using ifsc by (intro encode_each_total) (simp add: ifsc_body_def pad_body_mod_4 mod_eq_0_iff_dvd [symmetric])
  ultimately show ?thesis by (auto simp: build_critical_packets_def)
qed

text \<open>The scan with the collecting sink, as a function of the packets of the stream.\<close>

lemma scan_packets_found:
  "scan_packets_with_limits md5 windows lay data base_offset limits =
    (let found = packets_from md5 windows data base_offset None 0 in
     if length found \<le> unat (lim_max_examined_packets limits)
       \<and> length (filter known found) \<le> unat (lim_max_retained_packets limits)
       \<and> metadata_bytes lay found \<le> unat (lim_max_retained_metadata_bytes limits)
     then Inr (map (\<lambda>x. (fst x, fst (snd x))) (filter known found))
     else Inl ResourceLimitExceeded)"
proof -
  let ?b = "budget_new limits" and ?found = "packets_from md5 windows data base_offset None 0"
  have new: "bud_cancel ?b = None" "fits lay ?b []" by (simp_all add: budget_new_def fits_def metadata_bytes_def)
  have "scan_packets_bounded md5 windows (collecting_accept lay) data base_offset (?b, []) =
      deliver_all (collecting_accept lay) ?found (?b, [])"
    unfolding scan_packets_bounded_def using new(1) by (intro collecting.scan_delivers) simp
  then show ?thesis
    using deliver_all_exact [OF new, of ?found "[]"]
    by (auto simp: scan_packets_with_limits_def Let_def fits_def budget_new_def scanned_def o_def)
qed

section \<open>A concrete set\<close>

text \<open>One source of five bytes in one slice, the exclusive or of the bytes in place of MD5, and sizes
  of the packet types.\<close>

definition sample_digest :: digest where
  "sample_digest = (\<lambda>x. replicate 16 (fold (\<lambda>b a. a XOR b) x 0))"

definition sample_source :: creation_source where
  "sample_source = \<lparr>cs_path = [0x61], cs_file_id = replicate 16 7, cs_hash_full = replicate 16 1,
     cs_hash_16k = replicate 16 1, cs_file_length = 5, cs_par2_name = [0x61],
     cs_slice_checksums = [\<lparr>sc_crc32 = 9, sc_md5 = replicate 16 3\<rparr>]\<rparr>"

definition sample_layout :: layout where
  "sample_layout = \<lparr>lay_packet = (\<lambda>_. 200), lay_file_id = 16, lay_checksum = 20, lay_scanned = 300\<rparr>"

definition sample_limits :: packet_scan_limits where
  "sample_limits = \<lparr>lim_max_retained_packets = 3, lim_max_examined_packets = 3,
     lim_max_retained_metadata_bytes = 2000\<rparr>"

section \<open>Properties\<close>

text \<open>C15: an in-memory scan returns every packet of a known type that trying each byte position in turn
  finds, with its offset and in order, although it looks for the next magic instead; or, exactly when
  the packets exceed one of the three limits, it says so. It never returns a part of them.\<close>

theorem scan_packets_exact:
  "scan_packets_with_limits md5 windows lay data base_offset limits =
    (let found = packets_from md5 windows data base_offset None 0 in
     if length found \<le> unat (lim_max_examined_packets limits)
       \<and> length (filter known found) \<le> unat (lim_max_retained_packets limits)
       \<and> metadata_bytes lay found \<le> unat (lim_max_retained_metadata_bytes limits)
     then Inr (map (\<lambda>x. (fst x, fst (snd x))) (filter known found))
     else Inl ResourceLimitExceeded)"
  by (rule scan_packets_found)

text \<open>C16: for valid sources the creator's critical packets can be built, and a scan of them gives back what
  was written: the main packet with the ids of the sources in order, then a description of each
  source, then the slice checksums of each; with limits that admit these packets and their metadata.\<close>

theorem critical_packets_scan_back:
  assumes "md5_length md5" "length set_id = 16" "slice_size \<noteq> 0" "slice_size mod 4 = 0"
    "length sources \<le> MAX_FILES_PER_SET" "list_all valid_source sources"
    "\<forall>s\<in>set sources. translate_par2_name_to_relative windows (cs_par2_name s) = Inr (local_name (cs_par2_name s))"
    "expected = expected_packets local_name slice_size set_id sources"
    "length expected \<le> unat (lim_max_examined_packets limits)"
    "length expected \<le> unat (lim_max_retained_packets limits)"
    "(\<Sum>packet\<leftarrow>expected. unat (packet_retained_bytes lay packet) + unat (lay_scanned lay))
       \<le> unat (lim_max_retained_metadata_bytes limits)"
  shows "\<exists>critical found. build_critical_packets md5 slice_size set_id sources = Inr critical
    \<and> scan_packets_with_limits md5 windows lay (concat (map snd critical)) base_offset limits = Inr found
    \<and> map fst found = expected"
proof -
  obtain critical where c: "build_critical_packets md5 slice_size set_id sources = Inr critical"
    using build_critical_packets_total [OF assms(5,6)] by blast
  let ?found = "packets_from md5 windows (concat (map snd critical)) base_offset None 0"
  have f: "map fst ?found = expected"
    using packets_from_written [OF critical_packets_read_as [OF assms(1-7) c], of "[]"] assms(8) by simp
  have "list_all (\<lambda>packet. known (packet, x)) expected" for x
    by (auto simp: assms(8) expected_packets_def known_def list_all_iff)
  then have "list_all known ?found" unfolding f [symmetric] by (auto simp: list_all_iff known_def)
  then have k: "filter known ?found = ?found" by (simp add: filter_id_conv list_all_iff)
  have len: "length ?found = length expected" unfolding f [symmetric] by simp
  have "metadata_bytes lay ?found = (\<Sum>packet\<leftarrow>map fst ?found. unat (packet_retained_bytes lay packet) + unat (lay_scanned lay))"
    by (simp add: metadata_bytes_def k o_def)
  then have "metadata_bytes lay ?found \<le> unat (lim_max_retained_metadata_bytes limits)" using assms(11) f by simp
  then show ?thesis
    using assms(9,10) f c by (simp add: scan_packets_found Let_def k len o_def)
qed

theorem critical_packets_scan_back_witness:
  "\<exists>critical found. build_critical_packets sample_digest 8 (replicate 16 1) [sample_source] = Inr critical
    \<and> scan_packets_with_limits sample_digest False sample_layout (concat (map snd critical)) 0 sample_limits = Inr found
    \<and> map fst found = expected_packets id 8 (replicate 16 1) [sample_source]"
proof -
  have name: "as_bytes [0x61] = [0x61]" by code_simp
  have "translate_par2_name_to_relative False [0x61] = Inr [0x61]" by code_simp
  moreover have "md5_length sample_digest" by (simp add: md5_length_def sample_digest_def)
  moreover have "valid_source sample_source"
    by (simp add: valid_source_def sample_source_def name is_scalar_def MAX_FILENAME_BYTES_def MAX_CHECKSUM_ENTRIES_def)
  moreover have "(\<Sum>packet\<leftarrow>expected_packets id 8 (replicate 16 1) [sample_source].
      unat (packet_retained_bytes sample_layout packet) + unat (lay_scanned sample_layout)) \<le> 2000"
    by (simp add: expected_packets_def packet_retained_bytes_def sample_layout_def sample_source_def name
        saturating_add_def saturating_mul_def checked_add_def len_u64_def RETAINED_SLOT_OVERHEAD_BYTES_def)
  ultimately show ?thesis
    by (intro critical_packets_scan_back)
      (simp_all add: sample_source_def sample_limits_def expected_packets_def MAX_FILES_PER_SET_def)
qed

end
