(* ===== verification/Spec2Isabelle.thy ===== *)
theory Spec2Isabelle
  imports Vint Repair_Matrix Rar5_Recovery Rar5_Resume Decrypting_Reader Member_Paths Rar3_Rs_Props Par2_Scan
begin

text \<open>
  Verification of the \<open>rarpar\<close> archive tools: the parts of its crates that decide
  whether an archive is read, decrypted, placed and repaired correctly.

  \<^bold>\<open>The program.\<close> \<open>unrar-rs\<close> reads RAR archives: a walk over the block headers of a
  volume produces the facts about its members, the key derivation and the decryptors
  give access to encrypted headers and data, and the path layer turns stored names into
  places below the output directory. \<open>reedsolomon-rs\<close> holds the field arithmetic and the
  coders with which \<open>unrar-rs\<close> (recovery volumes) and \<open>par2-rs\<close> (recovery sets)
  rebuild lost data. \<open>par2-rs\<close>, \<open>par3-rs\<close> and the command line tool drive them.

  \<^bold>\<open>Conventions.\<close> \<open>Rarpar_Prelude\<close> has the shared vocabulary. A function of the source is a
  function of the same name; \<open>self\<close> is its first argument or, where it is changed, part
  of the result. A \<open>Result\<close> is a sum with the error on the left and \<open>?\<close> is \<open>and_then\<close>;
  what would panic is \<open>None\<close> or the error \<open>Panicked\<close>. Integers that come from an archive
  keep their width as words; indices, lengths and positions in a stream that exists are
  natural numbers. A loop is a recursion or a fold over the range it runs through. The
  stream of a parser is the record \<open>reader\<close>, the \<open>std::io::Cursor\<close> of the source.

  \<^bold>\<open>Theories and sources.\<close>

  \<^item> \<open>Rar_Types\<close>: errors, archive types and limits (\<open>unrar-rs/src/error.rs\<close>, \<open>types.rs\<close>,
    \<open>limits.rs\<close>) and the stream.

  \<^item> \<open>Vint\<close>: the variable-length integers of \<open>vint.rs\<close>. Reading what was written returns the value
    and its length, for the checking readers as for the lenient one, and the readers agree.

  \<^item> \<open>Gf16_Field\<close>, \<open>Gf16\<close>: the field with 65536 elements. The first constructs it as an instance of
    the library's class of fields; the second models \<open>reedsolomon-rs/src/gf.rs\<close> and shows that the
    tables, products, powers and inverses of the source are those of the field and that the
    constants of the input slices have full order.

  \<^item> \<open>Gf_Linear\<close>, \<open>Repair_Matrix\<close>: elimination over that field and \<open>matrix.rs\<close>. A repair matrix that
    is built rebuilds every missing slice; one that cannot be built belongs to a singular system;
    every error of the source has its cause.

  \<^item> \<open>Rar5_Rs\<close>, \<open>Gf_Region\<close>, \<open>Rar5_Recovery\<close>: the RAR 5 coder (\<open>rar5.rs\<close>) and the portable region
    arithmetic (\<open>gf_simd.rs\<close>, \<open>gf_pmul.rs\<close>). Volumes encoded, lost and decoded come back, and
    a decoder exists exactly when enough recovery volumes are left.

  \<^item> \<open>Gf8\<close>, \<open>Rar3_Algebra\<close>, \<open>Rar3_Rs\<close>, \<open>Rar3_Decoder\<close>, \<open>Rar3_Rs_Props\<close>: the RAR 3 coder (\<open>rar3.rs\<close>). \<open>Gf8\<close> has
    its tables and the field with 256 elements, \<open>Rar3_Algebra\<close> the generator, locator and evaluator
    polynomials with Forney's formula, \<open>Rar3_Rs\<close> the coder itself with its cached state. The
    decoder restores up to as many erased symbols as there are parity symbols from every state
    the coder can be in, the decode matrix computes the same, and the one block shape that is
    refused is characterised.

  \<^item> \<open>Rar5_Common\<close>, \<open>Rar5_Fields\<close>, \<open>Rar5_Extra\<close>, \<open>Rar5_Blocks\<close>: the frame of a RAR 5 header, its fields,
    extra records and the parsers of every block type (\<open>unrar-rs/src/header/\<close>). A header
    written field by field is parsed back, no read leaves the header, and no input panics.

  \<^item> \<open>Rar5_Dispatch\<close>, \<open>Rar5_Walk\<close>, \<open>Rar5_Walk_Props\<close>, \<open>Rar5_Resume\<close>: one header into the result, the
    Quick Open cache, and the walk over a volume, plain and encrypted, with its short reads
    (\<open>header/mod.rs\<close>, \<open>short_read.rs\<close>). A full walk takes every block of a volume in order or has the
    answer of the cache, which is marked; a walk over a volume that is still arriving reports the
    complete blocks, and \<open>resume_headers_for_facts\<close> goes on from its stop with the result of a walk
    from the signature. A complete header whose common fields overrun it is taken for a short read.

  \<^item> \<open>Rar5_Kdf\<close>, \<open>Rar5_Cipher\<close>: key derivation with its cache and block decryption (\<open>crypto/kdf_hmac.rs\<close>,
    \<open>crypto/mod.rs\<close>). The HMAC is the standard's, the derived keys are those of PBKDF2, the cache
    changes no answer, and a range of a stream decrypts like the whole.

  \<^item> \<open>Legacy_Ciphers\<close>, \<open>Decrypting_Reader\<close>: the ciphers of RAR 1.3, 1.5 and 2.0 and the reader that
    decrypts a stream (\<open>crypto/mod.rs\<close>). RAR 2.0 decryption undoes encryption; the reader delivers
    the plaintext whatever the buffers and however the reader below it cuts its data.

  \<^item> \<open>Member_Paths\<close>: \<open>path.rs\<close>. Sanitised names stay below the directory they are resolved in, with the
    one exception it states, links that are accepted do not climb out, and names for Windows
    are storable there.

  \<^item> \<open>Rust_Str\<close>, \<open>Utf8_Strict\<close>: strings of the source as lists of code points, and UTF-8 as the standard
    library reads and writes it.

  \<^item> \<open>Par2_Packets\<close>, \<open>Par2_Names\<close>, \<open>Par2_Roundtrip\<close>: the packets of \<open>par2-rs\<close> (\<open>packet/\<close>, \<open>path.rs\<close>) and the
    encoder of the critical packets (\<open>create/output.rs\<close>). Packet names become names below the base
    directory, an accepted packet has the framing and digest it states, and the parser reads what
    the encoder writes.

  \<^item> \<open>Par2_Budget\<close>, \<open>Par2_Scan\<close>: the meters of a packet scan (\<open>packet/budget.rs\<close>) and the scan of a byte
    range (\<open>packet/mod.rs\<close>). The scan finds what trying every byte position finds or reports that a
    limit is exceeded, exactly then; the critical packets of a set scan back.

  \<^bold>\<open>Interfaces.\<close> Code outside the sources is an argument of the definitions that call it: the compression
  function of SHA-256 and SHA-256 itself, CRC-32, the AES transforms, MD5, Unicode normalisation,
  and the sizes of types in memory (\<open>layout\<close>). What the code relies on is a named hypothesis
  (\<open>cbc_chains\<close>, \<open>byte_source\<close>, \<open>nfc_keeps_components\<close>, \<open>md5_length\<close>), and every property that has one has a witness with a concrete function.
  The locales are \<open>field_words\<close> (words that are a field, for elimination), \<open>decryptor\<close> and
  \<open>byte_source\<close>, joined in \<open>decrypting\<close>, and \<open>packet_sink\<close> (where a packet scan delivers to); they
  are interpreted on the model's own field, ciphers, readers and collecting sink.

  \<^bold>\<open>Termination.\<close> Recursions are total, with a measure where they are not structural. The loop of the path
  layer that may repeat is a partial function, and its termination is a property. The walks over a
  volume, plain and encrypted, are total because every step that continues has read at least one
  more byte of it; no bound on the number of steps is assumed anywhere.

  \<^bold>\<open>Not modelled.\<close> The vectorised, generated and graphics kernels of \<open>reedsolomon-rs\<close> (\<open>gf_simd.rs\<close> beyond the
  portable path, \<open>xor_jit/\<close>, \<open>sve2.rs\<close>, \<open>metal_gf16.rs\<close>, \<open>wgpu_gf16.rs\<close>) are machine intrinsics;
  \<open>fft.rs\<close>, \<open>gf16_dft.rs\<close>, \<open>vandermonde_solve.rs\<close> and \<open>matrix_tiled.rs\<close> are further algorithms for the same
  products. The decompressors, the RAR 4 headers, BLAKE2sp, extraction and the file-system side of
  recovery in \<open>unrar-rs\<close>, the scan of PAR2 files on disk, the set
  builder and the repair and creation sessions of \<open>par2-rs\<close>, all of \<open>par3-rs\<close> and the command
  line are left out: they are dominated by input and output, threads and buffers, or not yet
  reached. Erasing key material, log lines and the rendered text of errors have no effect on
  results and are not represented.
\<close>

end
